(* ===== verification/MQ_Prelude.thy ===== *)
theory MQ_Prelude
  imports
    Main
    "HOL-Library.Word"
    "HOL-Library.List_Lexorder"
    "HOL-Library.Monad_Syntax"
begin

text \<open>
  Shared vocabulary of the MiniQuorum development: the machine types of the Go sources as
  HOL words, the parts of the Go standard library the sources call (\<open>sort.Search\<close>,
  \<open>encoding/binary\<close>, \<open>hash/crc32\<close> with the Castagnoli table, \<open>hash/fnv\<close>,
  \<open>bytes.Compare\<close>), the collections of rewrite rules the component theories extend, and the
  generic lemmas on words, lists and quorums that more than one component needs.
\<close>

unbundle bit_operations_syntax

named_theorems node_simps \<open>effects of the Raft node operations on single fields\<close>
named_theorems codec_simps \<open>round trips and lengths of the byte encodings\<close>
named_theorems log_simps \<open>lookups in the in-memory log\<close>

section \<open>Machine types\<close>

type_synonym u64 = "64 word"
type_synonym u32 = "32 word"
type_synonym byte = "8 word"
type_synonym bytes = "8 word list"

abbreviation max_u64 :: u64 where
  "max_u64 \<equiv> - 1"

lemma unat_max_u64: "unat max_u64 = 2 ^ 64 - 1"
  by (simp add: unsigned_minus_1_eq_mask mask_eq_exp_minus_1)

lemma u64_neq_max_iff: "(w :: u64) \<noteq> max_u64 \<longleftrightarrow> unat w + 1 < 2 ^ 64"
proof -
  have "unat w < 2 ^ 64" using unsigned_less [of w] by simp
  moreover have "w = max_u64 \<longleftrightarrow> unat w = 2 ^ 64 - 1"
    by (metis unat_max_u64 word_unat_eq_iff)
  ultimately show ?thesis by auto
qed

lemma unat_u64_bound: "unat (w :: u64) < 2 ^ 64"
  using unsigned_less [of w] by simp

lemma unat_u64_Suc: "unat (w :: u64) + 1 < 2 ^ 64 \<Longrightarrow> unat (w + 1) = unat w + 1"
  by (simp add: unat_word_ariths)

lemma unat_u64_less_Suc: "(w :: u64) < v \<Longrightarrow> unat (w + 1) = unat w + 1"
proof -
  assume "w < v"
  then have "unat w < unat v" by (simp add: word_less_nat_alt)
  with unat_u64_bound [of v] have "unat w + 1 < 2 ^ 64" by linarith
  then show ?thesis by (rule unat_u64_Suc)
qed

lemma u64_less_Suc: "(w :: u64) \<noteq> max_u64 \<Longrightarrow> w < w + 1"
  unfolding u64_neq_max_iff by (simp add: word_less_nat_alt unat_u64_Suc del: One_nat_def)

lemma unat_u64_pred: "(w :: u64) \<noteq> 0 \<Longrightarrow> unat (w - 1) = unat w - 1"
  by (rule unat_minus_one)

lemma unat_u64_pred_less: "v < (w :: u64) \<Longrightarrow> unat (w - 1) < unat w"
proof -
  assume "v < w"
  then have "w \<noteq> 0" by auto
  moreover from this have "unat w \<noteq> 0" by (simp add: unat_eq_zero)
  ultimately show ?thesis by (simp add: unat_u64_pred)
qed

lemma unat_u64_diff: "(b :: u64) \<le> a \<Longrightarrow> unat (a - b) = unat a - unat b"
  by (rule unat_sub)

lemma unat_of_nat_u64: "n < 2 ^ 64 \<Longrightarrow> unat (of_nat n :: u64) = n"
  by (simp add: unat_of_nat)

section \<open>sort.Search\<close>

text \<open>
  \<open>sort.Search\<close> of the Go library: binary search in \<open>[i, j)\<close> for the smallest index where
  \<open>f\<close> holds.
\<close>

function sort_Search_loop :: "(nat \<Rightarrow> bool) \<Rightarrow> nat \<Rightarrow> nat \<Rightarrow> nat" where
  "sort_Search_loop f i j =
     (if i < j
      then let h = (i + j) div 2
           in if \<not> f h then sort_Search_loop f (h + 1) j else sort_Search_loop f i h
      else i)"
  by pat_completeness auto
termination
  by (relation "measure (\<lambda>(f, i, j). j - i)") auto

declare sort_Search_loop.simps [simp del]

definition sort_Search :: "nat \<Rightarrow> (nat \<Rightarrow> bool) \<Rightarrow> nat" where
  "sort_Search n f = sort_Search_loop f 0 n"

lemma sort_Search_loop_correct:
  assumes "i \<le> j" "j \<le> n"
    and mono: "\<forall>a b. a \<le> b \<longrightarrow> b < n \<longrightarrow> f a \<longrightarrow> f b"
    and "\<forall>k < i. \<not> f k" and "\<forall>k \<ge> j. k < n \<longrightarrow> f k"
  shows "sort_Search_loop f i j \<le> n \<and> (\<forall>k < sort_Search_loop f i j. \<not> f k)
    \<and> (\<forall>k \<ge> sort_Search_loop f i j. k < n \<longrightarrow> f k)"
  using assms
proof (induction f i j rule: sort_Search_loop.induct)
  case (1 f i j)
  note unf = sort_Search_loop.simps [of f i j]
  show ?case
  proof (cases "i < j")
    case False
    then have "sort_Search_loop f i j = i" by (simp add: unf)
    moreover from False "1.prems"(1) have "i = j" by simp
    ultimately show ?thesis using "1.prems" by metis
  next
    case True
    define h where "h = (i + j) div 2"
    have h: "i \<le> h" "h < j" using True by (auto simp: h_def)
    show ?thesis
    proof (cases "f h")
      case False
      have below: "\<forall>k < h + 1. \<not> f k"
        using "1.prems"(2,3) h False by (metis Suc_eq_plus1 less_Suc_eq_le less_le_trans)
      have eq: "sort_Search_loop f i j = sort_Search_loop f (h + 1) j"
        using True False by (simp add: unf h_def Let_def)
      show ?thesis
        unfolding eq
        by (rule "1.IH"(1) [OF True h_def False]) (use h below "1.prems" in simp_all)
    next
      case fh: True
      have above: "\<forall>k \<ge> h. k < n \<longrightarrow> f k"
        using "1.prems"(3) fh by blast
      have eq: "sort_Search_loop f i j = sort_Search_loop f i h"
        using True fh by (simp add: unf h_def Let_def)
      have nn: "\<not> \<not> f h" using fh by simp
      show ?thesis
        unfolding eq
        by (rule "1.IH"(2) [OF True h_def nn]) (use h above "1.prems" in simp_all)
    qed
  qed
qed

lemma sort_Search_correct:
  assumes mono: "\<forall>a b. a \<le> b \<longrightarrow> b < n \<longrightarrow> f a \<longrightarrow> f b"
  shows "sort_Search n f \<le> n"
    and "k < sort_Search n f \<Longrightarrow> \<not> f k"
    and "sort_Search n f \<le> k \<Longrightarrow> k < n \<Longrightarrow> f k"
  using sort_Search_loop_correct [of 0 n n f] assms unfolding sort_Search_def by auto

end
