(* ===== verification/Raft_Log.thy ===== *)
theory Raft_Log
  imports MQ_Prelude
begin

text \<open>
  The in-memory Raft log of \<open>internal/raft/log.go\<close>: a snapshot boundary and the entries after
  it. The structs \<open>raftpb.Entry\<close> and \<open>logEntry\<close> have the same four fields and the code
  converts between them field by field, so both are the record \<open>Entry\<close>; a \<open>*raftpb.Entry\<close>
  that may be nil is an \<open>Entry option\<close>. Indices and terms are 64-bit words.
  The lemmas show that, on a contiguous log, every lookup is a list lookup at the offset from
  the snapshot and that the conflict rule of \<open>appendFromLeader\<close> is the list function
  \<open>reconcile\<close>.
\<close>

section \<open>Data\<close>

definition NORMAL :: u32 where
  "NORMAL = 1"

definition NOOP :: u32 where
  "NOOP = 2"

record Entry =
  e_Index :: u64
  e_Term :: u64
  e_Type :: u32
  e_Data :: bytes

record SnapshotMeta =
  sm_Index :: u64
  sm_Term :: u64

record raftLog =
  l_snapshot :: SnapshotMeta
  l_entries :: "Entry list"

abbreviation snap_index :: "raftLog \<Rightarrow> u64" where
  "snap_index l \<equiv> sm_Index (l_snapshot l)"

section \<open>Operations\<close>

definition newRaftLog :: "SnapshotMeta \<Rightarrow> Entry list \<Rightarrow> raftLog" where
  "newRaftLog snapshot entries = \<lparr>l_snapshot = snapshot,
     l_entries = map (\<lambda>e. \<lparr>e_Index = e_Index e, e_Term = e_Term e, e_Type = e_Type e, e_Data = e_Data e\<rparr>) entries\<rparr>"

definition firstIndex :: "raftLog \<Rightarrow> u64" where
  "firstIndex l = snap_index l + 1"

definition lastIndex :: "raftLog \<Rightarrow> u64" where
  "lastIndex l = (if l_entries l = [] then snap_index l else e_Index (last (l_entries l)))"

definition entry :: "raftLog \<Rightarrow> u64 \<Rightarrow> Entry option" where
  "entry l index =
     (if l_entries l = [] \<or> index < e_Index (hd (l_entries l)) then None
      else let offset = index - e_Index (hd (l_entries l))
           in if unat offset \<ge> length (l_entries l) then None
              else if e_Index (l_entries l ! unat offset) \<noteq> index then None
              else Some (l_entries l ! unat offset))"

definition log_term :: "raftLog \<Rightarrow> u64 \<Rightarrow> u64 option" where
  "log_term l index =
     (if index = snap_index l then Some (sm_Term (l_snapshot l))
      else case entry l index of None \<Rightarrow> None | Some e \<Rightarrow> Some (e_Term e))"

definition lastTerm :: "raftLog \<Rightarrow> u64" where
  "lastTerm l = (case log_term l (lastIndex l) of None \<Rightarrow> 0 | Some t \<Rightarrow> t)"

definition log_matches :: "raftLog \<Rightarrow> u64 \<Rightarrow> u64 \<Rightarrow> bool" where
  "log_matches l index t = (case log_term l index of None \<Rightarrow> False | Some localTerm \<Rightarrow> localTerm = t)"

function rangeEntries :: "raftLog \<Rightarrow> u64 \<Rightarrow> u64 \<Rightarrow> Entry list" where
  "rangeEntries l index hi =
     (if hi \<le> index then []
      else case entry l index of None \<Rightarrow> [] | Some e \<Rightarrow> e # rangeEntries l (index + 1) hi)"
  by pat_completeness auto
termination
proof (relation "measure (\<lambda>(l, index, hi). unat hi - unat index)")
  fix l index and hi :: u64
  assume "\<not> hi \<le> index"
  then have lt: "index < hi" by simp
  then have "unat (index + 1) = unat index + 1" by (rule unat_u64_less_Suc)
  moreover from lt have "unat index < unat hi" by (simp add: word_less_nat_alt)
  ultimately show "((l, index + 1, hi), (l, index, hi)) \<in> measure (\<lambda>(l, index, hi). unat hi - unat index)"
    by simp
qed simp

declare rangeEntries.simps [simp del]

definition appendLocal_log :: "raftLog \<Rightarrow> u64 \<Rightarrow> u32 \<Rightarrow> bytes \<Rightarrow> raftLog \<times> u64" where
  "appendLocal_log l t typ data =
     (let index = lastIndex l + 1
      in (l\<lparr>l_entries := l_entries l @ [\<lparr>e_Index = index, e_Term = t, e_Type = typ, e_Data = data\<rparr>]\<rparr>, index))"

definition truncateFrom :: "raftLog \<Rightarrow> u64 \<Rightarrow> raftLog" where
  "truncateFrom l index = l\<lparr>l_entries := takeWhile (\<lambda>e. \<not> e_Index e \<ge> index) (l_entries l)\<rparr>"

definition copy_above :: "u64 \<Rightarrow> Entry option list \<Rightarrow> Entry list" where
  "copy_above snap remaining =
     List.map_filter (\<lambda>r. case r of None \<Rightarrow> None | Some e \<Rightarrow> if e_Index e \<le> snap then None else Some e) remaining"

fun appendFromLeader :: "raftLog \<Rightarrow> Entry option list \<Rightarrow> raftLog \<times> u64" where
  "appendFromLeader l [] = (l, 0)"
| "appendFromLeader l (None # rest) = appendFromLeader l rest"
| "appendFromLeader l (Some incoming # rest) =
     (if e_Index incoming \<le> snap_index l then appendFromLeader l rest
      else if log_term l (e_Index incoming) = Some (e_Term incoming) then appendFromLeader l rest
      else let l' = truncateFrom l (e_Index incoming)
           in (l'\<lparr>l_entries := l_entries l' @ copy_above (snap_index l) (Some incoming # rest)\<rparr>, e_Index incoming))"

definition entryPointers :: "Entry list \<Rightarrow> Entry option list" where
  "entryPointers entries = map Some entries"

section \<open>Contiguous logs\<close>

definition contiguous_from :: "nat \<Rightarrow> Entry list \<Rightarrow> bool" where
  "contiguous_from s es \<longleftrightarrow> (\<forall>i < length es. unat (e_Index (es ! i)) = s + 1 + i)"

definition wf_log :: "raftLog \<Rightarrow> bool" where
  "wf_log l \<longleftrightarrow> contiguous_from (unat (snap_index l)) (l_entries l)
     \<and> unat (snap_index l) + length (l_entries l) + 1 < 2 ^ 64"

lemma contiguous_from_Nil [simp]: "contiguous_from s []"
  by (simp add: contiguous_from_def)

lemma contiguous_from_Cons [simp]:
  "contiguous_from s (e # es) \<longleftrightarrow> unat (e_Index e) = s + 1 \<and> contiguous_from (s + 1) es"
  by (auto simp: contiguous_from_def nth_Cons split: nat.splits)

lemma contiguous_from_append [simp]:
  "contiguous_from s (xs @ ys) \<longleftrightarrow> contiguous_from s xs \<and> contiguous_from (s + length xs) ys"
  by (induction xs arbitrary: s) auto

lemma contiguous_from_take: "contiguous_from s es \<Longrightarrow> contiguous_from s (take k es)"
  by (simp add: contiguous_from_def)

lemma contiguous_from_drop: "contiguous_from s es \<Longrightarrow> contiguous_from (s + k) (drop k es)"
  by (simp add: contiguous_from_def)

lemma contiguous_from_nth:
  "contiguous_from s es \<Longrightarrow> i < length es \<Longrightarrow> unat (e_Index (es ! i)) = s + 1 + i"
  by (simp add: contiguous_from_def)

lemma wf_log_snap: "wf_log l \<Longrightarrow> unat (snap_index l) + length (l_entries l) + 1 < 2 ^ 64"
  by (simp add: wf_log_def)

lemma lastIndex_wf [log_simps]:
  assumes "wf_log l"
  shows "unat (lastIndex l) = unat (snap_index l) + length (l_entries l)"
proof (cases "l_entries l = []")
  case False
  then have "last (l_entries l) = l_entries l ! (length (l_entries l) - 1)" by (rule last_conv_nth)
  with False assms show ?thesis
    by (simp add: lastIndex_def wf_log_def contiguous_from_def)
qed (simp add: lastIndex_def)

lemma lastIndex_no_wrap:
  assumes "wf_log l"
  shows "unat (lastIndex l + 1) = unat (lastIndex l) + 1"
  by (rule unat_u64_Suc) (use wf_log_snap [OF assms] lastIndex_wf [OF assms] in simp)

lemma entry_wf [log_simps]:
  assumes "wf_log l"
  shows "entry l index =
    (if unat (snap_index l) < unat index \<and> unat index \<le> unat (snap_index l) + length (l_entries l)
     then Some (l_entries l ! (unat index - unat (snap_index l) - 1)) else None)"
proof (cases "l_entries l")
  case Nil
  then show ?thesis by (simp add: entry_def)
next
  case (Cons e es)
  have hd: "unat (e_Index e) = unat (snap_index l) + 1"
    using assms Cons by (simp add: wf_log_def)
  show ?thesis
  proof (cases "index < e_Index e")
    case True
    then have "unat index < unat (e_Index e)" by (simp add: word_less_nat_alt)
    with Cons hd True show ?thesis by (simp add: entry_def)
  next
    case False
    then have le: "unat (e_Index e) \<le> unat index" by (simp add: word_less_nat_alt)
    have off: "unat (index - e_Index e) = unat index - unat (snap_index l) - 1"
      using False hd by (simp add: unat_u64_diff)
    let ?k = "unat index - unat (snap_index l) - 1"
    show ?thesis
    proof (cases "?k < length (l_entries l)")
      case True
      have "unat (e_Index (l_entries l ! ?k)) = unat (snap_index l) + 1 + ?k"
        using assms True by (simp add: wf_log_def contiguous_from_def)
      then have "e_Index (l_entries l ! ?k) = index"
        using le hd by (simp add: word_unat_eq_iff)
      with Cons False hd le off True show ?thesis
        by (auto simp add: entry_def Let_def)
    next
      case F: False
      with Cons False hd le off show ?thesis
        by (auto simp add: entry_def Let_def)
    qed
  qed
qed

lemma log_term_wf [log_simps]:
  assumes "wf_log l"
  shows "log_term l index =
    (if index = snap_index l then Some (sm_Term (l_snapshot l))
     else if unat (snap_index l) < unat index \<and> unat index \<le> unat (lastIndex l)
     then Some (e_Term (l_entries l ! (unat index - unat (snap_index l) - 1))) else None)"
  using assms by (simp add: log_term_def log_simps)

lemma log_term_bounds:
  assumes "wf_log l" "log_term l index = Some t"
  shows "unat (snap_index l) \<le> unat index" "unat index \<le> unat (lastIndex l)"
  using assms lastIndex_wf [OF assms(1)] by (auto simp: log_term_wf split: if_splits)

lemma takeWhile_contiguous:
  assumes "contiguous_from s es"
  shows "takeWhile (\<lambda>e. \<not> e_Index e \<ge> index) es = take (unat index - s - 1) es"
  using assms
proof (induction es arbitrary: s)
  case (Cons e es)
  show ?case
  proof (cases "unat index \<le> s + 1")
    case True
    with Cons.prems have "e_Index e \<ge> index" by (simp add: word_le_nat_alt)
    with True show ?thesis by simp
  next
    case False
    with Cons.prems have lt: "\<not> e_Index e \<ge> index" by (simp add: word_le_nat_alt)
    have "takeWhile (\<lambda>e. \<not> e_Index e \<ge> index) es = take (unat index - (s + 1) - 1) es"
      using Cons.prems by (intro Cons.IH) simp
    moreover have "unat index - s - 1 = Suc (unat index - (s + 1) - 1)" using False by arith
    ultimately show ?thesis using lt by simp
  qed
qed simp

lemma truncateFrom_wf [log_simps]:
  "wf_log l \<Longrightarrow> truncateFrom l index
     = l\<lparr>l_entries := take (unat index - unat (snap_index l) - 1) (l_entries l)\<rparr>"
  using takeWhile_contiguous [of "unat (snap_index l)" "l_entries l" index]
  by (simp add: truncateFrom_def wf_log_def)

lemma rangeEntries_wf [log_simps]:
  assumes "wf_log l" "unat (snap_index l) < unat lo"
  shows "rangeEntries l lo hi
    = take (unat hi - unat lo) (drop (unat lo - unat (snap_index l) - 1) (l_entries l))"
  using assms
proof (induction l lo hi rule: rangeEntries.induct)
  case (1 l index hi)
  note unf = rangeEntries.simps [of l index hi]
  show ?case
  proof (cases "hi \<le> index")
    case True
    then have "unat hi \<le> unat index" by (simp add: word_le_nat_alt)
    with True show ?thesis by (simp add: unf)
  next
    case False
    then have lt: "index < hi" by simp
    then have nlt: "unat index < unat hi" by (simp add: word_less_nat_alt)
    let ?k = "unat index - unat (snap_index l) - 1"
    show ?thesis
    proof (cases "?k < length (l_entries l)")
      case True
      have suc: "unat (index + 1) = unat index + 1" using lt by (rule unat_u64_less_Suc)
      have e: "entry l index = Some (l_entries l ! ?k)"
        using "1.prems" True by (auto simp: entry_wf)
      have "rangeEntries l (index + 1) hi
          = take (unat hi - unat (index + 1)) (drop (unat (index + 1) - unat (snap_index l) - 1) (l_entries l))"
        by (rule "1.IH" [OF False e]) (use "1.prems" suc in simp_all)
      also have "\<dots> = take (unat hi - unat index - 1) (drop (Suc ?k) (l_entries l))"
        using suc "1.prems"(2) by (simp add: Suc_diff_Suc)
      finally have "rangeEntries l index hi
          = l_entries l ! ?k # take (unat hi - unat index - 1) (drop (Suc ?k) (l_entries l))"
        using False e by (simp add: unf)
      also have "\<dots> = take (unat hi - unat index) (drop ?k (l_entries l))"
        using True nlt by (simp add: Cons_nth_drop_Suc [symmetric] take_Cons' del: drop_Suc)
      finally show ?thesis .
    next
      case F: False
      then have "entry l index = None" using "1.prems" by (auto simp: entry_wf)
      with F False show ?thesis by (simp add: unf)
    qed
  qed
qed

section \<open>The conflict rule\<close>

text \<open>
  The list-level specification of \<open>appendFromLeader\<close>: entries with equal terms are kept, the
  first difference in terms replaces the whole remaining suffix by the leader's.
\<close>

fun reconcile :: "Entry list \<Rightarrow> Entry list \<Rightarrow> Entry list" where
  "reconcile old [] = old"
| "reconcile [] (n # new) = n # new"
| "reconcile (o1 # old) (n # new) = (if e_Term o1 = e_Term n then o1 # reconcile old new else n # new)"

text \<open>Position of the first change, or nothing when every supplied entry is already there.\<close>

fun first_change :: "Entry list \<Rightarrow> Entry list \<Rightarrow> nat option" where
  "first_change old [] = None"
| "first_change [] (n # new) = Some 0"
| "first_change (o1 # old) (n # new) =
     (if e_Term o1 = e_Term n then map_option Suc (first_change old new) else Some 0)"

lemma reconcile_unchanged: "first_change old new = None \<Longrightarrow> reconcile old new = old"
  by (induction old new rule: reconcile.induct) (auto split: if_splits)

lemma reconcile_changed:
  "first_change old new = Some k \<Longrightarrow> reconcile old new = take k old @ drop k new"
  by (induction old new arbitrary: k rule: reconcile.induct) (auto split: if_splits)

lemma first_change_bounds:
  "first_change old new = Some k \<Longrightarrow> k \<le> length old \<and> k < length new"
  by (induction old new arbitrary: k rule: reconcile.induct) (fastforce split: if_splits)+

lemma length_reconcile:
  "length (reconcile old new)
     = (case first_change old new of None \<Rightarrow> length old | Some k \<Rightarrow> length new)"
  by (auto simp: reconcile_unchanged reconcile_changed min_def
      dest: first_change_bounds split: option.splits)

lemma first_change_None_length: "first_change old new = None \<Longrightarrow> length new \<le> length old"
  by (induction old new rule: reconcile.induct) (auto split: if_splits)

lemma contiguous_reconcile:
  assumes "contiguous_from s old" "contiguous_from s new"
  shows "contiguous_from s (reconcile old new)"
  using assms by (induction old new arbitrary: s rule: reconcile.induct) auto

lemma copy_above_contiguous:
  "contiguous_from s new \<Longrightarrow> unat snap \<le> s \<Longrightarrow> copy_above snap (map Some new) = new"
proof (induction new arbitrary: s)
  case (Cons e new)
  then have "\<not> e_Index e \<le> snap" by (simp add: word_le_nat_alt)
  moreover have "copy_above snap (map Some new) = new"
    using Cons.prems by (intro Cons.IH [of "s + 1"]) auto
  ultimately show ?case by (simp add: copy_above_def map_filter_simps)
qed (simp add: copy_above_def map_filter_simps)

text \<open>
  \<open>appendFromLeader\<close> on a contiguous log, for a contiguous run of entries that starts \<open>k\<close>
  positions after the snapshot, at or before the end of the log.
\<close>

lemma appendFromLeader_reconcile:
  assumes "wf_log l" "k \<le> length (l_entries l)"
    and "contiguous_from (unat (snap_index l) + k) new"
  shows "appendFromLeader l (map Some new) =
    (case first_change (drop k (l_entries l)) new of
       None \<Rightarrow> (l, 0)
     | Some i \<Rightarrow> (l\<lparr>l_entries := take k (l_entries l) @ reconcile (drop k (l_entries l)) new\<rparr>,
                   e_Index (new ! i)))"
  using assms(2,3)
proof (induction new arbitrary: k)
  case (Cons e new)
  let ?s = "unat (snap_index l)" and ?es = "l_entries l"
  have idx: "unat (e_Index e) = ?s + k + 1" using Cons.prems by simp
  then have gt: "\<not> e_Index e \<le> snap_index l" by (simp add: word_le_nat_alt)
  then have ne: "e_Index e \<noteq> snap_index l" by auto
  have lt: "log_term l (e_Index e) = (if k < length ?es then Some (e_Term (?es ! k)) else None)"
    using idx ne assms(1) by (auto simp: log_simps)
  show ?case
  proof (cases "k < length ?es \<and> e_Term (?es ! k) = e_Term e")
    case True
    have IH: "appendFromLeader l (map Some new) =
      (case first_change (drop (Suc k) ?es) new of None \<Rightarrow> (l, 0)
       | Some i \<Rightarrow> (l\<lparr>l_entries := take (Suc k) ?es @ reconcile (drop (Suc k) ?es) new\<rparr>, e_Index (new ! i)))"
      using Cons.prems True by (intro Cons.IH) auto
    have step: "appendFromLeader l (map Some (e # new)) = appendFromLeader l (map Some new)"
      using gt lt True by simp
    have d: "drop k ?es = ?es ! k # drop (Suc k) ?es"
      using True by (simp add: Cons_nth_drop_Suc)
    have t: "take (Suc k) ?es = take k ?es @ [?es ! k]"
      using True by (simp add: take_Suc_conv_app_nth)
    show ?thesis
      unfolding step IH using True by (simp add: d t split: option.splits)
  next
    case False
    then have "log_term l (e_Index e) \<noteq> Some (e_Term e)" using lt by auto
    moreover have "copy_above (snap_index l) (map Some (e # new)) = e # new"
      using Cons.prems by (intro copy_above_contiguous [of "?s + k"]) auto
    moreover have "take (unat (e_Index e) - ?s - 1) ?es = take k ?es"
      using idx by simp
    ultimately have step: "appendFromLeader l (map Some (e # new))
        = (l\<lparr>l_entries := take k ?es @ e # new\<rparr>, e_Index e)"
      using gt assms(1) by (simp add: truncateFrom_wf Let_def)
    show ?thesis
    proof (cases "k < length ?es")
      case True
      with False have "e_Term (?es ! k) \<noteq> e_Term e" by simp
      moreover have "drop k ?es = ?es ! k # drop (Suc k) ?es"
        using True by (simp add: Cons_nth_drop_Suc)
      ultimately show ?thesis using step by simp
    next
      case F: False
      with step show ?thesis by simp
    qed
  qed
qed simp

lemma appendFromLeader_entries:
  assumes "wf_log l" "k \<le> length (l_entries l)"
    and "contiguous_from (unat (snap_index l) + k) new"
  shows "fst (appendFromLeader l (map Some new))
    = l\<lparr>l_entries := take k (l_entries l) @ reconcile (drop k (l_entries l)) new\<rparr>"
  using appendFromLeader_reconcile [OF assms]
  by (auto simp: reconcile_unchanged split: option.splits)

lemma appendFromLeader_wf:
  assumes "wf_log l" "k \<le> length (l_entries l)"
    and "contiguous_from (unat (snap_index l) + k) new"
    and "unat (snap_index l) + k + length new + 1 < 2 ^ 64"
  shows "wf_log (fst (appendFromLeader l (map Some new)))"
proof -
  let ?es = "l_entries l"
  have c: "contiguous_from (unat (snap_index l) + k) (reconcile (drop k ?es) new)"
    using assms(1,3) by (intro contiguous_reconcile) (auto simp: wf_log_def intro: contiguous_from_drop)
  have "length (reconcile (drop k ?es) new) = length (drop k ?es)
      \<or> length (reconcile (drop k ?es) new) = length new"
    by (simp add: length_reconcile split: option.splits)
  then show ?thesis
    unfolding appendFromLeader_entries [OF assms(1-3)]
    using assms c by (auto simp: wf_log_def contiguous_from_take)
qed

lemma appendFromLeader_snapshot [simp]:
  "l_snapshot (fst (appendFromLeader l es)) = l_snapshot l"
  by (induction l es rule: appendFromLeader.induct) (auto simp: Let_def truncateFrom_def)

section \<open>Local appends\<close>

lemma appendLocal_log_wf:
  assumes "wf_log l" "unat (lastIndex l) + 2 < 2 ^ 64"
  shows "wf_log (fst (appendLocal_log l t typ data))"
  using assms lastIndex_no_wrap [OF assms(1)] lastIndex_wf [OF assms(1)]
  by (auto simp: appendLocal_log_def wf_log_def Let_def)

lemma appendLocal_log_simps [simp]:
  "l_snapshot (fst (appendLocal_log l t typ data)) = l_snapshot l"
  "snd (appendLocal_log l t typ data) = lastIndex l + 1"
  "l_entries (fst (appendLocal_log l t typ data))
     = l_entries l @ [\<lparr>e_Index = lastIndex l + 1, e_Term = t, e_Type = typ, e_Data = data\<rparr>]"
  by (simp_all add: appendLocal_log_def Let_def)

lemma lastIndex_appendLocal [simp]:
  "lastIndex (fst (appendLocal_log l t typ data)) = lastIndex l + 1"
  by (simp add: lastIndex_def)

lemma newRaftLog_entries [simp]:
  "l_entries (newRaftLog snapshot es) = es" "l_snapshot (newRaftLog snapshot es) = snapshot"
  by (auto simp: newRaftLog_def intro: map_idI)

lemma entryPointers_wf [simp]: "entryPointers es = map Some es"
  by (simp add: entryPointers_def)

end
