(* ===== verification/Raft_Node.thy ===== *)
theory Raft_Node
  imports Raft_Log
begin

text \<open>
  The deterministic Raft node of \<open>internal/raft/raft.go\<close> and the commit rule of
  \<open>internal/raft/commit_rule.go\<close>: the state as a record, one definition per method.
  A Go map that can be nil is an \<open>option\<close> of a map; reading a nil map gives the zero value and
  writing one panics. A method that can panic returns \<open>None\<close> for the panic, so the type of
  \<open>Step\<close>, \<open>Tick\<close> and \<open>Propose\<close> is \<open>Node option\<close>.
  The injected \<open>Rand\<close> is a function from the number of earlier draws and the bound to the
  value drawn, together with the number of draws made so far.
\<close>

section \<open>Data\<close>

record HardState =
  hs_Term :: u64
  hs_VotedFor :: u64

record Config =
  c_ID :: u64
  c_Peers :: "u64 list"
  c_ElectionTickMin :: int
  c_ElectionTickMax :: int
  c_HeartbeatTicks :: int

record InitialState =
  is_HardState :: HardState
  is_Entries :: "Entry list"
  is_Snapshot :: SnapshotMeta

record RequestVoteReq =
  rv_Term :: u64
  rv_CandidateId :: u64
  rv_LastLogIndex :: u64
  rv_LastLogTerm :: u64

record RequestVoteResp =
  rvr_Term :: u64
  rvr_VoteGranted :: bool

record AppendEntriesReq =
  ae_Term :: u64
  ae_LeaderId :: u64
  ae_PrevLogIndex :: u64
  ae_PrevLogTerm :: u64
  ae_Entries :: "Entry option list"
  ae_LeaderCommit :: u64

record AppendEntriesResp =
  aer_Term :: u64
  aer_Success :: bool
  aer_MatchIndex :: u64

datatype Body =
    RequestVote RequestVoteReq
  | RequestVoteReply RequestVoteResp
  | AppendEntries AppendEntriesReq
  | AppendEntriesReply AppendEntriesResp
  | InstallSnapshot
  | InstallSnapshotReply
  | NoBody

record Message =
  m_From :: u64
  m_To :: u64
  m_Term :: u64
  m_Body :: Body

record Ready =
  rd_HardState :: "HardState option"
  rd_Entries :: "Entry list"
  rd_Messages :: "Message list"
  rd_CommittedEntries :: "Entry list"

datatype role = follower | candidate | leader

record appendInflight =
  if_prevIndex :: u64
  if_prevTerm :: u64
  if_lastIndex :: u64
  if_leaderCommit :: u64
  if_hasEntries :: bool

record readyAck =
  ra_valid :: bool
  ra_hardState :: bool
  ra_hard :: HardState
  ra_messageCount :: nat
  ra_entries :: bool
  ra_stableTo :: u64
  ra_committed :: bool
  ra_appliedTo :: u64

type_synonym Rand = "nat \<Rightarrow> int \<Rightarrow> int"

record Node =
  n_config :: Config
  n_peers :: "u64 list"
  n_rnd :: "Rand option"
  n_draws :: nat
  n_hardState :: HardState
  n_role :: role
  n_electionElapsed :: int
  n_heartbeatElapsed :: int
  n_electionTimeout :: int
  n_votes :: "u64 set option"
  n_log :: raftLog
  n_unstableIndex :: u64
  n_commitIndex :: u64
  n_lastApplied :: u64
  n_nextIndex :: "(u64 \<rightharpoonup> u64) option"
  n_matchIndex :: "(u64 \<rightharpoonup> u64) option"
  n_inflight :: "(u64 \<rightharpoonup> appendInflight) option"
  n_hardStateDirty :: bool
  n_messages :: "Message list"
  n_readyAck :: readyAck

abbreviation node_id :: "Node \<Rightarrow> u64" where
  "node_id n \<equiv> c_ID (n_config n)"

abbreviation node_term :: "Node \<Rightarrow> u64" where
  "node_term n \<equiv> hs_Term (n_hardState n)"

section \<open>Go maps that may be nil\<close>

definition map_get :: "(u64 \<rightharpoonup> u64) option \<Rightarrow> u64 \<Rightarrow> u64" where
  "map_get m k = (case m of None \<Rightarrow> 0 | Some f \<Rightarrow> (case f k of None \<Rightarrow> 0 | Some v \<Rightarrow> v))"

definition map_put :: "('k \<rightharpoonup> 'v) option \<Rightarrow> 'k \<Rightarrow> 'v option \<Rightarrow> ('k \<rightharpoonup> 'v) option option" where
  "map_put m k v = (case m of None \<Rightarrow> None | Some f \<Rightarrow> Some (Some (f(k := v))))"

definition ptr_get :: "(u64 \<rightharpoonup> appendInflight) option \<Rightarrow> u64 \<Rightarrow> appendInflight option" where
  "ptr_get m k = (case m of None \<Rightarrow> None | Some f \<Rightarrow> f k)"

section \<open>Construction and timers\<close>

definition readyAck_zero :: readyAck where
  "readyAck_zero = \<lparr>ra_valid = False, ra_hardState = False, ra_hard = \<lparr>hs_Term = 0, hs_VotedFor = 0\<rparr>,
     ra_messageCount = 0, ra_entries = False, ra_stableTo = 0, ra_committed = False, ra_appliedTo = 0\<rparr>"

definition orderedPeers :: "u64 list \<Rightarrow> u64 list" where
  "orderedPeers peers = sort peers"

definition resetElectionTimeout :: "Node \<Rightarrow> Node" where
  "resetElectionTimeout n =
     (let timeout = c_ElectionTickMin (n_config n);
          span = c_ElectionTickMax (n_config n) - c_ElectionTickMin (n_config n)
      in case n_rnd n of
           Some rnd \<Rightarrow>
             if span > 0
             then n\<lparr>n_electionTimeout := timeout + rnd (n_draws n) span, n_draws := n_draws n + 1,
                    n_electionElapsed := 0\<rparr>
             else n\<lparr>n_electionTimeout := timeout, n_electionElapsed := 0\<rparr>
         | None \<Rightarrow> n\<lparr>n_electionTimeout := timeout, n_electionElapsed := 0\<rparr>)"

definition config_defaults :: "Config \<Rightarrow> Config" where
  "config_defaults cfg =
     (let cfg = (if c_ElectionTickMin cfg = 0 then cfg\<lparr>c_ElectionTickMin := 10\<rparr> else cfg);
          cfg = (if c_ElectionTickMax cfg = 0 then cfg\<lparr>c_ElectionTickMax := 20\<rparr> else cfg)
      in if c_HeartbeatTicks cfg = 0 then cfg\<lparr>c_HeartbeatTicks := 2\<rparr> else cfg)"

definition NewNode :: "Config \<Rightarrow> InitialState \<Rightarrow> Rand option \<Rightarrow> Node" where
  "NewNode cfg0 init rnd =
     (let cfg = config_defaults cfg0;
          n = \<lparr>n_config = cfg, n_peers = orderedPeers (c_Peers cfg), n_rnd = rnd, n_draws = 0,
               n_hardState = is_HardState init, n_role = follower,
               n_electionElapsed = 0, n_heartbeatElapsed = 0, n_electionTimeout = 0, n_votes = None,
               n_log = newRaftLog (is_Snapshot init) (is_Entries init),
               n_unstableIndex = 0,
               n_commitIndex = sm_Index (is_Snapshot init),
               n_lastApplied = sm_Index (is_Snapshot init),
               n_nextIndex = None, n_matchIndex = None, n_inflight = None,
               n_hardStateDirty = False, n_messages = [], n_readyAck = readyAck_zero\<rparr>;
          n = n\<lparr>n_unstableIndex := lastIndex (n_log n) + 1\<rparr>
      in resetElectionTimeout n)"

section \<open>Sending\<close>

definition send :: "u64 \<Rightarrow> Body \<Rightarrow> Node \<Rightarrow> Node" where
  "send to body n = n\<lparr>n_messages := n_messages n @
     [\<lparr>m_From = node_id n, m_To = to, m_Term = node_term n, m_Body = body\<rparr>]\<rparr>"

definition sendRequestVoteResponse :: "u64 \<Rightarrow> bool \<Rightarrow> Node \<Rightarrow> Node" where
  "sendRequestVoteResponse to granted n =
     send to (RequestVoteReply \<lparr>rvr_Term = node_term n, rvr_VoteGranted = granted\<rparr>) n"

definition sendAppendEntriesResponse :: "u64 \<Rightarrow> bool \<Rightarrow> u64 \<Rightarrow> Node \<Rightarrow> Node" where
  "sendAppendEntriesResponse to success matchIndex n =
     send to (AppendEntriesReply \<lparr>aer_Term = node_term n, aer_Success = success, aer_MatchIndex = matchIndex\<rparr>) n"

definition emitAppend :: "u64 \<Rightarrow> appendInflight \<Rightarrow> Node \<Rightarrow> Node" where
  "emitAppend peer pending n =
     (let entries = (if if_hasEntries pending
                     then entryPointers (rangeEntries (n_log n) (if_prevIndex pending + 1) (if_lastIndex pending + 1))
                     else [])
      in send peer (AppendEntries \<lparr>ae_Term = node_term n, ae_LeaderId = node_id n,
           ae_PrevLogIndex = if_prevIndex pending, ae_PrevLogTerm = if_prevTerm pending,
           ae_Entries = entries, ae_LeaderCommit = if_leaderCommit pending\<rparr>) n)"

text \<open>Assignments \<open>n.nextIndex[peer] = v\<close> and its siblings: a write to a nil map panics.\<close>

definition set_nextIndex :: "u64 \<Rightarrow> u64 \<Rightarrow> Node \<Rightarrow> Node option" where
  "set_nextIndex peer v n =
     (case map_put (n_nextIndex n) peer (Some v) of None \<Rightarrow> None | Some m \<Rightarrow> Some (n\<lparr>n_nextIndex := m\<rparr>))"

definition set_matchIndex :: "u64 \<Rightarrow> u64 \<Rightarrow> Node \<Rightarrow> Node option" where
  "set_matchIndex peer v n =
     (case map_put (n_matchIndex n) peer (Some v) of None \<Rightarrow> None | Some m \<Rightarrow> Some (n\<lparr>n_matchIndex := m\<rparr>))"

definition set_inflight :: "u64 \<Rightarrow> appendInflight option \<Rightarrow> Node \<Rightarrow> Node option" where
  "set_inflight peer v n =
     (case map_put (n_inflight n) peer v of None \<Rightarrow> None | Some m \<Rightarrow> Some (n\<lparr>n_inflight := m\<rparr>))"

definition sendAppend_next :: "u64 \<Rightarrow> Node \<Rightarrow> u64" where
  "sendAppend_next peer n =
     (let last = lastIndex (n_log n);
          next = map_get (n_nextIndex n) peer;
          next = (if next < firstIndex (n_log n) then firstIndex (n_log n) else next)
      in if next > last + 1 then last + 1 else next)"

definition sendAppend_pending :: "u64 \<Rightarrow> u64 \<Rightarrow> bool \<Rightarrow> Node \<Rightarrow> appendInflight" where
  "sendAppend_pending next prevTerm probe n =
     (let pending = \<lparr>if_prevIndex = next - 1, if_prevTerm = prevTerm, if_lastIndex = next - 1,
                     if_leaderCommit = n_commitIndex n, if_hasEntries = False\<rparr>
      in if \<not> probe \<and> next \<le> lastIndex (n_log n)
         then pending\<lparr>if_hasEntries := True, if_lastIndex := lastIndex (n_log n)\<rparr> else pending)"

definition sendAppend :: "u64 \<Rightarrow> bool \<Rightarrow> Node \<Rightarrow> Node option" where
  "sendAppend peer probe n =
     (case ptr_get (n_inflight n) peer of
        Some pending \<Rightarrow> Some (emitAppend peer pending n)
      | None \<Rightarrow>
          (let next = sendAppend_next peer n
           in do {
             n \<leftarrow> set_nextIndex peer next n;
             (case log_term (n_log n) (next - 1) of
                None \<Rightarrow> Some n
              | Some prevTerm \<Rightarrow>
                  (let pending = sendAppend_pending next prevTerm probe n
                   in do {
                     n \<leftarrow> set_inflight peer (Some pending) n;
                     Some (emitAppend peer pending n)
                   }))
           }))"

primrec broadcast :: "u64 list \<Rightarrow> (u64 \<Rightarrow> Node \<Rightarrow> bool) \<Rightarrow> bool \<Rightarrow> Node \<Rightarrow> Node option" where
  "broadcast [] skip probe n = Some n"
| "broadcast (peer # peers) skip probe n =
     (if peer = node_id n \<or> skip peer n then broadcast peers skip probe n
      else do { n \<leftarrow> sendAppend peer probe n; broadcast peers skip probe n })"

definition broadcastAppend :: "bool \<Rightarrow> Node \<Rightarrow> Node option" where
  "broadcastAppend probe n = broadcast (n_peers n) (\<lambda>_ _. False) probe n"

definition broadcastAvailableAppend :: "Node \<Rightarrow> Node option" where
  "broadcastAvailableAppend n = broadcast (n_peers n) (\<lambda>peer n. ptr_get (n_inflight n) peer \<noteq> None) False n"

definition sendHeartbeats :: "Node \<Rightarrow> Node option" where
  "sendHeartbeats n = broadcastAppend False n"

section \<open>Commitment\<close>

definition commitTermEligible :: "u64 \<Rightarrow> u64 \<Rightarrow> bool" where
  "commitTermEligible entryTerm currentTerm = (entryTerm = currentTerm)"

definition majority :: "Node \<Rightarrow> nat" where
  "majority n = length (n_peers n) div 2 + 1"

definition replicas :: "Node \<Rightarrow> u64 \<Rightarrow> nat" where
  "replicas n index = length (filter (\<lambda>peer. map_get (n_matchIndex n) peer \<ge> index) (n_peers n))"

function advanceCommit_loop :: "Node \<Rightarrow> u64 \<Rightarrow> u64 option" where
  "advanceCommit_loop n index =
     (if index \<le> n_commitIndex n then None
      else case log_term (n_log n) index of
             None \<Rightarrow> advanceCommit_loop n (index - 1)
           | Some t \<Rightarrow>
               if \<not> commitTermEligible t (node_term n) then advanceCommit_loop n (index - 1)
               else if replicas n index \<ge> majority n then Some index
               else advanceCommit_loop n (index - 1))"
  by pat_completeness auto
termination
  by (relation "measure (\<lambda>(n, index). unat index)") (auto simp: not_le intro: unat_u64_pred_less)

declare advanceCommit_loop.simps [simp del]

definition advanceCommit :: "Node \<Rightarrow> Node \<times> bool" where
  "advanceCommit n =
     (if n_role n \<noteq> leader then (n, False)
      else case advanceCommit_loop n (lastIndex (n_log n)) of
             None \<Rightarrow> (n, False)
           | Some index \<Rightarrow> (n\<lparr>n_commitIndex := index\<rparr>, True))"

definition appendLocal :: "u32 \<Rightarrow> bytes \<Rightarrow> Node \<Rightarrow> (Node \<times> u64) option" where
  "appendLocal typ data n =
     (let (log', index) = appendLocal_log (n_log n) (node_term n) typ data;
          n = n\<lparr>n_log := log'\<rparr>;
          n = (if index < n_unstableIndex n then n\<lparr>n_unstableIndex := index\<rparr> else n)
      in if n_matchIndex n \<noteq> None
         then do {
           n \<leftarrow> set_matchIndex (node_id n) index n;
           n \<leftarrow> set_nextIndex (node_id n) (index + 1) n;
           Some (n, index)
         }
         else Some (n, index))"

section \<open>Role changes\<close>

definition hasMajority :: "Node \<Rightarrow> bool" where
  "hasMajority n = ((case n_votes n of None \<Rightarrow> 0 | Some vs \<Rightarrow> card vs) \<ge> length (n_peers n) div 2 + 1)"

definition becomeFollower :: "u64 \<Rightarrow> Node \<Rightarrow> Node" where
  "becomeFollower t n =
     (let n = (if t \<noteq> node_term n
               then resetElectionTimeout (n\<lparr>n_hardState := \<lparr>hs_Term = t, hs_VotedFor = 0\<rparr>, n_hardStateDirty := True\<rparr>)
               else n)
      in n\<lparr>n_role := follower, n_heartbeatElapsed := 0, n_votes := None,
           n_nextIndex := None, n_matchIndex := None, n_inflight := None\<rparr>)"

definition becomeFollowerSameTerm :: "Node \<Rightarrow> Node" where
  "becomeFollowerSameTerm n =
     n\<lparr>n_role := follower, n_heartbeatElapsed := 0, n_votes := None, n_electionElapsed := 0,
       n_nextIndex := None, n_matchIndex := None, n_inflight := None\<rparr>"

definition becomeLeader :: "Node \<Rightarrow> Node option" where
  "becomeLeader n =
     (let probeIndex = lastIndex (n_log n);
          n = n\<lparr>n_role := leader, n_heartbeatElapsed := 0, n_votes := None,
                n_nextIndex := Some (\<lambda>p. if p \<in> set (n_peers n) then Some (probeIndex + 1) else None),
                n_matchIndex := Some (\<lambda>p. if p \<in> set (n_peers n) then Some 0 else None),
                n_inflight := Some Map.empty\<rparr>
      in do {
        (n, _) \<leftarrow> appendLocal NOOP [] n;
        let (n, _) = advanceCommit n in broadcastAppend True n
      })"

primrec sendRequestVotes :: "u64 list \<Rightarrow> Node \<Rightarrow> Node" where
  "sendRequestVotes [] n = n"
| "sendRequestVotes (peer # peers) n =
     (if peer = node_id n then sendRequestVotes peers n
      else sendRequestVotes peers
        (send peer (RequestVote \<lparr>rv_Term = node_term n, rv_CandidateId = node_id n,
           rv_LastLogIndex = lastIndex (n_log n), rv_LastLogTerm = lastTerm (n_log n)\<rparr>) n))"

definition startElection :: "Node \<Rightarrow> Node option" where
  "startElection n0 =
     (let n = n0\<lparr>n_hardState := \<lparr>hs_Term = node_term n0 + 1, hs_VotedFor = node_id n0\<rparr>,
                n_hardStateDirty := True, n_role := candidate, n_heartbeatElapsed := 0,
                n_votes := Some {node_id n0}\<rparr>;
          n = resetElectionTimeout n
      in if hasMajority n then becomeLeader n
         else Some (sendRequestVotes (n_peers n) n))"

section \<open>Message handlers\<close>

definition candidateLogIsUpToDate :: "u64 \<Rightarrow> u64 \<Rightarrow> Node \<Rightarrow> bool" where
  "candidateLogIsUpToDate index t n =
     (let lastLogIndex = lastIndex (n_log n); lastLogTerm = lastTerm (n_log n)
      in t > lastLogTerm \<or> (t = lastLogTerm \<and> index \<ge> lastLogIndex))"

definition handleRequestVote :: "Message \<Rightarrow> RequestVoteReq \<Rightarrow> Node \<Rightarrow> Node" where
  "handleRequestVote m req n =
     (let canVote = (hs_VotedFor (n_hardState n) = 0 \<or> hs_VotedFor (n_hardState n) = rv_CandidateId req);
          granted = (canVote \<and> candidateLogIsUpToDate (rv_LastLogIndex req) (rv_LastLogTerm req) n);
          n = (if granted
               then (if hs_VotedFor (n_hardState n) = 0
                     then n\<lparr>n_hardState := (n_hardState n)\<lparr>hs_VotedFor := rv_CandidateId req\<rparr>,
                            n_hardStateDirty := True\<rparr>
                     else n)\<lparr>n_electionElapsed := 0\<rparr>
               else n)
      in sendRequestVoteResponse (m_From m) granted n)"

definition isPeer :: "u64 \<Rightarrow> Node \<Rightarrow> bool" where
  "isPeer pid n =
     (let index = sort_Search (length (n_peers n)) (\<lambda>i. n_peers n ! i \<ge> pid)
      in index < length (n_peers n) \<and> n_peers n ! index = pid)"

definition handleRequestVoteResponse :: "Message \<Rightarrow> RequestVoteResp \<Rightarrow> Node \<Rightarrow> Node option" where
  "handleRequestVoteResponse m resp n =
     (if n_role n \<noteq> candidate \<or> \<not> rvr_VoteGranted resp \<or> \<not> isPeer (m_From m) n then Some n
      else case n_votes n of
             None \<Rightarrow> None
           | Some vs \<Rightarrow>
               (let n = n\<lparr>n_votes := Some (insert (m_From m) vs)\<rparr>
                in if hasMajority n then becomeLeader n else Some n))"

fun entries_follow :: "u64 \<Rightarrow> Entry option list \<Rightarrow> bool" where
  "entries_follow prev [] = True"
| "entries_follow prev (None # es) = False"
| "entries_follow prev (Some e # es) = (e_Index e = prev + 1 \<and> entries_follow (prev + 1) es)"

definition appendRequestLastIndex :: "AppendEntriesReq \<Rightarrow> u64 option" where
  "appendRequestLastIndex req =
     (if length (ae_Entries req) > unat (max_u64 - ae_PrevLogIndex req) then None
      else if \<not> entries_follow (ae_PrevLogIndex req) (ae_Entries req) then None
      else Some (ae_PrevLogIndex req + of_nat (length (ae_Entries req))))"

definition handleAppendEntries :: "Message \<Rightarrow> AppendEntriesReq \<Rightarrow> Node \<Rightarrow> Node" where
  "handleAppendEntries m req n =
     (let n = (if n_role n \<noteq> follower then becomeFollowerSameTerm n else n);
          n = n\<lparr>n_electionElapsed := 0\<rparr>
      in case appendRequestLastIndex req of
           None \<Rightarrow> sendAppendEntriesResponse (m_From m) False 0 n
         | Some requestLastIndex \<Rightarrow>
             if \<not> log_matches (n_log n) (ae_PrevLogIndex req) (ae_PrevLogTerm req)
             then sendAppendEntriesResponse (m_From m) False 0 n
             else (let (log', changed) = appendFromLeader (n_log n) (ae_Entries req);
                       n = n\<lparr>n_log := log'\<rparr>;
                       n = (if changed \<noteq> 0 \<and> changed < n_unstableIndex n then n\<lparr>n_unstableIndex := changed\<rparr> else n);
                       n = (if ae_LeaderCommit req > n_commitIndex n
                            then n\<lparr>n_commitIndex := min (ae_LeaderCommit req) requestLastIndex\<rparr> else n)
                   in sendAppendEntriesResponse (m_From m) True requestLastIndex n))"

definition handleAppendEntriesResponse :: "Message \<Rightarrow> AppendEntriesResp \<Rightarrow> Node \<Rightarrow> Node option" where
  "handleAppendEntriesResponse m resp n =
     (let peer = m_From m
      in if n_role n \<noteq> leader \<or> \<not> isPeer peer n \<or> peer = node_id n then Some n
         else case ptr_get (n_inflight n) peer of
                None \<Rightarrow> Some n
              | Some pending \<Rightarrow>
                  if aer_Success resp
                  then (let acknowledged = aer_MatchIndex resp
                        in if acknowledged \<noteq> if_lastIndex pending \<or> acknowledged < map_get (n_matchIndex n) peer
                              \<or> acknowledged > lastIndex (n_log n) \<or> acknowledged = max_u64
                           then Some n
                           else do {
                             n \<leftarrow> set_inflight peer None n;
                             n \<leftarrow> (if acknowledged > map_get (n_matchIndex n) peer
                                   then set_matchIndex peer acknowledged n else Some n);
                             n \<leftarrow> set_nextIndex peer (map_get (n_matchIndex n) peer + 1) n;
                             let (n, commitAdvanced) = advanceCommit n
                             in if map_get (n_nextIndex n) peer \<le> lastIndex (n_log n) \<or> commitAdvanced
                                then sendAppend peer False n else Some n
                           })
                  else do {
                    n \<leftarrow> set_inflight peer None n;
                    let matched = map_get (n_matchIndex n) peer;
                        floor0 = firstIndex (n_log n);
                        retryFloor = (if matched \<noteq> max_u64 \<and> matched + 1 > floor0 then matched + 1 else floor0)
                    in do {
                      n \<leftarrow> (if map_get (n_nextIndex n) peer > retryFloor
                            then set_nextIndex peer (map_get (n_nextIndex n) peer - 1) n else Some n);
                      sendAppend peer False n
                    }
                  })"

definition rejectLowerTermRequest :: "Message \<Rightarrow> Node \<Rightarrow> Node" where
  "rejectLowerTermRequest m n =
     (case m_Body m of
        RequestVote _ \<Rightarrow> sendRequestVoteResponse (m_From m) False n
      | AppendEntries _ \<Rightarrow> sendAppendEntriesResponse (m_From m) False 0 n
      | _ \<Rightarrow> n)"

definition messageTerm :: "Message \<Rightarrow> u64" where
  "messageTerm m =
     (case m_Body m of
        RequestVote r \<Rightarrow> if rv_Term r > m_Term m then rv_Term r else m_Term m
      | RequestVoteReply r \<Rightarrow> if rvr_Term r > m_Term m then rvr_Term r else m_Term m
      | AppendEntries r \<Rightarrow> if ae_Term r > m_Term m then ae_Term r else m_Term m
      | AppendEntriesReply r \<Rightarrow> if aer_Term r > m_Term m then aer_Term r else m_Term m
      | _ \<Rightarrow> m_Term m)"

definition dispatch :: "Message \<Rightarrow> Node \<Rightarrow> Node option" where
  "dispatch m n =
     (case m_Body m of
        RequestVote r \<Rightarrow> Some (handleRequestVote m r n)
      | AppendEntries r \<Rightarrow> Some (handleAppendEntries m r n)
      | RequestVoteReply r \<Rightarrow> handleRequestVoteResponse m r n
      | AppendEntriesReply r \<Rightarrow> handleAppendEntriesResponse m r n
      | _ \<Rightarrow> Some n)"

section \<open>The exported operations\<close>

definition Step :: "Message option \<Rightarrow> Node \<Rightarrow> Node option" where
  "Step mo n =
     (case mo of
        None \<Rightarrow> Some n
      | Some m \<Rightarrow>
          (let t = messageTerm m
           in if t > node_term n then dispatch m (becomeFollower t n)
              else if t < node_term n then Some (rejectLowerTermRequest m n)
              else dispatch m n))"

definition Tick :: "Node \<Rightarrow> Node option" where
  "Tick n =
     (if n_role n = leader
      then (let n = n\<lparr>n_heartbeatElapsed := n_heartbeatElapsed n + 1\<rparr>
            in if n_heartbeatElapsed n \<ge> c_HeartbeatTicks (n_config n)
               then sendHeartbeats (n\<lparr>n_heartbeatElapsed := 0\<rparr>)
               else Some n)
      else (let n = n\<lparr>n_electionElapsed := n_electionElapsed n + 1\<rparr>
            in if n_electionElapsed n \<ge> n_electionTimeout n then startElection n else Some n))"

definition Propose :: "bytes \<Rightarrow> Node \<Rightarrow> (Node \<times> u64 \<times> u64 \<times> bool) option" where
  "Propose data n =
     (if n_role n \<noteq> leader then Some (n, 0, node_term n, False)
      else do {
        (n, index) \<leftarrow> appendLocal NORMAL data n;
        let (n, _) = advanceCommit n
        in do {
          n \<leftarrow> broadcastAvailableAppend n;
          Some (n, index, node_term n, True)
        }
      })"

definition readyWithoutCapture :: "Node \<Rightarrow> Ready" where
  "readyWithoutCapture n =
     \<lparr>rd_HardState = (if n_hardStateDirty n then Some (n_hardState n) else None),
      rd_Entries = (if n_unstableIndex n \<le> lastIndex (n_log n)
                    then rangeEntries (n_log n) (n_unstableIndex n) (lastIndex (n_log n) + 1) else []),
      rd_Messages = n_messages n,
      rd_CommittedEntries = (if n_lastApplied n < n_commitIndex n
                             then rangeEntries (n_log n) (n_lastApplied n + 1) (n_commitIndex n + 1) else [])\<rparr>"

definition captureReady :: "Ready \<Rightarrow> Node \<Rightarrow> Node" where
  "captureReady ready n =
     n\<lparr>n_readyAck :=
       \<lparr>ra_valid = True,
        ra_hardState = (rd_HardState ready \<noteq> None),
        ra_hard = (case rd_HardState ready of None \<Rightarrow> \<lparr>hs_Term = 0, hs_VotedFor = 0\<rparr> | Some hs \<Rightarrow> hs),
        ra_messageCount = length (rd_Messages ready),
        ra_entries = (rd_Entries ready \<noteq> []),
        ra_stableTo = (if rd_Entries ready \<noteq> [] then e_Index (last (rd_Entries ready)) else 0),
        ra_committed = (rd_CommittedEntries ready \<noteq> []),
        ra_appliedTo = (if rd_CommittedEntries ready \<noteq> [] then e_Index (last (rd_CommittedEntries ready)) else 0)\<rparr>\<rparr>"

definition Node_Ready :: "Node \<Rightarrow> Ready \<times> Node" where
  "Node_Ready n = (let ready = readyWithoutCapture n in (ready, captureReady ready n))"

definition Advance :: "Node \<Rightarrow> Node" where
  "Advance n0 =
     (let n = (if \<not> ra_valid (n_readyAck n0) then captureReady (readyWithoutCapture n0) n0 else n0);
          ack = n_readyAck n;
          n = (if ra_hardState ack \<and> n_hardStateDirty n \<and> n_hardState n = ra_hard ack
               then n\<lparr>n_hardStateDirty := False\<rparr> else n);
          n = n\<lparr>n_messages := (if ra_messageCount ack \<ge> length (n_messages n) then []
                               else if ra_messageCount ack > 0 then drop (ra_messageCount ack) (n_messages n)
                               else n_messages n)\<rparr>;
          n = (if ra_entries ack \<and> n_unstableIndex n \<le> ra_stableTo ack
               then n\<lparr>n_unstableIndex := ra_stableTo ack + 1\<rparr> else n);
          n = (if ra_committed ack \<and> ra_appliedTo ack > n_lastApplied n
               then n\<lparr>n_lastApplied := ra_appliedTo ack\<rparr> else n)
      in n\<lparr>n_readyAck := readyAck_zero\<rparr>)"

end
