(* ===== verification/Storage_Mem.thy ===== *)
theory Storage_Mem
  imports Raft_Node
begin

text \<open>
  The durable storage boundary of \<open>internal/storage/storage.go\<close>: the volatile
  \<open>MemStorage\<close> method by method, and the contract of the \<open>Storage\<close> interface as the locale
  \<open>raft_storage\<close>. The contract speaks about two views of a storage, its hard state and its
  log: a successful \<open>Save\<close> replaces the hard state when one is given and replaces the log
  suffix that starts at the first entry given; the readers return these views. \<open>fits\<close> are the
  size limits of the representation, such as the length of a Go slice.
\<close>

section \<open>MemStorage\<close>

datatype storage_error = ErrOutOfBounds

record MemStorage =
  ms_hard :: HardState
  ms_entries :: "Entry list"

definition NewMemStorage :: MemStorage where
  "NewMemStorage = \<lparr>ms_hard = \<lparr>hs_Term = 0, hs_VotedFor = 0\<rparr>, ms_entries = []\<rparr>"

definition cloneEntries :: "Entry list \<Rightarrow> Entry list" where
  "cloneEntries entries =
     map (\<lambda>e. \<lparr>e_Index = e_Index e, e_Term = e_Term e, e_Type = e_Type e, e_Data = e_Data e\<rparr>) entries"

definition firstLast :: "Entry list \<Rightarrow> u64 \<times> u64" where
  "firstLast entries = (if entries = [] then (1, 0) else (e_Index (hd entries), e_Index (last entries)))"

primrec cut_at :: "u64 \<Rightarrow> Entry list \<Rightarrow> nat" where
  "cut_at first [] = 0"
| "cut_at first (e # es) = (if e_Index e \<ge> first then 0 else Suc (cut_at first es))"

definition MemStorage_Save :: "HardState option \<Rightarrow> Entry list \<Rightarrow> MemStorage \<Rightarrow> MemStorage \<times> storage_error option" where
  "MemStorage_Save hs entries s =
     (let newHard = (case hs of None \<Rightarrow> ms_hard s | Some h \<Rightarrow> h);
          newEntries = cloneEntries (ms_entries s);
          newEntries = (if entries \<noteq> []
                        then take (cut_at (e_Index (hd entries)) newEntries) newEntries @ cloneEntries entries
                        else newEntries)
      in (s\<lparr>ms_hard := newHard, ms_entries := newEntries\<rparr>, None))"

definition MemStorage_HardState :: "MemStorage \<Rightarrow> storage_error + HardState" where
  "MemStorage_HardState s = Inr (ms_hard s)"

text \<open>The outer \<open>None\<close> is the run-time panic of a slice expression out of range.\<close>

definition MemStorage_Entries :: "u64 \<Rightarrow> u64 \<Rightarrow> MemStorage \<Rightarrow> (storage_error + Entry list) option" where
  "MemStorage_Entries lo hi s =
     (let (first, last) = firstLast (ms_entries s)
      in if lo > hi \<or> lo < first \<or> hi > last + 1 then Some (Inl ErrOutOfBounds)
         else (let start = unat (lo - first); stop = unat (hi - first)
               in if start \<le> stop \<and> stop \<le> length (ms_entries s)
                  then Some (Inr (cloneEntries (take (stop - start) (drop start (ms_entries s)))))
                  else None))"

definition MemStorage_FirstIndex :: "MemStorage \<Rightarrow> u64" where
  "MemStorage_FirstIndex s = fst (firstLast (ms_entries s))"

definition MemStorage_LastIndex :: "MemStorage \<Rightarrow> u64" where
  "MemStorage_LastIndex s = snd (firstLast (ms_entries s))"

section \<open>The contract of the Storage interface\<close>

text \<open>The log after a batch: the suffix from the first entry of the batch on is replaced.\<close>

definition merge_log :: "Entry list \<Rightarrow> Entry list \<Rightarrow> Entry list" where
  "merge_log old es = (if es = [] then old else takeWhile (\<lambda>e. e_Index e < e_Index (hd es)) old @ es)"

definition merge_hard :: "HardState \<Rightarrow> HardState option \<Rightarrow> HardState" where
  "merge_hard old hs = (case hs of None \<Rightarrow> old | Some h \<Rightarrow> h)"

text \<open>A log as recovery needs it: indices count up by one, and there is an index after the last.\<close>

definition dense_log :: "Entry list \<Rightarrow> bool" where
  "dense_log es \<longleftrightarrow> (es \<noteq> [] \<longrightarrow> contiguous_from (unat (e_Index (hd es)) - 1) es
     \<and> e_Index (hd es) \<noteq> 0 \<and> e_Index (last es) \<noteq> max_u64)"

locale raft_storage =
  fixes inv :: "'s \<Rightarrow> bool"
    and fits :: "'s \<Rightarrow> Entry list \<Rightarrow> bool"
    and durable_hard :: "'s \<Rightarrow> HardState"
    and durable_log :: "'s \<Rightarrow> Entry list"
    and save :: "HardState option \<Rightarrow> Entry list \<Rightarrow> 's \<Rightarrow> 's \<times> 'w option"
    and hard :: "'s \<Rightarrow> 'e + HardState"
    and entries :: "u64 \<Rightarrow> u64 \<Rightarrow> 's \<Rightarrow> ('e + Entry list) option"
    and first :: "'s \<Rightarrow> u64"
    and last_ix :: "'s \<Rightarrow> u64"
  assumes save_ok: "inv s \<Longrightarrow> fits s es \<Longrightarrow> save hs es s = (s', None) \<Longrightarrow>
      inv s' \<and> durable_hard s' = merge_hard (durable_hard s) hs \<and> durable_log s' = merge_log (durable_log s) es"
    and hard_ok: "inv s \<Longrightarrow> hard s = Inr (durable_hard s)"
    and bounds_ok: "inv s \<Longrightarrow> (first s, last_ix s) = firstLast (durable_log s)"
    and entries_ok: "inv s \<Longrightarrow> dense_log (durable_log s) \<Longrightarrow> durable_log s \<noteq> [] \<Longrightarrow>
      entries (first s) (last_ix s + 1) s = Some (Inr (durable_log s))"

section \<open>MemStorage satisfies the contract\<close>

lemma map_rebuild:
  "map (\<lambda>e. \<lparr>e_Index = e_Index e, e_Term = e_Term e, e_Type = e_Type e, e_Data = e_Data e\<rparr>) es = es"
  by (auto intro: map_idI)

lemma cloneEntries_id [simp]: "cloneEntries es = es"
  by (simp only: cloneEntries_def map_rebuild)

lemma take_cut_at: "take (cut_at i es) es = takeWhile (\<lambda>e. e_Index e < i) es"
  by (induction es) (auto simp: not_le)

lemma MemStorage_Save_eq:
  "MemStorage_Save hs es s
     = (s\<lparr>ms_hard := merge_hard (ms_hard s) hs, ms_entries := merge_log (ms_entries s) es\<rparr>, None)"
  by (simp add: MemStorage_Save_def Let_def take_cut_at merge_hard_def merge_log_def)

lemma dense_log_last:
  assumes "dense_log es" "es \<noteq> []"
  shows "unat (e_Index (last es)) = unat (e_Index (hd es)) + length es - 1"
    "unat (e_Index (last es)) + 1 < 2 ^ 64" "unat (e_Index (hd es)) \<ge> 1"
proof -
  let ?s = "unat (e_Index (hd es)) - 1"
  have c: "contiguous_from ?s es" and z: "e_Index (hd es) \<noteq> 0" and m: "e_Index (last es) \<noteq> max_u64"
    using assms by (auto simp: dense_log_def)
  show h: "unat (e_Index (hd es)) \<ge> 1" using z by (simp add: unat_gt_0 Suc_le_eq)
  have "unat (e_Index (es ! (length es - 1))) = ?s + 1 + (length es - 1)"
    using c assms(2) by (intro contiguous_from_nth) auto
  with h assms(2) show "unat (e_Index (last es)) = unat (e_Index (hd es)) + length es - 1"
    by (simp add: last_conv_nth Suc_leI)
  show "unat (e_Index (last es)) + 1 < 2 ^ 64" using m by (simp only: u64_neq_max_iff)
qed

lemma MemStorage_Entries_all:
  assumes "dense_log (ms_entries s)" "ms_entries s \<noteq> []"
  shows "MemStorage_Entries (MemStorage_FirstIndex s) (MemStorage_LastIndex s + 1) s = Some (Inr (ms_entries s))"
proof -
  let ?es = "ms_entries s"
  let ?f = "e_Index (hd ?es)" and ?l = "e_Index (last ?es)"
  note d = dense_log_last [OF assms]
  have len: "length ?es \<ge> 1" using assms(2) by (simp add: Suc_leI)
  have l1: "unat (?l + 1) = unat ?l + 1" using d(2) by (rule unat_u64_Suc)
  then have le: "?f \<le> ?l + 1" using d(1) len by (simp add: word_le_nat_alt)
  then have "unat (?l + 1 - ?f) = length ?es"
    using l1 d(1,3) len by (simp add: unat_sub)
  with assms(2) le show ?thesis
    by (simp add: MemStorage_Entries_def MemStorage_FirstIndex_def MemStorage_LastIndex_def firstLast_def Let_def not_less)
qed

interpretation mem: raft_storage "\<lambda>_. True" "\<lambda>_ _. True" ms_hard ms_entries MemStorage_Save MemStorage_HardState
  MemStorage_Entries MemStorage_FirstIndex MemStorage_LastIndex
proof unfold_locales
  fix s s' hs es
  assume "MemStorage_Save hs es s = (s', None)"
  then show "True \<and> ms_hard s' = merge_hard (ms_hard s) hs \<and> ms_entries s' = merge_log (ms_entries s) es"
    by (auto simp: MemStorage_Save_eq)
qed (simp_all add: MemStorage_HardState_def MemStorage_FirstIndex_def MemStorage_LastIndex_def
      MemStorage_Entries_all [unfolded MemStorage_FirstIndex_def MemStorage_LastIndex_def])

end
