(* ===== verification/Raft_Node_Props.thy ===== *)
theory Raft_Node_Props
  imports Raft_Node
begin

text \<open>
  Properties of one Raft node. The first part describes the effect of each internal method on
  the fields of the node as a record update; the second shows that the role invariant
  \<open>roles_ok\<close> is kept by every exported operation and that no operation panics under it.
\<close>

section \<open>Peers\<close>

lemma isPeer_iff:
  assumes "sorted (n_peers n)"
  shows "isPeer pid n \<longleftrightarrow> pid \<in> set (n_peers n)"
proof -
  let ?ps = "n_peers n"
  let ?f = "\<lambda>i. ?ps ! i \<ge> pid"
  let ?k = "sort_Search (length ?ps) ?f"
  have mono: "\<forall>a b. a \<le> b \<longrightarrow> b < length ?ps \<longrightarrow> ?f a \<longrightarrow> ?f b"
    using assms by (meson order_trans sorted_iff_nth_mono)
  note S = sort_Search_correct [of "length ?ps" ?f, OF mono]
  have "?k < length ?ps \<and> ?ps ! ?k = pid" if "pid \<in> set ?ps"
  proof -
    from that obtain i where i: "i < length ?ps" "?ps ! i = pid" by (auto simp: in_set_conv_nth)
    have k: "?k \<le> i" using S(2) [of i] i by (metis not_le order_refl)
    with i have "?k < length ?ps" by simp
    moreover from this have "?ps ! ?k \<ge> pid" using S(3) [of ?k] by simp
    moreover have "?ps ! ?k \<le> pid" using assms k i by (metis sorted_iff_nth_mono)
    ultimately show ?thesis by simp
  qed
  then show ?thesis unfolding isPeer_def Let_def by (auto simp: in_set_conv_nth)
qed

section \<open>Effects of the internal methods\<close>

text \<open>A message of the leader: an AppendEntries of the node's own identity and term.\<close>

definition ae_from :: "Node \<Rightarrow> Message \<Rightarrow> bool" where
  "ae_from n m \<longleftrightarrow> m_From m = node_id n \<and> m_Term m = node_term n
     \<and> (\<exists>req. m_Body m = AppendEntries req \<and> ae_Term req = node_term n \<and> ae_LeaderId req = node_id n)"

text \<open>
  The effect of sending: only the progress maps and the outbox change, and what is added to the
  outbox are AppendEntries requests of the node.
\<close>

definition ae_effect :: "Node \<Rightarrow> Node \<Rightarrow> bool" where
  "ae_effect n n' \<longleftrightarrow> (\<exists>X Y ms. n' = n\<lparr>n_nextIndex := Some X, n_inflight := Some Y,
     n_messages := n_messages n @ ms\<rparr> \<and> (\<forall>m \<in> set ms. ae_from n m))"

lemma ae_effectI:
  "n' = n\<lparr>n_nextIndex := Some X, n_inflight := Some Y, n_messages := n_messages n @ ms\<rparr>
   \<Longrightarrow> (\<And>m. m \<in> set ms \<Longrightarrow> ae_from n m) \<Longrightarrow> ae_effect n n'"
  unfolding ae_effect_def by blast

lemma ae_effect_trans: "ae_effect a b \<Longrightarrow> ae_effect b c \<Longrightarrow> ae_effect a c"
  unfolding ae_effect_def
proof (elim exE conjE)
  fix X Y ms X' Y' ms'
  assume b: "b = a\<lparr>n_nextIndex := Some X, n_inflight := Some Y, n_messages := n_messages a @ ms\<rparr>"
    and c: "c = b\<lparr>n_nextIndex := Some X', n_inflight := Some Y', n_messages := n_messages b @ ms'\<rparr>"
    and m: "\<forall>m \<in> set ms. ae_from a m" "\<forall>m \<in> set ms'. ae_from b m"
  have "c = a\<lparr>n_nextIndex := Some X', n_inflight := Some Y', n_messages := n_messages a @ (ms @ ms')\<rparr>"
    by (simp add: b c)
  moreover have "\<forall>m \<in> set (ms @ ms'). ae_from a m"
    using m by (auto simp: b ae_from_def)
  ultimately show "\<exists>X Y ms. c = a\<lparr>n_nextIndex := Some X, n_inflight := Some Y,
     n_messages := n_messages a @ ms\<rparr> \<and> (\<forall>m \<in> set ms. ae_from a m)" by blast
qed

lemma ae_effect_refl: "n_nextIndex n = Some f \<Longrightarrow> n_inflight n = Some g \<Longrightarrow> ae_effect n n"
  by (rule ae_effectI [where X = f and Y = g and ms = "[]"]) (cases n, simp_all)

lemma ae_effect_send:
  assumes "n_nextIndex n = Some f" "n_inflight n = Some g"
    and "ae_Term req = node_term n" "ae_LeaderId req = node_id n"
  shows "ae_effect n (send p (AppendEntries req) n)"
  by (rule ae_effectI [where X = f and Y = g
        and ms = "[\<lparr>m_From = node_id n, m_To = p, m_Term = node_term n, m_Body = AppendEntries req\<rparr>]"])
    (use assms in \<open>cases n, simp_all add: send_def ae_from_def\<close>)

lemma emitAppend_effect:
  "n_nextIndex n = Some f \<Longrightarrow> n_inflight n = Some g \<Longrightarrow> ae_effect n (emitAppend p pd n)"
  unfolding emitAppend_def Let_def by (rule ae_effect_send) simp_all

lemma sendAppend_effect:
  assumes "n_nextIndex n = Some f" "n_inflight n = Some g"
  shows "\<exists>n'. sendAppend p probe n = Some n' \<and> ae_effect n n'"
proof (cases "g p")
  case (Some pd)
  with assms show ?thesis by (auto simp: sendAppend_def ptr_get_def intro: emitAppend_effect)
next
  case None
  let ?nx = "sendAppend_next p n"
  let ?n1 = "n\<lparr>n_nextIndex := Some (f(p \<mapsto> ?nx))\<rparr>"
  have e1: "ae_effect n ?n1"
    by (rule ae_effectI [where X = "f(p \<mapsto> ?nx)" and Y = g and ms = "[]"]) (simp_all add: assms)
  show ?thesis
  proof (cases "log_term (n_log n) (?nx - 1)")
    case None
    with \<open>g p = None\<close> e1 assms show ?thesis
      by (simp add: sendAppend_def ptr_get_def set_nextIndex_def map_put_def Let_def)
  next
    case (Some pt)
    let ?pd = "sendAppend_pending ?nx pt probe ?n1"
    let ?n2 = "?n1\<lparr>n_inflight := Some (g(p \<mapsto> ?pd))\<rparr>"
    have e2: "ae_effect ?n1 ?n2"
      by (rule ae_effectI [where X = "f(p \<mapsto> ?nx)" and Y = "g(p \<mapsto> ?pd)" and ms = "[]"]) simp_all
    have "ae_effect ?n2 (emitAppend p ?pd ?n2)" by (rule emitAppend_effect) simp_all
    with e1 e2 have "ae_effect n (emitAppend p ?pd ?n2)" by (blast intro: ae_effect_trans)
    with \<open>g p = None\<close> Some assms show ?thesis
      by (simp add: sendAppend_def ptr_get_def set_nextIndex_def set_inflight_def map_put_def Let_def)
  qed
qed

lemma broadcast_effect:
  assumes "n_nextIndex n = Some f" "n_inflight n = Some g"
  shows "\<exists>n'. broadcast ps skip probe n = Some n' \<and> ae_effect n n'"
  using assms
proof (induction ps arbitrary: n f g)
  case Nil
  then have "ae_effect n n" by (rule ae_effect_refl)
  then show ?case by simp
next
  case (Cons p ps)
  show ?case
  proof (cases "p = node_id n \<or> skip p n")
    case True
    then show ?thesis using Cons.IH [OF Cons.prems] by simp
  next
    case False
    obtain n1 where s: "sendAppend p probe n = Some n1" "ae_effect n n1"
      using sendAppend_effect [OF Cons.prems] by blast
    from s(2) obtain f1 g1 where "n_nextIndex n1 = Some f1" "n_inflight n1 = Some g1"
      by (auto simp: ae_effect_def)
    then obtain n2 where b: "broadcast ps skip probe n1 = Some n2" "ae_effect n1 n2"
      using Cons.IH by blast
    from s(2) b(2) have "ae_effect n n2" by (rule ae_effect_trans)
    moreover have "broadcast (p # ps) skip probe n = Some n2" using False s(1) b(1) by simp
    ultimately show ?thesis by blast
  qed
qed

lemma advanceCommit_effect: "\<exists>c b. advanceCommit n = (n\<lparr>n_commitIndex := c\<rparr>, b)"
proof (cases "n_role n = leader")
  case False
  then have "advanceCommit n = (n\<lparr>n_commitIndex := n_commitIndex n\<rparr>, False)"
    by (simp add: advanceCommit_def)
  then show ?thesis by blast
next
  case True
  show ?thesis
  proof (cases "advanceCommit_loop n (lastIndex (n_log n))")
    case None
    with True have "advanceCommit n = (n\<lparr>n_commitIndex := n_commitIndex n\<rparr>, False)"
      by (simp add: advanceCommit_def)
    then show ?thesis by blast
  qed (use True in \<open>auto simp: advanceCommit_def\<close>)
qed

definition local_log :: "u32 \<Rightarrow> bytes \<Rightarrow> Node \<Rightarrow> raftLog" where
  "local_log typ data n = fst (appendLocal_log (n_log n) (node_term n) typ data)"

definition local_unstable :: "Node \<Rightarrow> u64" where
  "local_unstable n = min (n_unstableIndex n) (lastIndex (n_log n) + 1)"

lemma appendLocal_effect:
  assumes "n_nextIndex n = Some f" "n_matchIndex n = Some h"
  shows "appendLocal typ data n
    = Some (n\<lparr>n_log := local_log typ data n, n_unstableIndex := local_unstable n,
              n_matchIndex := Some (h(node_id n \<mapsto> lastIndex (n_log n) + 1)),
              n_nextIndex := Some (f(node_id n \<mapsto> lastIndex (n_log n) + 1 + 1))\<rparr>, lastIndex (n_log n) + 1)"
proof -
  obtain l' i where li: "appendLocal_log (n_log n) (node_term n) typ data = (l', i)" by fastforce
  then have l': "l' = local_log typ data n" and i: "i = lastIndex (n_log n) + 1"
    by (auto simp: local_log_def appendLocal_log_def Let_def)
  show ?thesis
  proof (cases "i < n_unstableIndex n")
    case True
    then have "local_unstable n = i" by (simp add: local_unstable_def i min_absorb2 less_imp_le)
    with True li assms show ?thesis
      by (simp add: appendLocal_def Let_def set_matchIndex_def set_nextIndex_def map_put_def l' i)
  next
    case False
    then have "local_unstable n = n_unstableIndex n"
      by (simp add: local_unstable_def i min_def not_less)
    with False li assms show ?thesis
      by (simp add: appendLocal_def Let_def set_matchIndex_def set_nextIndex_def map_put_def l' i)
  qed
qed

text \<open>The node right after it wins an election, before it announces itself.\<close>

definition leader_node :: "Node \<Rightarrow> u64 \<Rightarrow> (u64 \<rightharpoonup> u64) \<Rightarrow> (u64 \<rightharpoonup> u64) \<Rightarrow> Node" where
  "leader_node n c X Z = n\<lparr>n_role := leader, n_heartbeatElapsed := 0, n_votes := None,
      n_log := local_log NOOP [] n, n_unstableIndex := local_unstable n, n_commitIndex := c,
      n_nextIndex := Some X, n_matchIndex := Some Z, n_inflight := Some Map.empty\<rparr>"

lemma becomeLeader_effect:
  "\<exists>n' c X Z. becomeLeader n = Some n' \<and> ae_effect (leader_node n c X Z) n'"
proof -
  define n0 where "n0 = n\<lparr>n_role := leader, n_heartbeatElapsed := 0, n_votes := None,
      n_nextIndex := Some (\<lambda>p. if p \<in> set (n_peers n) then Some (lastIndex (n_log n) + 1) else None),
      n_matchIndex := Some (\<lambda>p. if p \<in> set (n_peers n) then Some 0 else None),
      n_inflight := Some Map.empty\<rparr>"
  obtain X Z where a: "appendLocal NOOP [] n0
    = Some (n0\<lparr>n_log := local_log NOOP [] n0, n_unstableIndex := local_unstable n0,
              n_matchIndex := Some Z, n_nextIndex := Some X\<rparr>, lastIndex (n_log n0) + 1)"
  proof -
    have "n_nextIndex n0 = Some (\<lambda>p. if p \<in> set (n_peers n) then Some (lastIndex (n_log n) + 1) else None)"
      "n_matchIndex n0 = Some (\<lambda>p. if p \<in> set (n_peers n) then Some 0 else None)"
      by (simp_all add: n0_def)
    from appendLocal_effect [OF this, of NOOP "[]"] show ?thesis using that by blast
  qed
  define n1 where "n1 = n0\<lparr>n_log := local_log NOOP [] n0, n_unstableIndex := local_unstable n0,
              n_matchIndex := Some Z, n_nextIndex := Some X\<rparr>"
  obtain c b where c: "advanceCommit n1 = (n1\<lparr>n_commitIndex := c\<rparr>, b)"
    using advanceCommit_effect by blast
  have eq: "n1\<lparr>n_commitIndex := c\<rparr> = leader_node n c X Z"
    by (simp add: n1_def n0_def leader_node_def local_log_def local_unstable_def)
  obtain n' where d: "broadcastAppend True (leader_node n c X Z) = Some n'"
      "ae_effect (leader_node n c X Z) n'"
  proof -
    have "n_nextIndex (leader_node n c X Z) = Some X" "n_inflight (leader_node n c X Z) = Some Map.empty"
      by (simp_all add: leader_node_def)
    from broadcast_effect [OF this] show ?thesis using that unfolding broadcastAppend_def by blast
  qed
  have "becomeLeader n = Some n'"
    using a c d(1) by (simp add: becomeLeader_def Let_def n0_def [symmetric] n1_def [symmetric] eq)
  with d(2) show ?thesis by blast
qed

section \<open>The role invariant\<close>

text \<open>
  What the role of a node says about its other fields. The first line is the contract of
  \<open>Config.Peers\<close> (ordered full membership, the node itself included, no node with ID 0, which
  would be read as "no vote").
\<close>

definition roles_ok :: "Node \<Rightarrow> bool" where
  "roles_ok n \<longleftrightarrow>
     sorted (n_peers n) \<and> distinct (n_peers n) \<and> node_id n \<in> set (n_peers n) \<and> node_id n \<noteq> 0
     \<and> (n_role n = leader \<longrightarrow> n_nextIndex n \<noteq> None \<and> n_matchIndex n \<noteq> None \<and> n_inflight n \<noteq> None)
     \<and> (n_role n = candidate \<longrightarrow> (\<exists>vs. n_votes n = Some vs \<and> vs \<subseteq> set (n_peers n)))
     \<and> (n_role n \<noteq> follower \<longrightarrow> hs_VotedFor (n_hardState n) = node_id n)"

text \<open>How the durable part of a node may move: the term never decreases, and within a term a vote
  is given at most once.\<close>

definition hs_step :: "HardState \<Rightarrow> HardState \<Rightarrow> bool" where
  "hs_step hs hs' \<longleftrightarrow> hs_Term hs < hs_Term hs'
     \<or> hs_Term hs' = hs_Term hs \<and> (hs_VotedFor hs' = hs_VotedFor hs \<or> hs_VotedFor hs = 0)"

text \<open>What a node may put into its outbox, in terms of its state afterwards.\<close>

definition out_ok :: "Node \<Rightarrow> Message \<Rightarrow> bool" where
  "out_ok n m \<longleftrightarrow> m_From m = node_id n \<and> m_Term m = node_term n \<and>
     (case m_Body m of
        RequestVote r \<Rightarrow> rv_Term r = node_term n \<and> rv_CandidateId r = node_id n
      | RequestVoteReply r \<Rightarrow> rvr_Term r = node_term n
          \<and> (rvr_VoteGranted r \<longrightarrow> hs_VotedFor (n_hardState n) = m_To m)
      | AppendEntries r \<Rightarrow> ae_Term r = node_term n \<and> ae_LeaderId r = node_id n \<and> n_role n = leader
      | AppendEntriesReply r \<Rightarrow> aer_Term r = node_term n
      | _ \<Rightarrow> False)"

definition node_step :: "Node \<Rightarrow> Node \<Rightarrow> bool" where
  "node_step n n' \<longleftrightarrow> roles_ok n' \<and> n_config n' = n_config n \<and> n_peers n' = n_peers n
     \<and> hs_step (n_hardState n) (n_hardState n')
     \<and> (n_hardState n' = n_hardState n \<and> n_hardStateDirty n' = n_hardStateDirty n \<or> n_hardStateDirty n')
     \<and> (\<exists>ms. n_messages n' = n_messages n @ ms \<and> (\<forall>m \<in> set ms. out_ok n' m))"

text \<open>A message as the nodes of this program send them: a vote request names its sender.\<close>

definition honest :: "Message \<Rightarrow> bool" where
  "honest m \<longleftrightarrow> (\<forall>r. m_Body m = RequestVote r \<longrightarrow> rv_CandidateId r = m_From m)"

lemma hs_step_refl [simp]: "hs_step hs hs"
  by (simp add: hs_step_def)

lemma hs_step_trans: "hs_step a b \<Longrightarrow> hs_step b c \<Longrightarrow> hs_step a c"
  by (auto simp: hs_step_def)

lemma node_stepI:
  assumes "roles_ok n'" "n_config n' = n_config n" "n_peers n' = n_peers n"
    and "hs_step (n_hardState n) (n_hardState n')"
    and "n_hardState n' = n_hardState n \<and> n_hardStateDirty n' = n_hardStateDirty n \<or> n_hardStateDirty n'"
    and "n_messages n' = n_messages n @ ms" "\<And>m. m \<in> set ms \<Longrightarrow> out_ok n' m"
  shows "node_step n n'"
  using assms unfolding node_step_def by blast

lemma node_step_roles: "node_step n n' \<Longrightarrow> roles_ok n'"
  by (simp add: node_step_def)

lemma node_step_silent_trans:
  assumes "n_messages b = n_messages a" "node_step a b" "node_step b c"
  shows "node_step a c"
  using assms unfolding node_step_def by (auto intro: hs_step_trans)

lemma node_step_refl: "roles_ok n \<Longrightarrow> node_step n n"
  by (rule node_stepI [where ms = "[]"]) auto

lemma resetElectionTimeout_fields [simp]:
  "n_config (resetElectionTimeout n) = n_config n" "n_peers (resetElectionTimeout n) = n_peers n"
  "n_hardState (resetElectionTimeout n) = n_hardState n" "n_role (resetElectionTimeout n) = n_role n"
  "n_votes (resetElectionTimeout n) = n_votes n" "n_log (resetElectionTimeout n) = n_log n"
  "n_unstableIndex (resetElectionTimeout n) = n_unstableIndex n"
  "n_commitIndex (resetElectionTimeout n) = n_commitIndex n"
  "n_lastApplied (resetElectionTimeout n) = n_lastApplied n"
  "n_nextIndex (resetElectionTimeout n) = n_nextIndex n"
  "n_matchIndex (resetElectionTimeout n) = n_matchIndex n"
  "n_inflight (resetElectionTimeout n) = n_inflight n"
  "n_hardStateDirty (resetElectionTimeout n) = n_hardStateDirty n"
  "n_messages (resetElectionTimeout n) = n_messages n"
  "n_readyAck (resetElectionTimeout n) = n_readyAck n"
  "n_heartbeatElapsed (resetElectionTimeout n) = n_heartbeatElapsed n"
  by (simp_all add: resetElectionTimeout_def Let_def split: option.splits)

lemma ae_effect_fields:
  assumes "ae_effect n n'"
  shows "n_config n' = n_config n" "n_peers n' = n_peers n" "n_hardState n' = n_hardState n"
    "n_role n' = n_role n" "n_votes n' = n_votes n" "n_log n' = n_log n"
    "n_unstableIndex n' = n_unstableIndex n" "n_commitIndex n' = n_commitIndex n"
    "n_lastApplied n' = n_lastApplied n" "n_matchIndex n' = n_matchIndex n"
    "n_hardStateDirty n' = n_hardStateDirty n" "n_readyAck n' = n_readyAck n"
    "n_nextIndex n' \<noteq> None" "n_inflight n' \<noteq> None"
  using assms by (auto simp: ae_effect_def)

lemma ae_effect_step:
  assumes "ae_effect n n'" "roles_ok n" "n_role n = leader"
  shows "node_step n n'"
proof -
  from assms(1) obtain X Y ms where n': "n' = n\<lparr>n_nextIndex := Some X, n_inflight := Some Y,
     n_messages := n_messages n @ ms\<rparr>" and ms: "\<forall>m \<in> set ms. ae_from n m"
    by (auto simp: ae_effect_def)
  show ?thesis
  proof (rule node_stepI [where ms = ms])
    show "roles_ok n'" using assms(2,3) by (simp add: n' roles_ok_def)
    show "out_ok n' m" if "m \<in> set ms" for m
      using ms that assms(3) by (auto simp: n' ae_from_def out_ok_def)
  qed (simp_all add: n')
qed

lemma becomeFollower_fields [simp]:
  "n_config (becomeFollower t n) = n_config n" "n_peers (becomeFollower t n) = n_peers n"
  "n_role (becomeFollower t n) = follower" "n_messages (becomeFollower t n) = n_messages n"
  "n_hardState (becomeFollower t n)
     = (if t = node_term n then n_hardState n else \<lparr>hs_Term = t, hs_VotedFor = 0\<rparr>)"
  "n_hardStateDirty (becomeFollower t n) = (t \<noteq> node_term n \<or> n_hardStateDirty n)"
  "n_log (becomeFollower t n) = n_log n" "n_commitIndex (becomeFollower t n) = n_commitIndex n"
  "n_unstableIndex (becomeFollower t n) = n_unstableIndex n"
  "n_lastApplied (becomeFollower t n) = n_lastApplied n"
  "n_readyAck (becomeFollower t n) = n_readyAck n"
  by (simp_all add: becomeFollower_def Let_def)

lemma becomeFollower_step:
  assumes "roles_ok n" "t > node_term n"
  shows "node_step n (becomeFollower t n)"
proof (rule node_stepI [where ms = "[]"])
  show "roles_ok (becomeFollower t n)" using assms by (auto simp: roles_ok_def)
  show "hs_step (n_hardState n) (n_hardState (becomeFollower t n))"
    using assms(2) by (simp add: hs_step_def)
qed (use assms in auto)

lemma becomeLeader_step:
  assumes "roles_ok n" "n_role n = candidate"
  shows "\<exists>n'. becomeLeader n = Some n' \<and> node_step n n' \<and> n_role n' = leader"
proof -
  obtain n' c X Z where e: "becomeLeader n = Some n'" "ae_effect (leader_node n c X Z) n'"
    using becomeLeader_effect by blast
  let ?l = "leader_node n c X Z"
  have r: "roles_ok ?l" "n_role ?l = leader" "n_messages ?l = n_messages n"
    using assms by (auto simp: roles_ok_def leader_node_def)
  have "node_step n ?l"
    by (rule node_stepI [where ms = "[]"]) (use r in \<open>simp_all add: leader_node_def\<close>)
  moreover have "node_step ?l n'" using e(2) r by (intro ae_effect_step) auto
  ultimately have "node_step n n'" using r(3) by (intro node_step_silent_trans [of ?l n n'])
  moreover have "n_role n' = leader" using ae_effect_fields(4) [OF e(2)] r(2) by simp
  ultimately show ?thesis using e(1) by blast
qed

section \<open>Every exported operation keeps the role invariant and does not panic\<close>

lemma send_fields [simp]:
  "n_config (send p b n) = n_config n" "n_peers (send p b n) = n_peers n"
  "n_hardState (send p b n) = n_hardState n" "n_role (send p b n) = n_role n"
  "n_votes (send p b n) = n_votes n" "n_log (send p b n) = n_log n"
  "n_unstableIndex (send p b n) = n_unstableIndex n" "n_commitIndex (send p b n) = n_commitIndex n"
  "n_lastApplied (send p b n) = n_lastApplied n" "n_nextIndex (send p b n) = n_nextIndex n"
  "n_matchIndex (send p b n) = n_matchIndex n" "n_inflight (send p b n) = n_inflight n"
  "n_hardStateDirty (send p b n) = n_hardStateDirty n" "n_readyAck (send p b n) = n_readyAck n"
  "n_messages (send p b n) = n_messages n
     @ [\<lparr>m_From = node_id n, m_To = p, m_Term = node_term n, m_Body = b\<rparr>]"
  by (simp_all add: send_def)

lemma roles_ok_send [simp]: "roles_ok (send p b n) = roles_ok n"
  by (simp add: roles_ok_def)

lemma out_ok_send [simp]: "out_ok (send p b n) m = out_ok n m"
  by (cases "m_Body m") (simp_all add: out_ok_def)

lemma node_step_send:
  assumes "roles_ok n1" "n_config n1 = n_config n" "n_peers n1 = n_peers n"
    and "hs_step (n_hardState n) (n_hardState n1)"
    and "n_hardState n1 = n_hardState n \<and> n_hardStateDirty n1 = n_hardStateDirty n \<or> n_hardStateDirty n1"
    and "n_messages n1 = n_messages n"
    and "out_ok n1 \<lparr>m_From = node_id n1, m_To = p, m_Term = node_term n1, m_Body = b\<rparr>"
  shows "node_step n (send p b n1)"
  by (rule node_stepI [where ms = "[\<lparr>m_From = node_id n1, m_To = p, m_Term = node_term n1, m_Body = b\<rparr>]"])
    (use assms in simp_all)

lemma handleRequestVote_step:
  assumes "roles_ok n" "rv_CandidateId req = m_From m"
  shows "node_step n (handleRequestVote m req n)"
proof (cases "(hs_VotedFor (n_hardState n) = 0 \<or> hs_VotedFor (n_hardState n) = rv_CandidateId req)
    \<and> candidateLogIsUpToDate (rv_LastLogIndex req) (rv_LastLogTerm req) n")
  case True
  show ?thesis
  proof (cases "hs_VotedFor (n_hardState n) = 0")
    case v0: True
    let ?n1 = "n\<lparr>n_hardState := (n_hardState n)\<lparr>hs_VotedFor := rv_CandidateId req\<rparr>,
                 n_hardStateDirty := True, n_electionElapsed := 0\<rparr>"
    have h: "handleRequestVote m req n = sendRequestVoteResponse (m_From m) True ?n1"
      using True v0 by (simp add: handleRequestVote_def Let_def)
    have "n_role n = follower" using assms(1) v0 by (auto simp: roles_ok_def)
    then have "roles_ok ?n1" using assms(1) by (simp add: roles_ok_def)
    then show ?thesis
      unfolding h sendRequestVoteResponse_def
      by (rule node_step_send) (use v0 assms(2) in \<open>simp_all add: hs_step_def out_ok_def\<close>)
  next
    case v1: False
    let ?n1 = "n\<lparr>n_electionElapsed := 0\<rparr>"
    have h: "handleRequestVote m req n = sendRequestVoteResponse (m_From m) True ?n1"
      using True v1 by (simp add: handleRequestVote_def Let_def)
    have "roles_ok ?n1" using assms(1) by (simp add: roles_ok_def)
    then show ?thesis
      unfolding h sendRequestVoteResponse_def
      by (rule node_step_send) (use v1 True assms(2) in \<open>simp_all add: out_ok_def\<close>)
  qed
next
  case False
  then have h: "handleRequestVote m req n = sendRequestVoteResponse (m_From m) False n"
    by (auto simp: handleRequestVote_def Let_def)
  show ?thesis
    unfolding h sendRequestVoteResponse_def
    by (rule node_step_send) (use assms in \<open>simp_all add: out_ok_def\<close>)
qed

lemma handleRequestVoteResponse_step:
  assumes "roles_ok n"
  shows "\<exists>n'. handleRequestVoteResponse m resp n = Some n' \<and> node_step n n'"
proof (cases "n_role n \<noteq> candidate \<or> \<not> rvr_VoteGranted resp \<or> \<not> isPeer (m_From m) n")
  case True
  then show ?thesis using assms by (auto simp: handleRequestVoteResponse_def intro: node_step_refl)
next
  case False
  then obtain vs where vs: "n_votes n = Some vs" "vs \<subseteq> set (n_peers n)" "n_role n = candidate"
    "m_From m \<in> set (n_peers n)"
    using assms by (auto simp: roles_ok_def isPeer_iff)
  let ?n1 = "n\<lparr>n_votes := Some (insert (m_From m) vs)\<rparr>"
  have r: "roles_ok ?n1" using assms vs by (auto simp: roles_ok_def)
  have s: "node_step n ?n1" by (rule node_stepI [where ms = "[]"]) (use r in simp_all)
  have h: "handleRequestVoteResponse m resp n = (if hasMajority ?n1 then becomeLeader ?n1 else Some ?n1)"
    using False vs(1) by (simp add: handleRequestVoteResponse_def Let_def)
  obtain n' where n': "becomeLeader ?n1 = Some n'" "node_step ?n1 n'"
    using becomeLeader_step [OF r] vs(3) by auto
  have "node_step n n'" by (rule node_step_silent_trans [OF _ s n'(2)]) simp
  with h n' s show ?thesis by auto
qed

lemma becomeFollowerSameTerm_fields [simp]:
  "n_config (becomeFollowerSameTerm n) = n_config n" "n_peers (becomeFollowerSameTerm n) = n_peers n"
  "n_role (becomeFollowerSameTerm n) = follower" "n_messages (becomeFollowerSameTerm n) = n_messages n"
  "n_hardState (becomeFollowerSameTerm n) = n_hardState n"
  "n_hardStateDirty (becomeFollowerSameTerm n) = n_hardStateDirty n"
  "n_log (becomeFollowerSameTerm n) = n_log n"
  "n_commitIndex (becomeFollowerSameTerm n) = n_commitIndex n"
  "n_unstableIndex (becomeFollowerSameTerm n) = n_unstableIndex n"
  "n_lastApplied (becomeFollowerSameTerm n) = n_lastApplied n"
  "n_readyAck (becomeFollowerSameTerm n) = n_readyAck n"
  by (simp_all add: becomeFollowerSameTerm_def)

text \<open>The shape of the follower's reaction: a reset timer, possibly a new log, unstable index and
  commit index, and one reply.\<close>

lemma handleAppendEntries_effect:
  "\<exists>n1 l u c ok i. n_role n1 = follower \<and> n_config n1 = n_config n \<and> n_peers n1 = n_peers n
     \<and> n_hardState n1 = n_hardState n \<and> n_hardStateDirty n1 = n_hardStateDirty n
     \<and> n_messages n1 = n_messages n
     \<and> handleAppendEntries m req n
       = sendAppendEntriesResponse (m_From m) ok i (n1\<lparr>n_log := l, n_unstableIndex := u, n_commitIndex := c\<rparr>)"
proof -
  define n1 where "n1 = (if n_role n \<noteq> follower then becomeFollowerSameTerm n else n)\<lparr>n_electionElapsed := 0\<rparr>"
  have f: "n_role n1 = follower" "n_config n1 = n_config n" "n_peers n1 = n_peers n"
     "n_hardState n1 = n_hardState n" "n_hardStateDirty n1 = n_hardStateDirty n" "n_messages n1 = n_messages n"
    by (simp_all add: n1_def)
  have triv: "n1 = n1\<lparr>n_log := n_log n1, n_unstableIndex := n_unstableIndex n1, n_commitIndex := n_commitIndex n1\<rparr>"
    by simp
  show ?thesis
  proof (cases "appendRequestLastIndex req")
    case None
    then have "handleAppendEntries m req n = sendAppendEntriesResponse (m_From m) False 0 n1"
      by (simp add: handleAppendEntries_def Let_def n1_def)
    with f triv show ?thesis by metis
  next
    case (Some rl)
    show ?thesis
    proof (cases "log_matches (n_log n1) (ae_PrevLogIndex req) (ae_PrevLogTerm req)")
      case False
      with Some have "handleAppendEntries m req n = sendAppendEntriesResponse (m_From m) False 0 n1"
        by (simp add: handleAppendEntries_def Let_def n1_def)
      with f triv show ?thesis by metis
    next
      case True
      obtain l' ch where ac: "appendFromLeader (n_log n1) (ae_Entries req) = (l', ch)" by fastforce
      have "handleAppendEntries m req n = sendAppendEntriesResponse (m_From m) True rl
        (n1\<lparr>n_log := l',
            n_unstableIndex := (if ch \<noteq> 0 \<and> ch < n_unstableIndex n1 then ch else n_unstableIndex n1),
            n_commitIndex := (if ae_LeaderCommit req > n_commitIndex n1
               then min (ae_LeaderCommit req) rl else n_commitIndex n1)\<rparr>)"
        using Some True ac unfolding n1_def
        by (simp add: handleAppendEntries_def Let_def)
      with f show ?thesis by blast
    qed
  qed
qed

lemma handleAppendEntries_step:
  assumes "roles_ok n"
  shows "node_step n (handleAppendEntries m req n)" "n_role (handleAppendEntries m req n) = follower"
proof -
  obtain n1 l u c ok i where f: "n_role n1 = follower" "n_config n1 = n_config n" "n_peers n1 = n_peers n"
     "n_hardState n1 = n_hardState n" "n_hardStateDirty n1 = n_hardStateDirty n" "n_messages n1 = n_messages n"
     and h: "handleAppendEntries m req n
       = sendAppendEntriesResponse (m_From m) ok i (n1\<lparr>n_log := l, n_unstableIndex := u, n_commitIndex := c\<rparr>)"
    using handleAppendEntries_effect by blast
  have "roles_ok (n1\<lparr>n_log := l, n_unstableIndex := u, n_commitIndex := c\<rparr>)"
    using assms f by (simp add: roles_ok_def)
  then show "node_step n (handleAppendEntries m req n)"
    unfolding h sendAppendEntriesResponse_def
    by (rule node_step_send) (use f in \<open>simp_all add: out_ok_def\<close>)
  show "n_role (handleAppendEntries m req n) = follower"
    unfolding h sendAppendEntriesResponse_def using f by simp
qed

lemma set_fields:
  "set_nextIndex p v n = (case n_nextIndex n of None \<Rightarrow> None | Some f \<Rightarrow> Some (n\<lparr>n_nextIndex := Some (f(p \<mapsto> v))\<rparr>))"
  "set_matchIndex p v n = (case n_matchIndex n of None \<Rightarrow> None | Some f \<Rightarrow> Some (n\<lparr>n_matchIndex := Some (f(p \<mapsto> v))\<rparr>))"
  "set_inflight p w n = (case n_inflight n of None \<Rightarrow> None | Some f \<Rightarrow> Some (n\<lparr>n_inflight := Some (f(p := w))\<rparr>))"
  by (simp_all add: set_nextIndex_def set_matchIndex_def set_inflight_def map_put_def split: option.splits)

text \<open>Bookkeeping of a leader: only the progress maps and the commit index change.\<close>

definition progress_effect :: "Node \<Rightarrow> Node \<Rightarrow> bool" where
  "progress_effect n n' \<longleftrightarrow> (\<exists>X Y Z c. n' = n\<lparr>n_nextIndex := Some X, n_matchIndex := Some Z,
     n_inflight := Some Y, n_commitIndex := c\<rparr>)"

lemma progress_effect_step:
  assumes "progress_effect n n'" "roles_ok n"
  shows "node_step n n'" "n_role n' = n_role n" "n_messages n' = n_messages n" "n_config n' = n_config n"
    "n_hardState n' = n_hardState n" "\<exists>X. n_nextIndex n' = Some X" "\<exists>Y. n_inflight n' = Some Y"
proof -
  obtain X Y Z c where n': "n' = n\<lparr>n_nextIndex := Some X, n_matchIndex := Some Z,
     n_inflight := Some Y, n_commitIndex := c\<rparr>"
    using assms(1) by (auto simp: progress_effect_def)
  show "node_step n n'"
    by (rule node_stepI [where ms = "[]"]) (use assms(2) in \<open>simp_all add: n' roles_ok_def\<close>)
qed (use assms(1) in \<open>auto simp: progress_effect_def\<close>)

lemma sendAppend_step:
  assumes "roles_ok n" "progress_effect n n1" "n_role n = leader"
  shows "\<exists>n'. sendAppend p probe n1 = Some n' \<and> node_step n n' \<and> n_role n' = leader \<and> n_hardState n' = n_hardState n"
proof -
  note P = progress_effect_step [OF assms(2,1)]
  obtain X Y where "n_nextIndex n1 = Some X" "n_inflight n1 = Some Y" using P(6,7) by blast
  then obtain n' where n': "sendAppend p probe n1 = Some n'" "ae_effect n1 n'"
    using sendAppend_effect by blast
  have "roles_ok n1" using P(1) by (simp add: node_step_def)
  then have "node_step n1 n'" using n'(2) assms(3) P(2) by (intro ae_effect_step) auto
  with P have "node_step n n'" by (intro node_step_silent_trans [of n1 n n'])
  moreover have "n_role n' = leader" "n_hardState n' = n_hardState n"
    using ae_effect_fields(3,4) [OF n'(2)] P(2,5) assms(3) by simp_all
  ultimately show ?thesis using n'(1) by blast
qed

lemma progress_effectI:
  "n' = n\<lparr>n_nextIndex := Some X, n_matchIndex := Some Z, n_inflight := Some Y, n_commitIndex := c\<rparr>
   \<Longrightarrow> progress_effect n n'"
  unfolding progress_effect_def by blast

lemma handleAppendEntriesResponse_accept:
  assumes "n_role n = leader" "isPeer (m_From m) n" "m_From m \<noteq> node_id n"
    and maps: "n_nextIndex n = Some f" "n_matchIndex n = Some h" "n_inflight n = Some g" "g (m_From m) = Some pd"
    and "aer_Success resp" "aer_MatchIndex resp = if_lastIndex pd"
    "\<not> aer_MatchIndex resp < map_get (Some h) (m_From m)"
    "\<not> aer_MatchIndex resp > lastIndex (n_log n)" "aer_MatchIndex resp \<noteq> max_u64"
  defines "h2 \<equiv> (if aer_MatchIndex resp > map_get (Some h) (m_From m) then h(m_From m \<mapsto> aer_MatchIndex resp) else h)"
  shows "handleAppendEntriesResponse m resp n =
    (let (n', b) = advanceCommit (n\<lparr>n_inflight := Some (g(m_From m := None)), n_matchIndex := Some h2,
                                   n_nextIndex := Some (f(m_From m \<mapsto> map_get (Some h2) (m_From m) + 1))\<rparr>)
     in if map_get (n_nextIndex n') (m_From m) \<le> lastIndex (n_log n') \<or> b
        then sendAppend (m_From m) False n' else Some n')"
proof -
  have noop: "n\<lparr>n_inflight := X, n_matchIndex := Some h, n_nextIndex := Y\<rparr> = n\<lparr>n_inflight := X, n_nextIndex := Y\<rparr>" for X Y
    using maps by (cases n) simp
  from assms(1-12) show ?thesis
    by (auto simp: noop h2_def handleAppendEntriesResponse_def Let_def ptr_get_def set_fields)
qed

lemma handleAppendEntriesResponse_reject:
  assumes "n_role n = leader" "isPeer (m_From m) n" "m_From m \<noteq> node_id n"
    and maps: "n_nextIndex n = Some f" "n_matchIndex n = Some h" "n_inflight n = Some g" "g (m_From m) = Some pd"
    and "\<not> aer_Success resp"
  defines "rf \<equiv> (if map_get (Some h) (m_From m) \<noteq> max_u64 \<and> map_get (Some h) (m_From m) + 1 > firstIndex (n_log n)
                  then map_get (Some h) (m_From m) + 1 else firstIndex (n_log n))"
  shows "handleAppendEntriesResponse m resp n = sendAppend (m_From m) False
    (n\<lparr>n_inflight := Some (g(m_From m := None)),
       n_nextIndex := Some (if map_get (Some f) (m_From m) > rf
                            then f(m_From m \<mapsto> map_get (Some f) (m_From m) - 1) else f)\<rparr>)"
proof -
  have noop: "n\<lparr>n_inflight := X, n_nextIndex := Some f\<rparr> = n\<lparr>n_inflight := X\<rparr>" for X
    using maps by (cases n) simp
  from assms(1-8) show ?thesis
    by (auto simp: noop rf_def handleAppendEntriesResponse_def Let_def ptr_get_def set_fields)
qed

lemma handleAppendEntriesResponse_step:
  assumes "roles_ok n"
  shows "\<exists>n'. handleAppendEntriesResponse m resp n = Some n' \<and> node_step n n' \<and> n_role n' = n_role n
    \<and> n_hardState n' = n_hardState n \<and> (n_role n \<noteq> leader \<longrightarrow> n' = n)"
proof (cases "n_role n \<noteq> leader \<or> \<not> isPeer (m_From m) n \<or> m_From m = node_id n
    \<or> ptr_get (n_inflight n) (m_From m) = None")
  case True
  then have "handleAppendEntriesResponse m resp n = Some n"
    by (auto simp: handleAppendEntriesResponse_def Let_def)
  with assms show ?thesis by (auto intro: node_step_refl)
next
  case False
  let ?p = "m_From m"
  from False assms obtain f h g pd where maps: "n_nextIndex n = Some f" "n_matchIndex n = Some h"
      "n_inflight n = Some g" "g ?p = Some pd" and lead: "n_role n = leader"
    by (auto simp: roles_ok_def ptr_get_def)
  note unf = handleAppendEntriesResponse_def Let_def
  show ?thesis
  proof (cases "aer_Success resp")
    case ok: True
    let ?a = "aer_MatchIndex resp"
    show ?thesis
    proof (cases "?a \<noteq> if_lastIndex pd \<or> ?a < map_get (n_matchIndex n) ?p
        \<or> ?a > lastIndex (n_log n) \<or> ?a = max_u64")
      case True
      with False ok maps have "handleAppendEntriesResponse m resp n = Some n"
        by (auto simp: unf ptr_get_def)
      with assms show ?thesis by (auto intro: node_step_refl)
    next
      case acc: False
      define h2 where "h2 = (if ?a > map_get (Some h) ?p then h(?p \<mapsto> ?a) else h)"
      define f3 where "f3 = f(?p \<mapsto> map_get (Some h2) ?p + 1)"
      define n3 where "n3 = n\<lparr>n_inflight := Some (g(?p := None)), n_matchIndex := Some h2, n_nextIndex := Some f3\<rparr>"
      obtain c b where cb: "advanceCommit n3 = (n3\<lparr>n_commitIndex := c\<rparr>, b)"
        using advanceCommit_effect by blast
      define n4 where "n4 = n3\<lparr>n_commitIndex := c\<rparr>"
      have pe: "progress_effect n n4"
        by (rule progress_effectI [where X = f3 and Y = "g(?p := None)" and Z = h2 and c = c])
          (simp add: n4_def n3_def)
      have "handleAppendEntriesResponse m resp n
          = (if map_get (n_nextIndex n4) ?p \<le> lastIndex (n_log n4) \<or> b then sendAppend ?p False n4 else Some n4)"
        using handleAppendEntriesResponse_accept [OF lead _ _ maps ok] False acc maps cb
        by (simp add: n3_def f3_def n4_def h2_def)
      moreover obtain n' where "sendAppend ?p False n4 = Some n'" "node_step n n'" "n_role n' = leader"
          "n_hardState n' = n_hardState n"
        using sendAppend_step [OF assms pe lead] by blast
      ultimately show ?thesis using progress_effect_step [OF pe assms] lead by auto
    qed
  next
    case rej: False
    define n2 where "n2 X = n\<lparr>n_inflight := Some (g(?p := None)), n_nextIndex := Some X\<rparr>" for X
    have pe: "progress_effect n (n2 X)" for X
      by (rule progress_effectI [where X = X and Y = "g(?p := None)" and Z = h and c = "n_commitIndex n"])
        (use maps in \<open>cases n, simp add: n2_def\<close>)
    obtain X where "handleAppendEntriesResponse m resp n = sendAppend ?p False (n2 X)"
      using handleAppendEntriesResponse_reject [OF lead _ _ maps rej] False unfolding n2_def by blast
    then show ?thesis using sendAppend_step [OF assms pe lead] lead by auto
  qed
qed

lemma sendRequestVotes_fields [simp]:
  "n_config (sendRequestVotes ps n) = n_config n" "n_peers (sendRequestVotes ps n) = n_peers n"
  "n_hardState (sendRequestVotes ps n) = n_hardState n" "n_role (sendRequestVotes ps n) = n_role n"
  "n_votes (sendRequestVotes ps n) = n_votes n" "n_log (sendRequestVotes ps n) = n_log n"
  "n_hardStateDirty (sendRequestVotes ps n) = n_hardStateDirty n"
  "n_unstableIndex (sendRequestVotes ps n) = n_unstableIndex n"
  "n_commitIndex (sendRequestVotes ps n) = n_commitIndex n"
  "n_lastApplied (sendRequestVotes ps n) = n_lastApplied n"
  "n_readyAck (sendRequestVotes ps n) = n_readyAck n"
  by (induction ps arbitrary: n) simp_all

lemma roles_ok_sendRequestVotes [simp]: "roles_ok n \<Longrightarrow> roles_ok (sendRequestVotes ps n)"
  by (induction ps arbitrary: n) simp_all

lemma node_step_sendRequestVotes:
  "roles_ok n \<Longrightarrow> \<exists>ms. n_messages (sendRequestVotes ps n) = n_messages n @ ms \<and> (\<forall>m \<in> set ms. out_ok n m)"
proof (induction ps arbitrary: n)
  case (Cons p ps)
  show ?case
  proof (cases "p = node_id n")
    case False
    let ?b = "RequestVote \<lparr>rv_Term = node_term n, rv_CandidateId = node_id n,
           rv_LastLogIndex = lastIndex (n_log n), rv_LastLogTerm = lastTerm (n_log n)\<rparr>"
    obtain ms where "n_messages (sendRequestVotes ps (send p ?b n)) = n_messages (send p ?b n) @ ms"
      "\<forall>m \<in> set ms. out_ok n m"
      using Cons.IH [of "send p ?b n"] Cons.prems by auto
    then show ?thesis using False
      by (intro exI [of _ "\<lparr>m_From = node_id n, m_To = p, m_Term = node_term n, m_Body = ?b\<rparr> # ms"])
        (simp add: out_ok_def)
  qed (use Cons in simp)
qed simp

text \<open>The candidate right after the term was raised, before it asks for votes.\<close>

definition candidate_node :: "Node \<Rightarrow> Node" where
  "candidate_node n = resetElectionTimeout (n\<lparr>n_hardState := \<lparr>hs_Term = node_term n + 1, hs_VotedFor = node_id n\<rparr>,
       n_hardStateDirty := True, n_role := candidate, n_heartbeatElapsed := 0, n_votes := Some {node_id n}\<rparr>)"

lemma startElection_eq:
  "startElection n = (if hasMajority (candidate_node n) then becomeLeader (candidate_node n)
     else Some (sendRequestVotes (n_peers n) (candidate_node n)))"
  by (simp add: startElection_def candidate_node_def Let_def)

lemma candidate_node_fields [simp]:
  "n_config (candidate_node n) = n_config n" "n_peers (candidate_node n) = n_peers n"
  "n_hardState (candidate_node n) = \<lparr>hs_Term = node_term n + 1, hs_VotedFor = node_id n\<rparr>"
  "n_hardStateDirty (candidate_node n)" "n_role (candidate_node n) = candidate"
  "n_votes (candidate_node n) = Some {node_id n}" "n_log (candidate_node n) = n_log n"
  "n_messages (candidate_node n) = n_messages n"
  "n_unstableIndex (candidate_node n) = n_unstableIndex n"
  "n_commitIndex (candidate_node n) = n_commitIndex n"
  "n_lastApplied (candidate_node n) = n_lastApplied n"
  by (simp_all add: candidate_node_def)

lemma candidate_node_step:
  assumes "roles_ok n" "node_term n \<noteq> max_u64"
  shows "node_step n (candidate_node n)"
proof (rule node_stepI [where ms = "[]"])
  show "roles_ok (candidate_node n)" using assms(1) by (simp add: roles_ok_def)
  show "hs_step (n_hardState n) (n_hardState (candidate_node n))"
    using assms(2) by (simp add: hs_step_def u64_less_Suc)
qed simp_all

lemma startElection_step:
  assumes "roles_ok n" "node_term n \<noteq> max_u64"
  shows "\<exists>n'. startElection n = Some n' \<and> node_step n n'"
proof -
  let ?c = "candidate_node n"
  note c = candidate_node_step [OF assms]
  have r: "roles_ok ?c" using c by (simp add: node_step_def)
  obtain n1 where l: "becomeLeader ?c = Some n1" "node_step ?c n1"
    using becomeLeader_step [OF r] by auto
  have l2: "node_step n n1" by (rule node_step_silent_trans [OF _ c l(2)]) simp
  obtain ms where ms: "n_messages (sendRequestVotes (n_peers n) ?c) = n_messages ?c @ ms" "\<forall>m \<in> set ms. out_ok ?c m"
    using node_step_sendRequestVotes [OF r] by blast
  have "node_step ?c (sendRequestVotes (n_peers n) ?c)"
  proof (rule node_stepI [where ms = ms])
    show "out_ok (sendRequestVotes (n_peers n) ?c) m" if "m \<in> set ms" for m
      using ms(2) that by (cases "m_Body m") (auto simp: out_ok_def)
  qed (use r ms in simp_all)
  then have "node_step n (sendRequestVotes (n_peers n) ?c)"
    by (intro node_step_silent_trans [OF _ c]) simp_all
  with l(1) l2 show ?thesis by (simp add: startElection_eq)
qed

lemma Tick_step:
  assumes "roles_ok n" "node_term n \<noteq> max_u64"
  shows "\<exists>n'. Tick n = Some n' \<and> node_step n n'"
proof (cases "n_role n = leader")
  case True
  let ?n1 = "n\<lparr>n_heartbeatElapsed := n_heartbeatElapsed n + 1\<rparr>"
  let ?n2 = "n\<lparr>n_heartbeatElapsed := 0\<rparr>"
  have s: "node_step n (n\<lparr>n_heartbeatElapsed := k\<rparr>)" for k
    by (rule node_stepI [where ms = "[]"]) (use assms in \<open>simp_all add: roles_ok_def\<close>)
  obtain X Y where "n_nextIndex ?n2 = Some X" "n_inflight ?n2 = Some Y"
    using assms(1) True by (auto simp: roles_ok_def)
  then obtain n' where n': "broadcastAppend False ?n2 = Some n'" "ae_effect ?n2 n'"
    unfolding broadcastAppend_def using broadcast_effect by blast
  have "node_step ?n2 n'"
    by (rule ae_effect_step [OF n'(2)]) (use s [of 0] True in \<open>simp_all add: node_step_def\<close>)
  then have "node_step n n'" by (intro node_step_silent_trans [OF _ s [of 0]]) simp_all
  with n'(1) s True show ?thesis by (simp add: Tick_def Let_def sendHeartbeats_def)
next
  case False
  let ?n1 = "n\<lparr>n_electionElapsed := n_electionElapsed n + 1\<rparr>"
  have s: "node_step n ?n1"
    by (rule node_stepI [where ms = "[]"]) (use assms in \<open>simp_all add: roles_ok_def\<close>)
  obtain n' where n': "startElection ?n1 = Some n'" "node_step ?n1 n'"
    using startElection_step [of ?n1] s assms(2) by (auto simp: node_step_def)
  have "node_step n n'" by (rule node_step_silent_trans [OF _ s n'(2)]) simp
  with n'(1) s False show ?thesis by (simp add: Tick_def Let_def)
qed

lemma Propose_step:
  assumes "roles_ok n"
  shows "\<exists>n' i t b. Propose data n = Some (n', i, t, b) \<and> node_step n n' \<and> n_role n' = n_role n
    \<and> n_hardState n' = n_hardState n"
proof (cases "n_role n = leader")
  case False
  then show ?thesis using assms by (auto simp: Propose_def intro: node_step_refl)
next
  case True
  with assms obtain f h g where maps: "n_nextIndex n = Some f" "n_matchIndex n = Some h" "n_inflight n = Some g"
    by (auto simp: roles_ok_def)
  obtain X Z where a: "appendLocal NORMAL data n = Some (n\<lparr>n_log := local_log NORMAL data n,
      n_unstableIndex := local_unstable n, n_matchIndex := Some Z, n_nextIndex := Some X\<rparr>, lastIndex (n_log n) + 1)"
    using appendLocal_effect [OF maps(1,2), of NORMAL data] by blast
  define n1 where "n1 = n\<lparr>n_log := local_log NORMAL data n, n_unstableIndex := local_unstable n,
      n_matchIndex := Some Z, n_nextIndex := Some X\<rparr>"
  obtain c b where c: "advanceCommit n1 = (n1\<lparr>n_commitIndex := c\<rparr>, b)"
    using advanceCommit_effect by blast
  define n2 where "n2 = n1\<lparr>n_commitIndex := c\<rparr>"
  have "n_nextIndex n2 = Some X" "n_inflight n2 = Some g" using maps by (simp_all add: n2_def n1_def)
  then obtain n' where d: "broadcastAvailableAppend n2 = Some n'" "ae_effect n2 n'"
    unfolding broadcastAvailableAppend_def using broadcast_effect by blast
  have r: "roles_ok n2" using assms maps by (simp add: n2_def n1_def roles_ok_def)
  have s: "node_step n n2"
    by (rule node_stepI [where ms = "[]"]) (use r in \<open>simp_all add: n2_def n1_def\<close>)
  have l: "n_role n2 = leader" "n_hardState n2 = n_hardState n" "n_messages n2 = n_messages n"
    using True by (simp_all add: n2_def n1_def)
  have "node_step n n'"
    using node_step_silent_trans [OF l(3) s ae_effect_step [OF d(2) r l(1)]] .
  moreover have "Propose data n = Some (n', lastIndex (n_log n) + 1, node_term n', True)"
    using True a c d(1) by (simp add: Propose_def n1_def [symmetric] n2_def [symmetric] Let_def)
  ultimately show ?thesis using ae_effect_fields [OF d(2)] l True by auto
qed

lemma rejectLowerTermRequest_step:
  assumes "roles_ok n"
  shows "node_step n (rejectLowerTermRequest m n)" "n_role (rejectLowerTermRequest m n) = n_role n"
    "n_hardState (rejectLowerTermRequest m n) = n_hardState n" "n_votes (rejectLowerTermRequest m n) = n_votes n"
    "n_config (rejectLowerTermRequest m n) = n_config n" "n_peers (rejectLowerTermRequest m n) = n_peers n"
proof -
  have "node_step n (send p b n)" if "out_ok n \<lparr>m_From = node_id n, m_To = p, m_Term = node_term n, m_Body = b\<rparr>" for p b
    by (rule node_step_send) (use assms that in simp_all)
  then show "node_step n (rejectLowerTermRequest m n)"
    using assms by (auto simp: rejectLowerTermRequest_def sendRequestVoteResponse_def sendAppendEntriesResponse_def
      out_ok_def intro: node_step_refl split: Body.splits)
qed (simp_all add: rejectLowerTermRequest_def sendRequestVoteResponse_def sendAppendEntriesResponse_def
      split: Body.splits)

lemma dispatch_step:
  assumes "roles_ok n" "honest m"
  shows "\<exists>n'. dispatch m n = Some n' \<and> node_step n n'"
proof (cases "m_Body m")
  case (RequestVote r)
  with assms show ?thesis by (auto simp: dispatch_def honest_def intro: handleRequestVote_step)
next
  case (RequestVoteReply r)
  then show ?thesis using handleRequestVoteResponse_step [OF assms(1)] by (simp add: dispatch_def)
next
  case (AppendEntries r)
  then show ?thesis using handleAppendEntries_step(1) [OF assms(1)] by (simp add: dispatch_def)
next
  case (AppendEntriesReply r)
  then show ?thesis using handleAppendEntriesResponse_step [OF assms(1)] by (auto simp: dispatch_def)
qed (use assms in \<open>auto simp: dispatch_def intro: node_step_refl\<close>)

lemma Step_step:
  assumes "roles_ok n" "honest m"
  shows "\<exists>n'. Step (Some m) n = Some n' \<and> node_step n n'"
proof (cases "messageTerm m > node_term n")
  case True
  note f = becomeFollower_step [OF assms(1) True]
  obtain n' where n': "dispatch m (becomeFollower (messageTerm m) n) = Some n'"
      "node_step (becomeFollower (messageTerm m) n) n'"
    using dispatch_step [OF node_step_roles [OF f] assms(2)] by blast
  have "node_step n n'" by (rule node_step_silent_trans [OF _ f n'(2)]) simp
  with n'(1) True show ?thesis by (simp add: Step_def)
next
  case False
  then show ?thesis
    using dispatch_step [OF assms] rejectLowerTermRequest_step(1) [OF assms(1)] by (simp add: Step_def Let_def)
qed

section \<open>The votes behind a role\<close>

text \<open>
  \<open>V\<close> is the set of all votes given so far, as triples of voter, term and candidate. A candidate
  has counted only votes of its term, and a leader was elected by a majority.
\<close>

definition quorum :: "u64 list \<Rightarrow> u64 set \<Rightarrow> bool" where
  "quorum peers Q \<longleftrightarrow> Q \<subseteq> set peers \<and> card Q \<ge> length peers div 2 + 1"

definition elected :: "u64 list \<Rightarrow> (u64 \<times> u64 \<times> u64) set \<Rightarrow> u64 \<Rightarrow> u64 \<Rightarrow> bool" where
  "elected peers V t i \<longleftrightarrow> (\<exists>Q. quorum peers Q \<and> (\<forall>v \<in> Q. (v, t, i) \<in> V))"

definition supported :: "(u64 \<times> u64 \<times> u64) set \<Rightarrow> Node \<Rightarrow> bool" where
  "supported V n \<longleftrightarrow>
     (n_role n = candidate \<longrightarrow> (\<forall>vs. n_votes n = Some vs \<longrightarrow> (\<forall>v \<in> vs. (v, node_term n, node_id n) \<in> V)))
     \<and> (n_role n = leader \<longrightarrow> elected (n_peers n) V (node_term n) (node_id n))"

lemma supported_cong:
  assumes "n_role n' = n_role n" "n_hardState n' = n_hardState n" "n_config n' = n_config n"
    "n_peers n' = n_peers n" "n_role n = candidate \<Longrightarrow> n_votes n' = n_votes n" "supported V n"
  shows "supported V n'"
  using assms by (auto simp: supported_def)

lemma supported_mono: "supported V n \<Longrightarrow> V \<subseteq> W \<Longrightarrow> supported W n"
  unfolding supported_def elected_def by blast

lemma becomeLeader_supported:
  assumes "roles_ok n" "n_role n = candidate" "supported V n" "hasMajority n" "becomeLeader n = Some n'"
  shows "supported V n'"
proof -
  obtain n1 c X Z where e: "becomeLeader n = Some n1" "ae_effect (leader_node n c X Z) n1"
    using becomeLeader_effect by blast
  note f = ae_effect_fields [OF e(2)]
  obtain vs where vs: "n_votes n = Some vs" "vs \<subseteq> set (n_peers n)"
    using assms(1,2) by (auto simp: roles_ok_def)
  have "quorum (n_peers n) vs" using vs assms(4) by (simp add: quorum_def hasMajority_def)
  moreover have "\<forall>v \<in> vs. (v, node_term n, node_id n) \<in> V" using assms(2,3) vs by (simp add: supported_def)
  ultimately have "elected (n_peers n) V (node_term n) (node_id n)" unfolding elected_def by blast
  then have "supported V n1" using f by (simp add: supported_def leader_node_def)
  with e(1) assms(5) show ?thesis by simp
qed

lemma handleRequestVote_fields [simp]:
  "n_role (handleRequestVote m req n) = n_role n" "n_votes (handleRequestVote m req n) = n_votes n"
  "n_config (handleRequestVote m req n) = n_config n" "n_peers (handleRequestVote m req n) = n_peers n"
  "node_term (handleRequestVote m req n) = node_term n" "n_log (handleRequestVote m req n) = n_log n"
  by (simp_all add: handleRequestVote_def Let_def sendRequestVoteResponse_def)

lemma handleRequestVoteResponse_supported:
  assumes "roles_ok n" "supported V n" "handleRequestVoteResponse m resp n = Some n'"
    and "rvr_VoteGranted resp \<Longrightarrow> (m_From m, node_term n, node_id n) \<in> V"
  shows "supported V n'"
proof (cases "n_role n \<noteq> candidate \<or> \<not> rvr_VoteGranted resp \<or> \<not> isPeer (m_From m) n")
  case True
  then show ?thesis using assms(2,3) by (auto simp: handleRequestVoteResponse_def)
next
  case False
  then obtain vs where vs: "n_votes n = Some vs" "vs \<subseteq> set (n_peers n)" "n_role n = candidate"
    "m_From m \<in> set (n_peers n)"
    using assms(1) by (auto simp: roles_ok_def isPeer_iff)
  let ?n1 = "n\<lparr>n_votes := Some (insert (m_From m) vs)\<rparr>"
  have r: "roles_ok ?n1" using assms(1) vs by (auto simp: roles_ok_def)
  have s: "supported V ?n1" using assms(2,4) vs False by (auto simp: supported_def)
  have "handleRequestVoteResponse m resp n = (if hasMajority ?n1 then becomeLeader ?n1 else Some ?n1)"
    using False vs(1) by (simp add: handleRequestVoteResponse_def Let_def)
  with assms(3) s show ?thesis
    using becomeLeader_supported [OF r _ s, of n'] vs(3) by (auto split: if_splits)
qed

lemma dispatch_supported:
  assumes "roles_ok n" "supported V n" "dispatch m n = Some n'"
    and "\<And>r. m_Body m = RequestVoteReply r \<Longrightarrow> rvr_VoteGranted r \<Longrightarrow> (m_From m, node_term n, node_id n) \<in> V"
  shows "supported V n'"
proof (cases "m_Body m")
  case (RequestVote r)
  with assms(2,3) show ?thesis by (auto simp: dispatch_def supported_def)
next
  case (RequestVoteReply r)
  with assms(3,4) show ?thesis
    by (intro handleRequestVoteResponse_supported [OF assms(1,2)]) (auto simp: dispatch_def)
next
  case (AppendEntries r)
  with assms(3) handleAppendEntries_step(2) [OF assms(1)] show ?thesis by (auto simp: dispatch_def supported_def)
next
  case (AppendEntriesReply r)
  then have "node_step n n' \<and> n_role n' = n_role n \<and> n_hardState n' = n_hardState n \<and> (n_role n \<noteq> leader \<longrightarrow> n' = n)"
    using assms(3) handleAppendEntriesResponse_step [OF assms(1), of m r] by (simp add: dispatch_def)
  then show ?thesis
    using assms(2) by (intro supported_cong [OF _ _ _ _ _ assms(2)]) (auto simp: node_step_def)
qed (use assms in \<open>auto simp: dispatch_def\<close>)

lemma Step_supported:
  assumes "roles_ok n" "supported V n" "Step (Some m) n = Some n'"
    and "\<And>r. m_Body m = RequestVoteReply r \<Longrightarrow> rvr_VoteGranted r \<Longrightarrow> (m_From m, messageTerm m, node_id n) \<in> V"
  shows "supported V n'"
proof (cases "messageTerm m > node_term n")
  case True
  note r = node_step_roles [OF becomeFollower_step [OF assms(1) True]]
  have "supported V (becomeFollower (messageTerm m) n)" by (simp add: supported_def)
  then show ?thesis
    by (rule dispatch_supported [OF r, where m = m]) (use assms(3,4) True in \<open>auto simp: Step_def\<close>)
next
  case False
  show ?thesis
  proof (cases "messageTerm m < node_term n")
    case True
    with False assms(2,3) rejectLowerTermRequest_step [OF assms(1)] show ?thesis
      by (auto simp: Step_def intro: supported_cong)
  next
    case eq: False
    with False have "messageTerm m = node_term n" by auto
    with assms(3,4) show ?thesis by (intro dispatch_supported [OF assms(1,2), of m]) (simp_all add: Step_def)
  qed
qed

lemma startElection_supported:
  assumes "roles_ok n" "startElection n = Some n'" "(node_id n, node_term n + 1, node_id n) \<in> V"
  shows "supported V n'" "n_hardState n' = \<lparr>hs_Term = node_term n + 1, hs_VotedFor = node_id n\<rparr>"
proof -
  have r: "roles_ok (candidate_node n)" using assms(1) by (simp add: roles_ok_def)
  have s: "supported V (candidate_node n)" using assms(3) by (simp add: supported_def)
  show "supported V n'"
    using assms(2) becomeLeader_supported [OF r _ s] s
    by (auto simp: startElection_eq supported_def split: if_splits)
  obtain n1 c X Z where e: "becomeLeader (candidate_node n) = Some n1" "ae_effect (leader_node (candidate_node n) c X Z) n1"
    using becomeLeader_effect by blast
  show "n_hardState n' = \<lparr>hs_Term = node_term n + 1, hs_VotedFor = node_id n\<rparr>"
    using assms(2) e(1) ae_effect_fields(3) [OF e(2)]
    by (auto simp: startElection_eq leader_node_def split: if_splits)
qed

text \<open>Only the node itself gets the vote a tick gives.\<close>

lemma Tick_vote:
  assumes "Tick n = Some n'" "n_hardState n' \<noteq> n_hardState n" "roles_ok n"
  shows "hs_VotedFor (n_hardState n') = node_id n"
proof (cases "n_role n = leader")
  case True
  obtain X Y where "n_nextIndex (n\<lparr>n_heartbeatElapsed := 0\<rparr>) = Some X" "n_inflight (n\<lparr>n_heartbeatElapsed := 0\<rparr>) = Some Y"
    using assms(3) True by (auto simp: roles_ok_def)
  then obtain n1 where n1: "broadcastAppend False (n\<lparr>n_heartbeatElapsed := 0\<rparr>) = Some n1"
      "ae_effect (n\<lparr>n_heartbeatElapsed := 0\<rparr>) n1"
    unfolding broadcastAppend_def using broadcast_effect by blast
  with assms(1,2) True ae_effect_fields(3) [OF n1(2)] show ?thesis
    by (auto simp: Tick_def Let_def sendHeartbeats_def split: if_splits)
next
  case False
  let ?n1 = "n\<lparr>n_electionElapsed := n_electionElapsed n + 1\<rparr>"
  have r: "roles_ok ?n1" using assms(3) by (simp add: roles_ok_def)
  from False assms(1,2) have "startElection ?n1 = Some n'" by (auto simp: Tick_def Let_def split: if_splits)
  then show ?thesis using startElection_supported(2) [OF r, of n' UNIV] by simp
qed

lemma Tick_supported:
  assumes "roles_ok n" "supported V n" "Tick n = Some n'"
    and "n_hardState n' \<noteq> n_hardState n \<Longrightarrow> (node_id n, node_term n', hs_VotedFor (n_hardState n')) \<in> V"
  shows "supported V n'"
proof (cases "n_role n = leader")
  case True
  obtain X Y where "n_nextIndex (n\<lparr>n_heartbeatElapsed := 0\<rparr>) = Some X" "n_inflight (n\<lparr>n_heartbeatElapsed := 0\<rparr>) = Some Y"
    using assms(1) True by (auto simp: roles_ok_def)
  then obtain n1 where n1: "broadcastAppend False (n\<lparr>n_heartbeatElapsed := 0\<rparr>) = Some n1"
      "ae_effect (n\<lparr>n_heartbeatElapsed := 0\<rparr>) n1"
    unfolding broadcastAppend_def using broadcast_effect by blast
  have "supported V n1"
    by (rule supported_cong [OF _ _ _ _ _ assms(2)]) (use ae_effect_fields [OF n1(2)] in simp_all)
  moreover have "supported V (n\<lparr>n_heartbeatElapsed := k\<rparr>)" for k
    using assms(2) by (simp add: supported_def)
  ultimately show ?thesis
    using assms(3) True n1(1) by (auto simp: Tick_def Let_def sendHeartbeats_def split: if_splits)
next
  case False
  let ?n1 = "n\<lparr>n_electionElapsed := n_electionElapsed n + 1\<rparr>"
  have r: "roles_ok ?n1" using assms(1) by (simp add: roles_ok_def)
  show ?thesis
  proof (cases "n_electionElapsed n + 1 \<ge> n_electionTimeout n")
    case True
    with False assms(3) have s: "startElection ?n1 = Some n'" by (simp add: Tick_def Let_def)
    have "n_hardState n' = \<lparr>hs_Term = node_term n + 1, hs_VotedFor = node_id n\<rparr>"
      using startElection_supported(2) [OF r s, of UNIV] by simp
    moreover then have "n_hardState n' \<noteq> n_hardState n" by (metis HardState.select_convs(1) add_0_right add_left_cancel one_neq_zero)
    ultimately show ?thesis using startElection_supported(1) [OF r s, of V] assms(4) by simp
  next
    case no: False
    with False assms(2,3) show ?thesis by (auto simp: Tick_def Let_def supported_def)
  qed
qed

lemma Propose_supported:
  assumes "roles_ok n" "supported V n" "Propose data n = Some (n', i, t, b)"
  shows "supported V n'"
proof -
  have "node_step n n' \<and> n_role n' = n_role n \<and> n_hardState n' = n_hardState n"
    using Propose_step [OF assms(1), of data] assms(3) by auto
  moreover have "n' = n" if "n_role n = candidate" using assms(3) that by (simp add: Propose_def)
  ultimately show ?thesis
    by (intro supported_cong [OF _ _ _ _ _ assms(2)]) (auto simp: node_step_def)
qed

end
