(* ===== verification/Raft_Ready.thy ===== *)
theory Raft_Ready
  imports Raft_Node_Props
begin

text \<open>
  The output contract of a node, \<open>Ready\<close> and \<open>Advance\<close> of \<open>internal/raft/raft.go\<close>: what one
  batch contains and what acknowledging it changes. The acknowledgement touches only the output
  bookkeeping, it empties the outbox, and after it no batch repeats an entry or a message.
\<close>

section \<open>Frame conditions\<close>

lemma captureReady_fields [simp]:
  "n_config (captureReady rd n) = n_config n" "n_peers (captureReady rd n) = n_peers n"
  "n_hardState (captureReady rd n) = n_hardState n" "n_role (captureReady rd n) = n_role n"
  "n_votes (captureReady rd n) = n_votes n" "n_log (captureReady rd n) = n_log n"
  "n_unstableIndex (captureReady rd n) = n_unstableIndex n" "n_commitIndex (captureReady rd n) = n_commitIndex n"
  "n_lastApplied (captureReady rd n) = n_lastApplied n" "n_nextIndex (captureReady rd n) = n_nextIndex n"
  "n_matchIndex (captureReady rd n) = n_matchIndex n" "n_inflight (captureReady rd n) = n_inflight n"
  "n_hardStateDirty (captureReady rd n) = n_hardStateDirty n" "n_messages (captureReady rd n) = n_messages n"
  by (simp_all add: captureReady_def)

lemma Advance_fields [simp]:
  "n_config (Advance n) = n_config n" "n_peers (Advance n) = n_peers n"
  "n_hardState (Advance n) = n_hardState n" "n_role (Advance n) = n_role n"
  "n_votes (Advance n) = n_votes n" "n_log (Advance n) = n_log n"
  "n_commitIndex (Advance n) = n_commitIndex n" "n_nextIndex (Advance n) = n_nextIndex n"
  "n_matchIndex (Advance n) = n_matchIndex n" "n_inflight (Advance n) = n_inflight n"
  "n_readyAck (Advance n) = readyAck_zero"
  by (simp_all add: Advance_def Let_def)

lemma roles_ok_Advance [simp]: "roles_ok (Advance (captureReady rd n)) = roles_ok n"
  by (simp add: roles_ok_def)

lemma supported_Advance [simp]: "supported V (Advance (captureReady rd n)) = supported V n"
  by (simp add: supported_def)

section \<open>Acknowledging a batch\<close>

abbreviation acknowledged :: "Node \<Rightarrow> Node" where
  "acknowledged n \<equiv> Advance (captureReady (readyWithoutCapture n) n)"

lemma acknowledged_messages [simp]: "n_messages (acknowledged n) = []"
  by (simp add: Advance_def captureReady_def readyWithoutCapture_def Let_def)

lemma acknowledged_clean [simp]: "\<not> n_hardStateDirty (acknowledged n)"
  by (simp add: Advance_def captureReady_def readyWithoutCapture_def Let_def)

text \<open>A second \<open>Ready\<close> right after the acknowledgement carries no hard state and no message.\<close>

lemma ready_acknowledged:
  "rd_HardState (readyWithoutCapture (acknowledged n)) = None"
  "rd_Messages (readyWithoutCapture (acknowledged n)) = []"
  by (simp_all add: readyWithoutCapture_def [of "acknowledged n"])

text \<open>The batch and the cursors on a contiguous log.\<close>

definition cursors_ok :: "Node \<Rightarrow> bool" where
  "cursors_ok n \<longleftrightarrow> wf_log (n_log n)
     \<and> unat (snap_index (n_log n)) < unat (n_unstableIndex n)
     \<and> unat (n_unstableIndex n) \<le> unat (lastIndex (n_log n)) + 1
     \<and> unat (snap_index (n_log n)) \<le> unat (n_lastApplied n)
     \<and> unat (n_lastApplied n) \<le> unat (n_commitIndex n)
     \<and> unat (n_commitIndex n) \<le> unat (lastIndex (n_log n))"

lemma ready_entries:
  assumes "cursors_ok n"
  shows "rd_Entries (readyWithoutCapture n)
    = drop (unat (n_unstableIndex n) - unat (snap_index (n_log n)) - 1) (l_entries (n_log n))"
proof -
  have w: "wf_log (n_log n)" and u: "unat (snap_index (n_log n)) < unat (n_unstableIndex n)"
    and v: "unat (n_unstableIndex n) \<le> unat (lastIndex (n_log n)) + 1"
    using assms by (auto simp: cursors_ok_def)
  note L = lastIndex_wf [OF w] lastIndex_no_wrap [OF w]
  show ?thesis
  proof (cases "n_unstableIndex n \<le> lastIndex (n_log n)")
    case True
    then show ?thesis
      using L u v by (simp add: readyWithoutCapture_def rangeEntries_wf [OF w u])
  next
    case False
    then have "unat (n_unstableIndex n) = unat (lastIndex (n_log n)) + 1"
      using v by (simp add: word_le_nat_alt)
    with False L show ?thesis by (simp add: readyWithoutCapture_def)
  qed
qed

lemma ready_committed:
  assumes "cursors_ok n"
  shows "rd_CommittedEntries (readyWithoutCapture n)
    = take (unat (n_commitIndex n) - unat (n_lastApplied n))
        (drop (unat (n_lastApplied n) - unat (snap_index (n_log n))) (l_entries (n_log n)))"
proof -
  have w: "wf_log (n_log n)" and a: "unat (snap_index (n_log n)) \<le> unat (n_lastApplied n)"
    and c: "unat (n_lastApplied n) \<le> unat (n_commitIndex n)"
    and b: "unat (n_commitIndex n) \<le> unat (lastIndex (n_log n))"
    using assms by (auto simp: cursors_ok_def)
  note L = lastIndex_wf [OF w] wf_log_snap [OF w]
  show ?thesis
  proof (cases "n_lastApplied n < n_commitIndex n")
    case True
    have s: "unat (n_lastApplied n + 1) = unat (n_lastApplied n) + 1" "unat (n_commitIndex n + 1) = unat (n_commitIndex n) + 1"
      using True L b by (simp_all add: unat_u64_less_Suc unat_u64_Suc)
    then have "unat (snap_index (n_log n)) < unat (n_lastApplied n + 1)" using a by simp
    from rangeEntries_wf [OF w this] True s a show ?thesis
      by (simp add: readyWithoutCapture_def)
  next
    case False
    then have "unat (n_commitIndex n) \<le> unat (n_lastApplied n)" by (simp add: word_less_nat_alt)
    with False show ?thesis by (simp add: readyWithoutCapture_def)
  qed
qed

text \<open>Acknowledging advances the cursors exactly past what the batch contained.\<close>

lemma acknowledged_cursors:
  assumes "cursors_ok n"
  shows "n_unstableIndex (acknowledged n) = lastIndex (n_log n) + 1"
    "n_lastApplied (acknowledged n) = n_commitIndex n"
proof -
  have w: "wf_log (n_log n)" and u: "unat (snap_index (n_log n)) < unat (n_unstableIndex n)"
    and v: "unat (n_unstableIndex n) \<le> unat (lastIndex (n_log n)) + 1"
    and a: "unat (snap_index (n_log n)) \<le> unat (n_lastApplied n)"
    and c: "unat (n_lastApplied n) \<le> unat (n_commitIndex n)"
    and b: "unat (n_commitIndex n) \<le> unat (lastIndex (n_log n))"
    using assms by (auto simp: cursors_ok_def)
  note L = lastIndex_wf [OF w] lastIndex_no_wrap [OF w]
  let ?rd = "readyWithoutCapture n" and ?k = "unat (n_unstableIndex n) - unat (snap_index (n_log n)) - 1"
  show "n_unstableIndex (acknowledged n) = lastIndex (n_log n) + 1"
  proof (cases "n_unstableIndex n \<le> lastIndex (n_log n)")
    case True
    then have k: "?k < length (l_entries (n_log n))" using u L(1) by (simp add: word_le_nat_alt)
    then have "rd_Entries ?rd \<noteq> []" "e_Index (last (rd_Entries ?rd)) = lastIndex (n_log n)"
      by (auto simp: ready_entries [OF assms] lastIndex_def)
    with True show ?thesis by (simp add: Advance_def captureReady_def Let_def)
  next
    case False
    then have eq: "unat (n_unstableIndex n) = unat (lastIndex (n_log n)) + 1"
      using v by (simp add: word_le_nat_alt)
    then have "rd_Entries ?rd = []" using L(1) by (simp add: ready_entries [OF assms])
    moreover have "n_unstableIndex n = lastIndex (n_log n) + 1" using eq L(2) by (simp add: word_unat_eq_iff)
    ultimately show ?thesis by (simp add: Advance_def captureReady_def Let_def)
  qed
  show "n_lastApplied (acknowledged n) = n_commitIndex n"
  proof (cases "n_lastApplied n < n_commitIndex n")
    case True
    let ?i = "unat (n_lastApplied n) - unat (snap_index (n_log n))"
    let ?m = "unat (n_commitIndex n) - unat (n_lastApplied n)"
    have lt: "unat (n_lastApplied n) < unat (n_commitIndex n)" using True by (simp add: word_less_nat_alt)
    have len: "length (rd_CommittedEntries ?rd) = ?m" using a b L(1) by (simp add: ready_committed [OF assms])
    then have ne: "rd_CommittedEntries ?rd \<noteq> []" using lt by auto
    have "last (rd_CommittedEntries ?rd) = l_entries (n_log n) ! (?i + (?m - 1))"
      using lt ne len a b L(1) by (simp add: last_conv_nth) (simp add: ready_committed [OF assms])
    moreover have "unat (e_Index (l_entries (n_log n) ! (?i + (?m - 1)))) = unat (snap_index (n_log n)) + 1 + (?i + (?m - 1))"
      using w lt a b L(1) by (intro contiguous_from_nth) (auto simp: wf_log_def)
    ultimately have "e_Index (last (rd_CommittedEntries ?rd)) = n_commitIndex n"
      using lt a by (simp add: word_unat_eq_iff)
    with ne True show ?thesis by (simp add: Advance_def captureReady_def Let_def)
  next
    case False
    then have eq: "n_lastApplied n = n_commitIndex n" using c by (simp add: word_less_nat_alt word_unat_eq_iff)
    then have "rd_CommittedEntries ?rd = []" by (simp add: ready_committed [OF assms])
    with eq show ?thesis by (simp add: Advance_def captureReady_def Let_def)
  qed
qed

end
