(* ===== verification/Raft_Cluster.thy ===== *)
theory Raft_Cluster
  imports Server_Host
begin

text \<open>
  A cluster of hosts over an unreliable network. Each member runs the host loop of
  \<open>internal/server/server.go\<close> on its own storage; the network is the set of all messages ever sent,
  so a message may be lost, delayed, reordered or delivered many times; a member may crash at any
  time, also after its batch is durable and only part of its messages is sent, and is rebuilt from
  its storage by \<open>NewRecoveredNode\<close>. The main result is election safety, the cluster-wide
  assertion \<open>SingleLeaderPerTerm\<close> of \<open>sim/invariant.go\<close>: no two members lead in the same term.
\<close>

section \<open>The cluster\<close>

type_synonym member = "(MemStorage, Entry list, storage_error) Host"

text \<open>The applier of a member records the entries it is given.\<close>

definition record_entry :: "(Entry list, storage_error) applier" where
  "record_entry e applied = (applied @ [e], None)"

definition new_member :: "u64 \<Rightarrow> Node \<Rightarrow> MemStorage \<Rightarrow> member" where
  "new_member i n st = \<lparr>h_parts = \<lparr>hp_node = n, hp_storage = st, hp_sent = [], hp_applier = Some []\<rparr>,
     h_SelfID = i, h_stopped = None, h_leaderHint = 0\<rparr>"

definition recovered_node :: "Config \<Rightarrow> MemStorage \<Rightarrow> Rand option \<Rightarrow> (storage_error recover_error + Node) option" where
  "recovered_node cfg st rnd =
     NewRecoveredNode MemStorage_HardState MemStorage_Entries MemStorage_FirstIndex MemStorage_LastIndex cfg (Some st) rnd"

text \<open>One event at one member: a tick, a message, or a client command.\<close>

datatype event = TickEvent | MessageEvent Message | ProposeEvent bytes

definition handle_event :: "event \<Rightarrow> member \<Rightarrow> member option" where
  "handle_event ev h =
     (case ev of
        TickEvent \<Rightarrow> map_option fst (Host_Tick MemStorage_Save record_entry None h)
      | MessageEvent m \<Rightarrow> map_option fst (Host_Step MemStorage_Save record_entry None (Some m) h)
      | ProposeEvent data \<Rightarrow> map_option fst (Host_Propose MemStorage_Save record_entry None data None h))"

definition outbox :: "member \<Rightarrow> Message set" where
  "outbox h = snd ` set (hp_sent (h_parts h))"

definition clear_outbox :: "member \<Rightarrow> member" where
  "clear_outbox h = h\<lparr>h_parts := (h_parts h)\<lparr>hp_sent := []\<rparr>\<rparr>"

record cluster =
  cl_member :: "u64 \<Rightarrow> member"
  cl_net :: "Message set"
  cl_votes :: "(u64 \<times> u64 \<times> u64) set"

text \<open>\<open>cl_votes\<close> is a history variable: every vote that was ever made durable, with its term.\<close>

definition durable_vote :: "u64 \<Rightarrow> member \<Rightarrow> (u64 \<times> u64 \<times> u64) set" where
  "durable_vote i h = (let hs = ms_hard (hp_storage (h_parts h))
     in if hs_VotedFor hs = 0 then {} else {(i, hs_Term hs, hs_VotedFor hs)})"

definition initial_cluster :: "(u64 \<Rightarrow> Config) \<Rightarrow> (u64 \<Rightarrow> Rand option) \<Rightarrow> cluster" where
  "initial_cluster cfg rnd =
     \<lparr>cl_member = (\<lambda>i. new_member i (NewNode (cfg i) \<lparr>is_HardState = \<lparr>hs_Term = 0, hs_VotedFor = 0\<rparr>, is_Entries = [],
                      is_Snapshot = \<lparr>sm_Index = 0, sm_Term = 0\<rparr>\<rparr> (rnd i)) NewMemStorage),
      cl_net = {}, cl_votes = {}\<rparr>"

text \<open>An event that may happen: the message was sent to this member, and the term counter is not
  exhausted when the timer may raise it.\<close>

definition enabled :: "u64 \<Rightarrow> event \<Rightarrow> cluster \<Rightarrow> bool" where
  "enabled i ev c =
     (case ev of
        TickEvent \<Rightarrow> node_term (host_node (cl_member c i)) \<noteq> max_u64
      | MessageEvent m \<Rightarrow> m \<in> cl_net c \<and> m_To m = i
      | ProposeEvent _ \<Rightarrow> True)"

inductive cluster_step :: "(u64 \<Rightarrow> Config) \<Rightarrow> u64 list \<Rightarrow> cluster \<Rightarrow> cluster \<Rightarrow> bool" for cfg peers where
  event: "i \<in> set peers \<Longrightarrow> enabled i ev c \<Longrightarrow> handle_event ev (cl_member c i) = Some h \<Longrightarrow>
    cluster_step cfg peers c
      (c\<lparr>cl_member := (cl_member c)(i := clear_outbox h), cl_net := cl_net c \<union> outbox h,
         cl_votes := cl_votes c \<union> durable_vote i h\<rparr>)"
| crash: "i \<in> set peers \<Longrightarrow> enabled i ev c \<Longrightarrow> handle_event ev (cl_member c i) = Some h \<Longrightarrow>
    ms \<subseteq> outbox h \<Longrightarrow> recovered_node (cfg i) (hp_storage (h_parts h)) rnd = Some (Inr n) \<Longrightarrow>
    cluster_step cfg peers c
      (c\<lparr>cl_member := (cl_member c)(i := new_member i n (hp_storage (h_parts h))), cl_net := cl_net c \<union> ms,
         cl_votes := cl_votes c \<union> durable_vote i h\<rparr>)"
| restart: "i \<in> set peers \<Longrightarrow> recovered_node (cfg i) (hp_storage (h_parts (cl_member c i))) rnd = Some (Inr n) \<Longrightarrow>
    cluster_step cfg peers c
      (c\<lparr>cl_member := (cl_member c)(i := new_member i n (hp_storage (h_parts (cl_member c i))))\<rparr>)"

inductive reachable :: "(u64 \<Rightarrow> Config) \<Rightarrow> u64 list \<Rightarrow> cluster \<Rightarrow> bool" for cfg peers where
  init: "reachable cfg peers (initial_cluster cfg rnd)"
| step: "reachable cfg peers c \<Longrightarrow> cluster_step cfg peers c c' \<Longrightarrow> reachable cfg peers c'"

text \<open>The contract of the configuration: one common membership, no member with ID 0.\<close>

definition membership :: "(u64 \<Rightarrow> Config) \<Rightarrow> u64 list \<Rightarrow> bool" where
  "membership cfg peers \<longleftrightarrow> distinct peers \<and> 0 \<notin> set peers
     \<and> (\<forall>i \<in> set peers. c_ID (cfg i) = i \<and> c_Peers (cfg i) = peers)"

section \<open>One event at one member\<close>

definition member_ok :: "(u64 \<Rightarrow> Config) \<Rightarrow> u64 list \<Rightarrow> u64 \<Rightarrow> member \<Rightarrow> bool" where
  "member_ok cfg peers i h \<longleftrightarrow> (let n = host_node h in
     h_stopped h = None \<and> roles_ok n \<and> n_config n = config_defaults (cfg i) \<and> n_peers n = sort peers
     \<and> n_messages n = [] \<and> \<not> n_hardStateDirty n \<and> n_hardState n = ms_hard (hp_storage (h_parts h))
     \<and> hp_sent (h_parts h) = [])"

lemma config_defaults_fields [simp]:
  "c_ID (config_defaults cfg) = c_ID cfg" "c_Peers (config_defaults cfg) = c_Peers cfg"
  by (simp_all add: config_defaults_def Let_def)

lemma NewNode_fields:
  "n_config (NewNode cfg init rnd) = config_defaults cfg" "n_peers (NewNode cfg init rnd) = sort (c_Peers cfg)"
  "n_hardState (NewNode cfg init rnd) = is_HardState init" "n_role (NewNode cfg init rnd) = follower"
  "n_messages (NewNode cfg init rnd) = []" "\<not> n_hardStateDirty (NewNode cfg init rnd)"
  "n_log (NewNode cfg init rnd) = newRaftLog (is_Snapshot init) (is_Entries init)"
  by (simp_all add: NewNode_def Let_def orderedPeers_def)

lemma NewNode_roles_ok:
  assumes "membership cfg peers" "i \<in> set peers"
  shows "roles_ok (NewNode (cfg i) init rnd)"
  using assms by (auto simp: roles_ok_def NewNode_fields membership_def)

lemma recovered_node_fields:
  assumes "recovered_node cfg st rnd = Some (Inr n)"
  shows "\<exists>es. n = NewNode cfg \<lparr>is_HardState = ms_hard st, is_Entries = es, is_Snapshot = \<lparr>sm_Index = 0, sm_Term = 0\<rparr>\<rparr> rnd"
  using assms
  by (auto simp: recovered_node_def NewRecoveredNode_def MemStorage_HardState_def Let_def
      split: if_splits option.splits sum.splits)

lemma new_member_ok:
  assumes "membership cfg peers" "i \<in> set peers" "recovered_node (cfg i) st rnd = Some (Inr n)"
  shows "member_ok cfg peers i (new_member i n st)" "supported V n"
proof -
  obtain es where n: "n = NewNode (cfg i) \<lparr>is_HardState = ms_hard st, is_Entries = es,
      is_Snapshot = \<lparr>sm_Index = 0, sm_Term = 0\<rparr>\<rparr> rnd"
    using recovered_node_fields [OF assms(3)] by blast
  show "member_ok cfg peers i (new_member i n st)"
    using NewNode_roles_ok [OF assms(1,2)] assms(1,2)
    by (simp add: member_ok_def new_member_def n NewNode_fields membership_def)
  show "supported V n" by (simp add: n supported_def NewNode_fields)
qed

lemma apply_all_record: "apply_all record_entry es (Some a) = (Some (a @ es), None)"
  by (induction es arbitrary: a) (simp_all add: record_entry_def)

lemma processReady_member:
  "processReady MemStorage_Save record_entry p =
     (let n = hp_node p; rd = readyWithoutCapture n in
      (p\<lparr>hp_node := acknowledged n,
         hp_storage := fst (MemStorage_Save (rd_HardState rd) (rd_Entries rd) (hp_storage p)),
         hp_sent := hp_sent p @ map (\<lambda>m. (m_To m, m)) (n_messages n),
         hp_applier := map_option (\<lambda>a. a @ rd_CommittedEntries rd) (hp_applier p)\<rparr>, None))"
proof -
  have "apply_all record_entry es a = (map_option (\<lambda>a. a @ es) a, None)" for es and a :: "Entry list option"
  proof (cases a)
    case None
    have "apply_all record_entry es None = (None, None)" by (induction es) simp_all
    with None show ?thesis by simp
  qed (simp add: apply_all_record)
  then show ?thesis by (simp add: processReady_eq Let_def MemStorage_Save_eq)
qed

definition node_event :: "event \<Rightarrow> Node \<Rightarrow> Node option" where
  "node_event ev n =
     (case ev of TickEvent \<Rightarrow> Tick n | MessageEvent m \<Rightarrow> Step (Some m) n | ProposeEvent d \<Rightarrow> map_option fst (Propose d n))"

definition node_enabled :: "event \<Rightarrow> Node \<Rightarrow> bool" where
  "node_enabled ev n =
     (case ev of TickEvent \<Rightarrow> node_term n \<noteq> max_u64 | MessageEvent m \<Rightarrow> honest m | ProposeEvent _ \<Rightarrow> True)"

lemma node_event_step:
  assumes "roles_ok n" "node_enabled ev n"
  shows "\<exists>n'. node_event ev n = Some n' \<and> node_step n n'"
proof (cases ev)
  case TickEvent
  then show ?thesis using Tick_step [OF assms(1)] assms(2) by (simp add: node_event_def node_enabled_def)
next
  case (MessageEvent m)
  then show ?thesis using Step_step [OF assms(1)] assms(2) by (simp add: node_event_def node_enabled_def)
next
  case (ProposeEvent d)
  then show ?thesis using Propose_step [OF assms(1), of d] by (auto simp: node_event_def)
qed

text \<open>An event at a host is the event at its node followed by one round of Ready processing.\<close>

definition after_ready :: "Node \<Rightarrow> member \<Rightarrow> member \<Rightarrow> bool" where
  "after_ready n h h' \<longleftrightarrow> host_node h' = acknowledged n \<and> h_stopped h' = h_stopped h
     \<and> hp_storage (h_parts h') = fst (MemStorage_Save (rd_HardState (readyWithoutCapture n))
          (rd_Entries (readyWithoutCapture n)) (hp_storage (h_parts h)))
     \<and> hp_sent (h_parts h') = hp_sent (h_parts h) @ map (\<lambda>m. (m_To m, m)) (n_messages n)
     \<and> hp_applier (h_parts h') = map_option (\<lambda>a. a @ rd_CommittedEntries (readyWithoutCapture n)) (hp_applier (h_parts h))"

lemma processReadyLocked_member:
  assumes "hp_storage (h_parts k) = hp_storage (h_parts h)" "hp_sent (h_parts k) = hp_sent (h_parts h)"
    "hp_applier (h_parts k) = hp_applier (h_parts h)" "h_stopped k = h_stopped h"
  shows "after_ready (host_node k) h (fst (processReadyLocked MemStorage_Save record_entry None k))"
  using assms by (simp add: after_ready_def processReadyLocked_def processReady_member Let_def)

lemma handle_event_node:
  assumes "h_stopped h = None" "handle_event ev h = Some h'"
  shows "\<exists>n'. node_event ev (host_node h) = Some n' \<and> after_ready n' h h'"
proof (cases ev)
  case TickEvent
  with assms obtain n' where n': "Tick (host_node h) = Some n'"
      "h' = fst (processReadyLocked MemStorage_Save record_entry None (set_node n' h))"
    by (auto simp: handle_event_def Host_Tick_def bind_eq_Some_conv)
  have "after_ready n' h h'"
    using processReadyLocked_member [of "set_node n' h" h] n'(2) by simp
  with n' TickEvent show ?thesis by (simp add: node_event_def)
next
  case (MessageEvent m)
  define k where "k = (case m_Body m of AppendEntries req \<Rightarrow> recordLeaderHintLocked (ae_LeaderId req) h | _ \<Rightarrow> h)"
  have k: "h_parts k = h_parts h" "h_stopped k = h_stopped h"
    by (auto simp: k_def recordLeaderHintLocked_def split: Body.splits)
  from MessageEvent assms obtain n' where n': "Step (Some m) (host_node h) = Some n'"
      "h' = fst (processReadyLocked MemStorage_Save record_entry None (set_node n' k))"
    by (auto simp: handle_event_def Host_Step_def bind_eq_Some_conv k_def [symmetric] k)
  have "after_ready n' h h'"
    using processReadyLocked_member [of "set_node n' k" h] n'(2) k by simp
  with n' MessageEvent show ?thesis by (simp add: node_event_def)
next
  case (ProposeEvent d)
  from ProposeEvent assms obtain n' i t b where P: "Propose d (host_node h) = Some (n', i, t, b)"
    by (cases "Propose d (host_node h)") (auto simp: handle_event_def Host_Propose_def)
  with ProposeEvent assms have n': "Propose d (host_node h) = Some (n', i, t, b)"
      "h' = fst (processReadyLocked MemStorage_Save record_entry None
              (if b then recordLeaderHintLocked (h_SelfID h) (set_node n' h) else set_node n' h))"
    by (simp_all add: handle_event_def Host_Propose_def Let_def case_prod_beta cong: if_cong)
  let ?k = "if b then recordLeaderHintLocked (h_SelfID h) (set_node n' h) else set_node n' h"
  have "h_parts ?k = h_parts (set_node n' h)" "h_stopped ?k = h_stopped h"
    by (simp_all add: recordLeaderHintLocked_def)
  then have "after_ready n' h h'"
    using processReadyLocked_member [of ?k h] n'(2) by simp
  with n' ProposeEvent show ?thesis by (simp add: node_event_def)
qed

lemma durable_hard_after:
  assumes "node_step n n'" "\<not> n_hardStateDirty n" "ms_hard st = n_hardState n"
  shows "ms_hard (fst (MemStorage_Save (rd_HardState (readyWithoutCapture n')) es st)) = n_hardState n'"
  using assms by (auto simp: MemStorage_Save_eq merge_hard_def readyWithoutCapture_def node_step_def)

lemma handle_event_ok:
  assumes "member_ok cfg peers i h" "node_enabled ev (host_node h)" "handle_event ev h = Some h'"
  obtains n' where "node_event ev (host_node h) = Some n'" "node_step (host_node h) n'"
    "host_node h' = acknowledged n'" "ms_hard (hp_storage (h_parts h')) = n_hardState n'"
    "outbox h' = set (n_messages n')" "\<forall>m \<in> set (n_messages n'). out_ok n' m"
    "member_ok cfg peers i (clear_outbox h')"
proof -
  let ?n = "host_node h"
  have m: "h_stopped h = None" "roles_ok ?n" "n_messages ?n = []" "\<not> n_hardStateDirty ?n"
      "ms_hard (hp_storage (h_parts h)) = n_hardState ?n" "hp_sent (h_parts h) = []"
      "n_config ?n = config_defaults (cfg i)" "n_peers ?n = sort peers"
    using assms(1) by (simp_all add: member_ok_def Let_def)
  obtain n' where n': "node_event ev ?n = Some n'" "after_ready n' h h'"
    using handle_event_node [OF m(1) assms(3)] by blast
  have s: "node_step ?n n'" using node_event_step [OF m(2) assms(2)] n'(1) by auto
  have hard: "ms_hard (hp_storage (h_parts h')) = n_hardState n'"
    using durable_hard_after [OF s m(4,5)] n'(2) by (simp add: after_ready_def)
  have out: "outbox h' = set (n_messages n')"
    using n'(2) m(6) by (force simp: after_ready_def outbox_def)
  have "\<forall>m \<in> set (n_messages n'). out_ok n' m" using s m(3) by (auto simp: node_step_def)
  moreover have "member_ok cfg peers i (clear_outbox h')"
    using n'(2) m s hard by (simp add: member_ok_def after_ready_def clear_outbox_def Let_def node_step_def)
  ultimately show thesis using that n' s hard out by (simp add: after_ready_def)
qed

section \<open>Election safety\<close>

text \<open>
  What a message in the network says about the votes: it is well formed, a granted vote reply was
  a vote, and a request to append comes from a member a majority voted for.
\<close>

definition msg_ok :: "u64 list \<Rightarrow> (u64 \<times> u64 \<times> u64) set \<Rightarrow> Message \<Rightarrow> bool" where
  "msg_ok peers V m \<longleftrightarrow>
     (case m_Body m of
        RequestVote r \<Rightarrow> rv_CandidateId r = m_From m \<and> rv_Term r = m_Term m
      | RequestVoteReply r \<Rightarrow> rvr_Term r = m_Term m
          \<and> (rvr_VoteGranted r \<longrightarrow> m_To m = 0 \<or> (m_From m, m_Term m, m_To m) \<in> V)
      | AppendEntries r \<Rightarrow> ae_Term r = m_Term m \<and> ae_LeaderId r = m_From m
          \<and> elected peers V (m_Term m) (m_From m)
      | AppendEntriesReply r \<Rightarrow> aer_Term r = m_Term m
      | _ \<Rightarrow> False)"

definition votes_ok :: "cluster \<Rightarrow> u64 list \<Rightarrow> bool" where
  "votes_ok c peers \<longleftrightarrow>
     (\<forall>v t k k'. (v, t, k) \<in> cl_votes c \<longrightarrow> (v, t, k') \<in> cl_votes c \<longrightarrow> k = k')
     \<and> (\<forall>(v, t, k) \<in> cl_votes c. v \<in> set peers \<and> k \<noteq> 0 \<and>
          (let hs = n_hardState (host_node (cl_member c v))
           in t < hs_Term hs \<or> t = hs_Term hs \<and> k = hs_VotedFor hs))
     \<and> (\<forall>i \<in> set peers. let hs = n_hardState (host_node (cl_member c i))
          in hs_VotedFor hs \<noteq> 0 \<longrightarrow> (i, hs_Term hs, hs_VotedFor hs) \<in> cl_votes c)"

definition cluster_inv :: "(u64 \<Rightarrow> Config) \<Rightarrow> u64 list \<Rightarrow> cluster \<Rightarrow> bool" where
  "cluster_inv cfg peers c \<longleftrightarrow>
     (\<forall>i \<in> set peers. member_ok cfg peers i (cl_member c i) \<and> supported (cl_votes c) (host_node (cl_member c i)))
     \<and> (\<forall>m \<in> cl_net c. msg_ok (sort peers) (cl_votes c) m) \<and> votes_ok c peers"

lemma msg_ok_mono: "msg_ok peers V m \<Longrightarrow> V \<subseteq> W \<Longrightarrow> msg_ok peers W m"
  by (cases "m_Body m") (auto simp: msg_ok_def elected_def)

lemma out_msg_ok:
  assumes "out_ok n m" "supported V n" "n_peers n = ps"
    and "hs_VotedFor (n_hardState n) = 0 \<or> (node_id n, node_term n, hs_VotedFor (n_hardState n)) \<in> V"
  shows "msg_ok ps V m"
  using assms by (cases "m_Body m") (auto simp: out_ok_def msg_ok_def supported_def)

lemma initial_cluster_inv:
  assumes "membership cfg peers"
  shows "cluster_inv cfg peers (initial_cluster cfg rnd)"
proof -
  have "member_ok cfg peers i (cl_member (initial_cluster cfg rnd) i)" if "i \<in> set peers" for i
    using NewNode_roles_ok [OF assms that] assms that
    by (simp add: member_ok_def initial_cluster_def new_member_def NewNode_fields membership_def NewMemStorage_def)
  then show ?thesis
    by (auto simp: cluster_inv_def initial_cluster_def supported_def votes_ok_def NewNode_fields new_member_def Let_def)
qed

text \<open>The votes after one member moved from \<open>hs\<close> to \<open>hs'\<close>.\<close>

definition vote_in :: "u64 \<Rightarrow> HardState \<Rightarrow> (u64 \<times> u64 \<times> u64) set" where
  "vote_in i hs = (if hs_VotedFor hs = 0 then {} else {(i, hs_Term hs, hs_VotedFor hs)})"

lemma votes_ok_update:
  assumes "votes_ok c peers" "i \<in> set peers"
    and "hs_step (n_hardState (host_node (cl_member c i))) (n_hardState (host_node h))"
  shows "votes_ok (c\<lparr>cl_member := (cl_member c)(i := h), cl_net := N,
      cl_votes := cl_votes c \<union> vote_in i (n_hardState (host_node h))\<rparr>) peers"
  using assms unfolding votes_ok_def hs_step_def vote_in_def Let_def
  by (auto split: if_splits)

lemma durable_vote_eq: "durable_vote i h = vote_in i (ms_hard (hp_storage (h_parts h)))"
  by (simp add: durable_vote_def vote_in_def Let_def)

text \<open>An event keeps the votes behind every role, for the votes including the new one.\<close>

lemma node_event_supported:
  assumes "roles_ok n" "supported V n" "node_event ev n = Some n'" "node_enabled ev n" "V \<subseteq> W"
    and "vote_in (node_id n) (n_hardState n') \<subseteq> W"
    and "\<And>m. ev = MessageEvent m \<Longrightarrow> msg_ok ps V m \<and> m_To m = node_id n"
  shows "supported W n'"
proof -
  have W: "supported W n" using assms(2,5) by (rule supported_mono)
  show ?thesis
  proof (cases ev)
    case TickEvent
    have t: "Tick n = Some n'" using TickEvent assms(3) by (simp add: node_event_def)
    have s: "node_step n n'" using node_event_step [OF assms(1,4)] assms(3) by auto
    show ?thesis
    proof (rule Tick_supported [OF assms(1) W t])
      assume ne: "n_hardState n' \<noteq> n_hardState n"
      have "hs_VotedFor (n_hardState n') = node_id n" using Tick_vote [OF t ne assms(1)] .
      then show "(node_id n, node_term n', hs_VotedFor (n_hardState n')) \<in> W"
        using assms(1,6) by (auto simp: vote_in_def roles_ok_def)
    qed
  next
    case (MessageEvent m)
    have m: "msg_ok ps V m" "m_To m = node_id n" using assms(7) MessageEvent by auto
    have "node_id n \<noteq> 0" using assms(1) by (simp add: roles_ok_def)
    then have "(m_From m, messageTerm m, node_id n) \<in> W"
      if "m_Body m = RequestVoteReply r" "rvr_VoteGranted r" for r
      using that m assms(5) by (auto simp: msg_ok_def messageTerm_def)
    moreover have "Step (Some m) n = Some n'" using MessageEvent assms(3) by (simp add: node_event_def)
    ultimately show ?thesis by (intro Step_supported [OF assms(1) W])
  next
    case (ProposeEvent d)
    then obtain i t b where "Propose d n = Some (n', i, t, b)" using assms(3) by (auto simp: node_event_def)
    then show ?thesis by (rule Propose_supported [OF assms(1) W])
  qed
qed

lemma handle_event_inv:
  assumes "membership cfg peers" "cluster_inv cfg peers c" "i \<in> set peers" "enabled i ev c"
    and "handle_event ev (cl_member c i) = Some h"
  defines "W \<equiv> cl_votes c \<union> durable_vote i h"
  shows "member_ok cfg peers i (clear_outbox h)" "supported W (host_node h)"
    "\<forall>m \<in> outbox h. msg_ok (sort peers) W m"
    "hs_step (n_hardState (host_node (cl_member c i))) (n_hardState (host_node h))"
    "durable_vote i h = vote_in i (n_hardState (host_node h))"
    "n_hardState (host_node h) = ms_hard (hp_storage (h_parts h))"
proof -
  let ?n = "host_node (cl_member c i)"
  have ok: "member_ok cfg peers i (cl_member c i)" "supported (cl_votes c) ?n" "\<forall>m \<in> cl_net c. msg_ok (sort peers) (cl_votes c) m"
    using assms(2,3) by (auto simp: cluster_inv_def)
  have r: "roles_ok ?n" and cf: "node_id ?n = i" "n_peers ?n = sort peers"
    using ok(1) assms(1,3) by (auto simp: member_ok_def Let_def membership_def)
  have en: "node_enabled ev ?n"
    using assms(4) ok(3) by (auto simp: enabled_def node_enabled_def honest_def msg_ok_def split: event.splits)
  obtain n' where n': "node_event ev ?n = Some n'" "node_step ?n n'"
    "host_node h = acknowledged n'" "ms_hard (hp_storage (h_parts h)) = n_hardState n'"
    "outbox h = set (n_messages n')" "\<forall>m \<in> set (n_messages n'). out_ok n' m"
    "member_ok cfg peers i (clear_outbox h)"
    using handle_event_ok [OF ok(1) en assms(5)] by blast
  have dv: "durable_vote i h = vote_in i (n_hardState n')" using n'(4) by (simp add: durable_vote_eq)
  have sW: "supported W n'"
  proof (rule node_event_supported [OF r ok(2) n'(1) en])
    show "cl_votes c \<subseteq> W" "vote_in (node_id ?n) (n_hardState n') \<subseteq> W" by (auto simp: W_def dv cf)
    show "msg_ok (sort peers) (cl_votes c) m \<and> m_To m = node_id ?n" if "ev = MessageEvent m" for m
      using that assms(4) ok(3) cf by (simp add: enabled_def)
  qed
  show "member_ok cfg peers i (clear_outbox h)" by (rule n'(7))
  show "supported W (host_node h)" using sW n'(3) by simp
  show "hs_step (n_hardState ?n) (n_hardState (host_node h))" using n'(2,3) by (simp add: node_step_def)
  show "durable_vote i h = vote_in i (n_hardState (host_node h))" using dv n'(3) by simp
  show "n_hardState (host_node h) = ms_hard (hp_storage (h_parts h))" using n'(3,4) by simp
  show "\<forall>m \<in> outbox h. msg_ok (sort peers) W m"
  proof
    fix m assume "m \<in> outbox h"
    then have "out_ok n' m" using n'(5,6) by simp
    moreover have "n_peers n' = sort peers" "node_id n' = i" using n'(2) cf by (auto simp: node_step_def)
    moreover have "hs_VotedFor (n_hardState n') = 0 \<or> (i, node_term n', hs_VotedFor (n_hardState n')) \<in> W"
      by (auto simp: W_def dv vote_in_def)
    ultimately show "msg_ok (sort peers) W m" using sW by (intro out_msg_ok) auto
  qed
qed

lemma cluster_inv_update:
  assumes "cluster_inv cfg peers c" "i \<in> set peers" "cl_votes c \<subseteq> W"
    and "member_ok cfg peers i h" "supported W (host_node h)" "\<forall>m \<in> N. msg_ok (sort peers) W m"
    and "votes_ok (c\<lparr>cl_member := (cl_member c)(i := h), cl_net := cl_net c \<union> N, cl_votes := W\<rparr>) peers"
  shows "cluster_inv cfg peers (c\<lparr>cl_member := (cl_member c)(i := h), cl_net := cl_net c \<union> N, cl_votes := W\<rparr>)"
  using assms by (auto simp: cluster_inv_def intro: supported_mono msg_ok_mono)

lemma cluster_step_inv:
  assumes "membership cfg peers" "cluster_inv cfg peers c" "cluster_step cfg peers c c'"
  shows "cluster_inv cfg peers c'"
  using assms(3)
proof (cases rule: cluster_step.cases)
  case (event i ev h)
  note E = handle_event_inv [OF assms(1,2) event(2,3,4)]
  have v: "votes_ok c peers" using assms(2) by (simp add: cluster_inv_def)
  have n: "host_node (clear_outbox h) = host_node h" by (simp add: clear_outbox_def)
  show ?thesis
    unfolding event(1)
  proof (rule cluster_inv_update [OF assms(2) event(2)])
    show "votes_ok (c\<lparr>cl_member := (cl_member c)(i := clear_outbox h), cl_net := cl_net c \<union> outbox h,
        cl_votes := cl_votes c \<union> durable_vote i h\<rparr>) peers"
      using votes_ok_update [OF v event(2), of "clear_outbox h"] E(4,5) n by simp
  qed (use E n in simp_all)
next
  case (crash i ev h ms rnd n)
  note E = handle_event_inv [OF assms(1,2) crash(2,3,4)]
  let ?k = "new_member i n (hp_storage (h_parts h))"
  have v: "votes_ok c peers" using assms(2) by (simp add: cluster_inv_def)
  have k: "host_node ?k = n" by (simp add: new_member_def)
  have hard: "n_hardState n = n_hardState (host_node h)"
    using recovered_node_fields [OF crash(6)] E(6) by (auto simp: NewNode_fields)
  note N = new_member_ok [OF assms(1) crash(2,6)]
  show ?thesis
    unfolding crash(1)
  proof (rule cluster_inv_update [OF assms(2) crash(2)])
    show "votes_ok (c\<lparr>cl_member := (cl_member c)(i := ?k), cl_net := cl_net c \<union> ms,
        cl_votes := cl_votes c \<union> durable_vote i h\<rparr>) peers"
      using votes_ok_update [OF v crash(2), of ?k] E(4,5) k hard by simp
  qed (use E(3) N k crash(5) in auto)
next
  case (restart i rnd n)
  let ?h = "cl_member c i" let ?k = "new_member i n (hp_storage (h_parts ?h))"
  have v: "votes_ok c peers" and m: "member_ok cfg peers i ?h"
    using assms(2) restart(2) by (auto simp: cluster_inv_def)
  have k: "host_node ?k = n" by (simp add: new_member_def)
  have hard: "n_hardState n = n_hardState (host_node ?h)"
    using recovered_node_fields [OF restart(3)] m by (auto simp: NewNode_fields member_ok_def Let_def)
  have vi: "vote_in i (n_hardState n) \<subseteq> cl_votes c"
    using v restart(2) by (auto simp: votes_ok_def vote_in_def hard Let_def)
  note N = new_member_ok [OF assms(1) restart(2,3)]
  have "cluster_inv cfg peers (c\<lparr>cl_member := (cl_member c)(i := ?k), cl_net := cl_net c \<union> {}, cl_votes := cl_votes c\<rparr>)"
  proof (rule cluster_inv_update [OF assms(2) restart(2)])
    show "votes_ok (c\<lparr>cl_member := (cl_member c)(i := ?k), cl_net := cl_net c \<union> {}, cl_votes := cl_votes c\<rparr>) peers"
      using votes_ok_update [OF v restart(2), of ?k "cl_net c"] k hard vi by (simp add: Un_absorb2)
  qed (use N k in auto)
  then show ?thesis unfolding restart(1) by simp
qed

lemma reachable_inv:
  assumes "membership cfg peers" "reachable cfg peers c"
  shows "cluster_inv cfg peers c"
  using assms(2)
  by induction (auto intro: initial_cluster_inv [OF assms(1)] cluster_step_inv [OF assms(1)])

text \<open>Two majorities of the same membership share a member.\<close>

lemma quorum_intersect:
  assumes "distinct peers" "quorum peers Q" "quorum peers R"
  shows "Q \<inter> R \<noteq> {}"
proof
  assume "Q \<inter> R = {}"
  then have "card (Q \<union> R) = card Q + card R"
    using assms(2,3) by (intro card_Un_disjoint) (auto simp: quorum_def intro: finite_subset)
  moreover have "card (Q \<union> R) \<le> card (set peers)"
    using assms(2,3) by (intro card_mono) (auto simp: quorum_def)
  moreover have "card (set peers) = length peers" using assms(1) by (rule distinct_card)
  ultimately show False using assms(2,3) by (auto simp: quorum_def)
qed

lemma elected_unique:
  assumes "votes_ok c peers" "distinct peers" "elected (sort peers) (cl_votes c) t i" "elected (sort peers) (cl_votes c) t j"
  shows "i = j"
proof -
  obtain Q R where Q: "quorum (sort peers) Q" "\<forall>v \<in> Q. (v, t, i) \<in> cl_votes c"
    and R: "quorum (sort peers) R" "\<forall>v \<in> R. (v, t, j) \<in> cl_votes c"
    using assms(3,4) by (auto simp: elected_def)
  then obtain v where "v \<in> Q" "v \<in> R" using quorum_intersect [of "sort peers" Q R] assms(2) by auto
  with Q R assms(1) show ?thesis unfolding votes_ok_def by blast
qed

text \<open>C1. Election safety. In every reachable state of the cluster, with messages lost, duplicated
  and reordered and members crashing and recovering at any time, two members that are leader in the
  same term are the same member, and all AppendEntries requests of one term come from one member.\<close>

theorem election_safety:
  assumes "membership cfg peers" "reachable cfg peers c" "i \<in> set peers" "j \<in> set peers"
  shows "(n_role (host_node (cl_member c i)) = leader \<and> n_role (host_node (cl_member c j)) = leader
            \<and> node_term (host_node (cl_member c i)) = node_term (host_node (cl_member c j)) \<longrightarrow> i = j)
       \<and> (\<forall>m \<in> cl_net c. \<forall>m' \<in> cl_net c. \<forall>r r'. m_Body m = AppendEntries r \<and> m_Body m' = AppendEntries r'
            \<and> ae_Term r = ae_Term r' \<longrightarrow> m_From m = m_From m')"
proof (intro conjI impI ballI allI)
  note I = reachable_inv [OF assms(1,2)]
  have v: "votes_ok c peers" and d: "distinct peers"
    using I assms(1) by (auto simp: cluster_inv_def membership_def)
  have lead: "elected (sort peers) (cl_votes c) (node_term (host_node (cl_member c k))) k"
    if "k \<in> set peers" "n_role (host_node (cl_member c k)) = leader" for k
    using I assms(1) that by (auto simp: cluster_inv_def supported_def member_ok_def membership_def Let_def)
  show "i = j" if "n_role (host_node (cl_member c i)) = leader \<and> n_role (host_node (cl_member c j)) = leader
      \<and> node_term (host_node (cl_member c i)) = node_term (host_node (cl_member c j))"
    using lead [OF assms(3)] lead [OF assms(4)] that by (intro elected_unique [OF v d]) auto
  fix m m' r r'
  assume "m \<in> cl_net c" "m' \<in> cl_net c"
    and b: "m_Body m = AppendEntries r \<and> m_Body m' = AppendEntries r' \<and> ae_Term r = ae_Term r'"
  then have "msg_ok (sort peers) (cl_votes c) m" "msg_ok (sort peers) (cl_votes c) m'"
    using I by (auto simp: cluster_inv_def)
  with b show "m_From m = m_From m'"
    by (intro elected_unique [OF v d, of "ae_Term r"]) (auto simp: msg_ok_def)
qed

section \<open>A run of three members\<close>

fun run_events :: "u64 list \<Rightarrow> (u64 \<times> event) list \<Rightarrow> cluster \<Rightarrow> cluster option" where
  "run_events peers [] c = Some c"
| "run_events peers ((i, ev) # evs) c =
     (if i \<in> set peers \<and> enabled i ev c
      then case handle_event ev (cl_member c i) of
             None \<Rightarrow> None
           | Some h \<Rightarrow> run_events peers evs (c\<lparr>cl_member := (cl_member c)(i := clear_outbox h),
               cl_net := cl_net c \<union> outbox h, cl_votes := cl_votes c \<union> durable_vote i h\<rparr>)
      else None)"

lemma run_events_reachable:
  "reachable cfg peers c \<Longrightarrow> run_events peers evs c = Some c' \<Longrightarrow> reachable cfg peers c'"
  by (induction peers evs c rule: run_events.induct)
    (auto split: if_splits option.splits intro: reachable.step cluster_step.event)

definition three_cfg :: "u64 \<Rightarrow> Config" where
  "three_cfg i = \<lparr>c_ID = i, c_Peers = [1, 2, 3], c_ElectionTickMin = 1, c_ElectionTickMax = 1, c_HeartbeatTicks = 1\<rparr>"

definition vote_request :: "u64 \<Rightarrow> Message" where
  "vote_request to = \<lparr>m_From = 1, m_To = to, m_Term = 1, m_Body = RequestVote \<lparr>rv_Term = 1, rv_CandidateId = 1,
     rv_LastLogIndex = 0, rv_LastLogTerm = 0\<rparr>\<rparr>"

definition vote_reply :: "u64 \<Rightarrow> Message" where
  "vote_reply from = \<lparr>m_From = from, m_To = 1, m_Term = 1, m_Body = RequestVoteReply \<lparr>rvr_Term = 1, rvr_VoteGranted = True\<rparr>\<rparr>"

definition election_run :: "(u64 \<times> event) list" where
  "election_run = [(1, TickEvent), (2, MessageEvent (vote_request 2)), (1, MessageEvent (vote_reply 2))]"

definition leads :: "u64 \<Rightarrow> cluster \<Rightarrow> bool" where
  "leads i c \<longleftrightarrow> n_role (host_node (cl_member c i)) = leader"

lemma three_cfg_membership: "membership three_cfg [1, 2, 3]"
  by (simp add: membership_def three_cfg_def)

lemma election_run_leads:
  "case run_events [1, 2, 3] election_run (initial_cluster three_cfg (\<lambda>_. None)) of
     None \<Rightarrow> False | Some c \<Rightarrow> leads 1 c"
  by code_simp

theorem election_safety_witness:
  "\<exists>c. run_events [1, 2, 3] election_run (initial_cluster three_cfg (\<lambda>_. None)) = Some c \<and> leads 1 c
     \<and> membership three_cfg [1, 2, 3] \<and> reachable three_cfg [1, 2, 3] c
     \<and> \<not> (leads 2 c \<and> node_term (host_node (cl_member c 1)) = node_term (host_node (cl_member c 2)))"
proof -
  obtain c where c: "run_events [1, 2, 3] election_run (initial_cluster three_cfg (\<lambda>_. None)) = Some c" "leads 1 c"
    using election_run_leads by (auto split: option.splits)
  have r: "reachable three_cfg [1, 2, 3] c" by (rule run_events_reachable [OF reachable.init c(1)])
  have "\<not> (leads 2 c \<and> node_term (host_node (cl_member c 1)) = node_term (host_node (cl_member c 2)))"
    using election_safety [OF three_cfg_membership r, of 1 2] c(2) by (auto simp: leads_def)
  with c r three_cfg_membership show ?thesis by blast
qed

end
