(* ===== verification/Std_Bytes.thy ===== *)
theory Std_Bytes
  imports MQ_Prelude
begin

text \<open>
  The parts of the Go standard library the on-disk formats use, on lists of bytes:
  \<open>encoding/binary\<close> (fixed width little and big endian, unsigned varints), \<open>hash/crc32\<close> with
  the Castagnoli polynomial and \<open>hash/fnv\<close> (FNV-1a, 64 bit). The lemmas are the round trips of
  the encodings and the detection property of the checksum: changing one byte changes it.
\<close>

section \<open>Fixed width encodings\<close>

primrec put_le :: "nat \<Rightarrow> nat \<Rightarrow> bytes" where
  "put_le 0 v = []"
| "put_le (Suc k) v = of_nat (v mod 256) # put_le k (v div 256)"

primrec get_le :: "bytes \<Rightarrow> nat" where
  "get_le [] = 0"
| "get_le (b # bs) = unat b + 256 * get_le bs"

definition put_be :: "nat \<Rightarrow> nat \<Rightarrow> bytes" where
  "put_be k v = rev (put_le k v)"

abbreviation PutUint32 :: "u32 \<Rightarrow> bytes" where
  "PutUint32 v \<equiv> put_le 4 (unat v)"

abbreviation PutUint64 :: "u64 \<Rightarrow> bytes" where
  "PutUint64 v \<equiv> put_le 8 (unat v)"

lemma length_put_le [simp]: "length (put_le k v) = k"
  by (induction k arbitrary: v) simp_all

lemma unat_of_nat_byte: "v < 256 \<Longrightarrow> unat (of_nat v :: byte) = v"
  by (simp add: unsigned_of_nat take_bit_nat_eq_self)

lemma unat_byte_less [simp]: "unat (b :: byte) < 256"
  using unsigned_less [of b] by simp

lemma get_le_bound: "get_le bs < 256 ^ length bs"
proof (induction bs)
  case (Cons b bs)
  have "Suc (get_le bs) * 256 \<le> 256 ^ length bs * 256" using Cons by (intro mult_right_mono) auto
  with unat_byte_less [of b] show ?case by (simp del: unat_byte_less)
qed simp

lemma get_put_le [codec_simps]: "v < 256 ^ k \<Longrightarrow> get_le (put_le k v) = v"
proof (induction k arbitrary: v)
  case (Suc k)
  then have "v div 256 < 256 ^ k" by (simp add: less_mult_imp_div_less mult.commute)
  with Suc.IH show ?case by (simp add: unat_of_nat_byte)
qed simp

lemma put_get_le [codec_simps]: "put_le (length bs) (get_le bs) = bs"
proof (induction bs)
  case (Cons b bs)
  have "unat b < 256" by simp
  then have "(unat b + 256 * get_le bs) mod 256 = unat b" "(unat b + 256 * get_le bs) div 256 = get_le bs"
    by simp_all
  with Cons show ?case by simp
qed simp

lemma get_PutUint32 [simp]: "get_le (PutUint32 v) = unat v"
  using unsigned_less [of v] by (intro get_put_le) simp

lemma get_PutUint64 [simp]: "get_le (PutUint64 v) = unat v"
  using unsigned_less [of v] by (intro get_put_le) simp

lemma put_le_inject: "v < 256 ^ k \<Longrightarrow> w < 256 ^ k \<Longrightarrow> put_le k v = put_le k w \<longleftrightarrow> v = w"
  by (metis get_put_le)

section \<open>Unsigned varints\<close>

fun PutUvarint :: "nat \<Rightarrow> bytes" where
  "PutUvarint v = (if v < 128 then [of_nat v] else of_nat (v mod 128 + 128) # PutUvarint (v div 128))"

declare PutUvarint.simps [simp del]

text \<open>
  \<open>binary.Uvarint\<close>: value and number of bytes read; no bytes read means a truncated buffer and
  the second \<open>None\<close> an overflow of 64 bits. \<open>i\<close> counts the bytes read so far.
\<close>

datatype uvarint_result = UvOk nat nat | UvShort | UvOverflow

primrec Uvarint_from :: "nat \<Rightarrow> nat \<Rightarrow> bytes \<Rightarrow> uvarint_result" where
  "Uvarint_from i acc [] = UvShort"
| "Uvarint_from i acc (b # bs) =
     (if i = 10 then UvOverflow
      else if unat b < 128
      then (if i = 9 \<and> unat b > 1 then UvOverflow else UvOk (acc + unat b * 128 ^ i) (Suc i))
      else Uvarint_from (Suc i) (acc + (unat b - 128) * 128 ^ i) bs)"

definition Uvarint :: "bytes \<Rightarrow> uvarint_result" where
  "Uvarint data = Uvarint_from 0 0 data"

lemma length_PutUvarint_pos: "PutUvarint v \<noteq> []"
  by (subst PutUvarint.simps) simp

lemma Uvarint_from_Put:
  assumes "v * 128 ^ i < 2 ^ 64" "i \<le> 9"
  shows "Uvarint_from i acc (PutUvarint v @ rest) = UvOk (acc + v * 128 ^ i) (i + length (PutUvarint v))"
  using assms
proof (induction v arbitrary: i acc rule: PutUvarint.induct)
  case (1 v)
  show ?case
  proof (cases "v < 128")
    case True
    have "\<not> (i = 9 \<and> v > 1)"
    proof
      assume "i = 9 \<and> v > 1"
      then have "2 * 128 ^ 9 \<le> v * 128 ^ i" by simp
      with "1.prems"(1) show False by simp
    qed
    with True "1.prems"(2) show ?thesis
      by (simp add: PutUvarint.simps [of v] unat_of_nat_byte)
  next
    case False
    have i: "i < 9"
    proof (rule ccontr)
      assume "\<not> i < 9"
      with "1.prems"(2) have "i = 9" by simp
      then have "128 * 128 ^ 9 \<le> v * 128 ^ i" using False by simp
      with "1.prems"(1) show False by simp
    qed
    have b: "unat (of_nat (v mod 128 + 128) :: byte) = v mod 128 + 128"
      by (rule unat_of_nat_byte) (simp add: less_imp_le)
    have split: "v = v mod 128 + 128 * (v div 128)" by simp
    have "v div 128 * 128 ^ Suc i \<le> v * 128 ^ i"
      using split by (simp add: mult.assoc [symmetric])
    then have "v div 128 * 128 ^ Suc i < 2 ^ 64" using "1.prems"(1) by (rule le_less_trans)
    then have "Uvarint_from (Suc i) (acc + v mod 128 * 128 ^ i) (PutUvarint (v div 128) @ rest)
      = UvOk (acc + v mod 128 * 128 ^ i + v div 128 * 128 ^ Suc i) (Suc i + length (PutUvarint (v div 128)))"
      using False i by (intro "1.IH") auto
    moreover have "v mod 128 * 128 ^ i + v div 128 * 128 ^ Suc i = (v mod 128 + v div 128 * 128) * 128 ^ i"
      by (simp only: add_mult_distrib power_Suc mult.assoc)
    moreover have "v mod 128 + v div 128 * 128 = v" by simp
    ultimately show ?thesis
      using False i b by (simp add: PutUvarint.simps [of v] add.assoc)
  qed
qed

lemma Uvarint_Put [codec_simps]:
  "v < 2 ^ 64 \<Longrightarrow> Uvarint (PutUvarint v @ rest) = UvOk v (length (PutUvarint v))"
  using Uvarint_from_Put [of v 0 0 rest] by (simp add: Uvarint_def)

section \<open>CRC32-C\<close>

unbundle bit_operations_syntax

definition crc_bit :: "u32 \<Rightarrow> u32" where
  "crc_bit c = (if bit c 0 then drop_bit 1 c XOR 0x82F63B78 else drop_bit 1 c)"

definition crc_byte :: "u32 \<Rightarrow> byte \<Rightarrow> u32" where
  "crc_byte c b = (crc_bit ^^ 8) (c XOR ucast b)"

definition crc32c :: "bytes \<Rightarrow> u32" where
  "crc32c data = NOT (foldl crc_byte (NOT 0) data)"

text \<open>One step is a permutation of the register, so a difference never disappears again.\<close>

lemma bit31_poly: "bit (0x82F63B78 :: u32) 31" "\<not> bit (drop_bit 1 c :: u32) 31"
  using bit_imp_le_length [of c 32] by (auto simp: bit_drop_bit_eq)

lemma xor_cancel: "(a :: 'w::len word) XOR c = b XOR c \<Longrightarrow> a = b"
  by (metis xor.assoc xor_self_eq xor.right_neutral)

lemma inj_crc_bit: "crc_bit c = crc_bit d \<Longrightarrow> c = d"
proof -
  assume eq: "crc_bit c = crc_bit d"
  have top: "bit (crc_bit x) 31 \<longleftrightarrow> bit x 0" for x
    using bit31_poly by (simp add: crc_bit_def bit_xor_iff)
  from eq top have low: "bit c 0 \<longleftrightarrow> bit d 0" by metis
  with eq have high: "drop_bit 1 c = drop_bit 1 d"
    by (auto simp: crc_bit_def dest: xor_cancel split: if_splits)
  show "c = d"
  proof (rule bit_word_eqI)
    fix n
    assume "n < LENGTH(32)"
    show "bit c n \<longleftrightarrow> bit d n"
    proof (cases n)
      case (Suc k)
      have "bit (drop_bit 1 c) k = bit (drop_bit 1 d) k" using high by simp
      with Suc show ?thesis by (simp add: bit_drop_bit_eq)
    qed (use low in simp)
  qed
qed

lemma inj_crc_bits: "(crc_bit ^^ k) c = (crc_bit ^^ k) d \<Longrightarrow> c = d"
  by (induction k) (auto dest: inj_crc_bit)

lemma crc_byte_state: "crc_byte c b = crc_byte d b \<Longrightarrow> c = d"
  unfolding crc_byte_def by (drule inj_crc_bits) (rule xor_cancel)

lemma crc_byte_input: "crc_byte c a = crc_byte c b \<Longrightarrow> a = b"
proof -
  assume "crc_byte c a = crc_byte c b"
  then have "c XOR ucast a = c XOR ucast b" unfolding crc_byte_def by (rule inj_crc_bits)
  then have eq: "(ucast a :: u32) = ucast b" by (metis xor_cancel xor.commute)
  show "a = b"
  proof (rule bit_word_eqI)
    fix n
    assume "n < LENGTH(8)"
    moreover have "bit (ucast a :: u32) n = bit (ucast b :: u32) n" using eq by simp
    ultimately show "bit a n = bit b n" by (simp add: bit_ucast_iff)
  qed
qed

lemma foldl_crc_state: "foldl crc_byte c data = foldl crc_byte d data \<Longrightarrow> c = d"
  by (induction data arbitrary: c d) (auto dest: crc_byte_state)

lemma crc32c_detects:
  assumes "crc32c (xs @ a # ys) = crc32c (xs @ b # ys)"
  shows "a = b"
proof -
  have "foldl crc_byte (NOT 0) (xs @ a # ys) = foldl crc_byte (NOT 0) (xs @ b # ys)"
    using assms unfolding crc32c_def by (metis bit.double_compl)
  then have "crc_byte (foldl crc_byte (NOT 0) xs) a = crc_byte (foldl crc_byte (NOT 0) xs) b"
    by (simp add: foldl_crc_state)
  then show ?thesis by (rule crc_byte_input)
qed

section \<open>FNV-1a\<close>

definition fnv_prime :: u64 where
  "fnv_prime = 0x100000001b3"

definition fnv_write :: "u64 \<Rightarrow> bytes \<Rightarrow> u64" where
  "fnv_write h data = foldl (\<lambda>h b. (h XOR ucast b) * fnv_prime) h data"

definition fnv_offset :: u64 where
  "fnv_offset = 0xcbf29ce484222325"

lemma fnv_write_append: "fnv_write h (xs @ ys) = fnv_write (fnv_write h xs) ys"
  by (simp add: fnv_write_def)

end
