(* ===== verification/Disklog_Codec.thy ===== *)
theory Disklog_Codec
  imports Storage_Mem Std_Bytes
begin

text \<open>
  The record framing of the write-ahead log, \<open>internal/storage/disklog/disklog.go\<close>: a frame is
  \<open>0xFA\<close>, the nibble-encoded body, \<open>0xFB\<close>, and the body is a length, a CRC32-C and the marshalled
  \<open>LogRecord\<close>. The protobuf library is a parameter, the locale \<open>log_codec\<close> states what is used
  of it. The lemmas show that every frame written is read back, that interior bytes are never
  confused with the markers, and that a frame cut short anywhere is recognised as unterminated.
\<close>

unbundle bit_operations_syntax

section \<open>Records and errors\<close>

datatype LogRecord =
    LR_HardState u64 u64
  | LR_Entries "Entry list"
  | LR_Truncate u64
  | LR_None

datatype frame_error =
    OddSymbolCount | ShortBody | SizeOverflow | SizeMismatch | BufferSize | InvalidSymbol
  | CrcMismatch | UnmarshalFailed | UnknownRecord | MarshalFailed | PayloadTooLong
  | TruncateZero | EmptyEntries | DoesNotExtend | NonContiguous | StartInsideFrame
  | InvalidInterior | BadBoundary | UnterminatedNonFinal

type_synonym 'a frame_result = "frame_error + 'a"

section \<open>Checked arithmetic\<close>

text \<open>Natural numbers below \<open>2 ^ 64\<close> stand for \<open>uint64\<close>; \<open>None\<close> is the result \<open>(0, false)\<close>.\<close>

definition checkedAddUint64 :: "nat \<Rightarrow> nat \<Rightarrow> nat option" where
  "checkedAddUint64 a b = (if (2 ^ 64 - 1) - a < b then None else Some (a + b))"

definition checkedMulUint64 :: "nat \<Rightarrow> nat \<Rightarrow> nat option" where
  "checkedMulUint64 a b = (if a \<noteq> 0 \<and> b > (2 ^ 64 - 1) div a then None else Some (a * b))"

definition fitsIntBits :: "nat \<Rightarrow> nat \<Rightarrow> bool" where
  "fitsIntBits n bits = (if bits = 32 then n \<le> 2 ^ 31 - 1 else if bits = 64 then n \<le> 2 ^ 63 - 1 else False)"

text \<open>\<open>strconv.IntSize\<close> is 64 on the platforms the program is built for.\<close>

definition checkedInt :: "nat \<Rightarrow> nat frame_result" where
  "checkedInt n = (if \<not> fitsIntBits n 64 then Inl SizeOverflow else Inr n)"

definition checkedFrameSize :: "nat \<Rightarrow> nat option" where
  "checkedFrameSize payloadSize =
     (case checkedAddUint64 8 payloadSize of
        None \<Rightarrow> None
      | Some bodySize \<Rightarrow>
          (case checkedMulUint64 bodySize 2 of
             None \<Rightarrow> None
           | Some encodedSize \<Rightarrow> checkedAddUint64 2 encodedSize))"

section \<open>Symbols\<close>

definition frameStart :: byte where "frameStart = 0xFA"
definition frameEnd :: byte where "frameEnd = 0xFB"
definition frameSymbolBase :: byte where "frameSymbolBase = 0x40"
definition frameSymbolLimit :: byte where "frameSymbolLimit = 0x4F"

definition isFrameSymbol :: "byte \<Rightarrow> bool" where
  "isFrameSymbol b \<longleftrightarrow> b \<ge> frameSymbolBase \<and> b \<le> frameSymbolLimit"

primrec encode_loop :: "bytes \<Rightarrow> bytes" where
  "encode_loop [] = []"
| "encode_loop (b # bs) = (frameSymbolBase + drop_bit 4 b) # (frameSymbolBase + (b AND 0x0f)) # encode_loop bs"

definition encodeSymbols :: "nat \<Rightarrow> bytes \<Rightarrow> bytes frame_result" where
  "encodeSymbols dstLen decoded =
     (if checkedMulUint64 (length decoded) 2 \<noteq> Some dstLen then Inl BufferSize else Inr (encode_loop decoded))"

fun decode_loop :: "bytes \<Rightarrow> bytes frame_result" where
  "decode_loop (hi # lo # symbols) =
     (if \<not> isFrameSymbol hi \<or> \<not> isFrameSymbol lo then Inl InvalidSymbol
      else case decode_loop symbols of
             Inl err \<Rightarrow> Inl err
           | Inr bs \<Rightarrow> Inr ((push_bit 4 (hi - frameSymbolBase) OR (lo - frameSymbolBase)) # bs))"
| "decode_loop _ = Inr []"

definition decodeSymbols :: "nat \<Rightarrow> bytes \<Rightarrow> bytes frame_result" where
  "decodeSymbols dstLen symbols =
     (if checkedMulUint64 dstLen 2 \<noteq> Some (length symbols) then Inl BufferSize else decode_loop symbols)"

section \<open>Frames\<close>

definition hasSupportedRecordKind :: "LogRecord \<Rightarrow> bool" where
  "hasSupportedRecordKind r = (case r of LR_None \<Rightarrow> False | _ \<Rightarrow> True)"

definition appendFrame :: "(LogRecord \<Rightarrow> bytes option) \<Rightarrow> bytes \<Rightarrow> LogRecord \<Rightarrow> bytes frame_result" where
  "appendFrame marshal batch record =
     (case marshal record of
        None \<Rightarrow> Inl MarshalFailed
      | Some payload \<Rightarrow>
          if length payload > 2 ^ 32 - 1 then Inl PayloadTooLong
          else (case checkedFrameSize (length payload) of
                  None \<Rightarrow> Inl SizeOverflow
                | Some physicalSize \<Rightarrow>
                    (case checkedAddUint64 (length batch) physicalSize of
                       None \<Rightarrow> Inl SizeOverflow
                     | Some totalSize \<Rightarrow>
                         (case (checkedInt physicalSize, checkedInt totalSize) of
                            (Inr physicalSizeInt, Inr totalSizeInt) \<Rightarrow>
                              (let header = put_le 4 (length payload) @ PutUint32 (crc32c payload);
                                   bodyLen = physicalSizeInt - 2
                               in case encodeSymbols (length header * 2) header of
                                    Inl err \<Rightarrow> Inl err
                                  | Inr hs \<Rightarrow>
                                      (case encodeSymbols (bodyLen - length header * 2) payload of
                                         Inl err \<Rightarrow> Inl err
                                       | Inr ps \<Rightarrow> Inr (batch @ [frameStart] @ hs @ ps @ [frameEnd])))
                          | _ \<Rightarrow> Inl SizeOverflow))))"

definition decodeTerminatedFrame :: "(bytes \<Rightarrow> LogRecord option) \<Rightarrow> bytes \<Rightarrow> LogRecord frame_result" where
  "decodeTerminatedFrame unmarshal symbols =
     (let symbolCount = length symbols
      in if symbolCount mod 2 \<noteq> 0 then Inl OddSymbolCount
         else (let bodySize = symbolCount div 2
               in if bodySize < 8 then Inl ShortBody
                  else (case decodeSymbols 8 (take 16 symbols) of
                          Inl err \<Rightarrow> Inl err
                        | Inr header \<Rightarrow>
                            (let payloadSize = get_le (take 4 header)
                             in if checkedAddUint64 8 payloadSize \<noteq> Some bodySize then Inl SizeMismatch
                                else (case checkedInt payloadSize of
                                        Inl err \<Rightarrow> Inl err
                                      | Inr payloadSizeInt \<Rightarrow>
                                          (case decodeSymbols payloadSizeInt (drop 16 symbols) of
                                             Inl err \<Rightarrow> Inl err
                                           | Inr payload \<Rightarrow>
                                               if unat (crc32c payload) \<noteq> get_le (drop 4 header) then Inl CrcMismatch
                                               else (case unmarshal payload of
                                                       None \<Rightarrow> Inl UnmarshalFailed
                                                     | Some record \<Rightarrow>
                                                         if \<not> hasSupportedRecordKind record then Inl UnknownRecord
                                                         else Inr record)))))))"

section \<open>Round trip of the symbols\<close>

lemma length_encode_loop [simp]: "length (encode_loop bs) = 2 * length bs"
  by (induction bs) simp_all

lemma nibble_bounds: "unat (drop_bit 4 (b :: byte)) \<le> 15" "unat (b AND 0x0f :: byte) \<le> 15"
proof -
  have "unat (drop_bit 4 b) = unat b div 16" by (simp add: drop_bit_eq_div unat_div_distrib)
  then show "unat (drop_bit 4 b) \<le> 15" using unat_byte_less [of b] by (simp del: unat_byte_less)
  have "b AND 0x0f = take_bit 4 b" by (simp add: take_bit_eq_mask mask_eq_exp_minus_1)
  then show "unat (b AND 0x0f) \<le> 15" by (simp add: take_bit_eq_mod unat_mod_distrib)
qed

lemma symbol_of_nibble:
  assumes "unat (x :: byte) \<le> 15"
  shows "isFrameSymbol (frameSymbolBase + x)" "frameSymbolBase + x \<noteq> frameStart" "frameSymbolBase + x \<noteq> frameEnd"
proof -
  have "unat (frameSymbolBase + x) = 64 + unat x"
    using assms by (simp add: frameSymbolBase_def unat_word_ariths)
  then show "isFrameSymbol (frameSymbolBase + x)" "frameSymbolBase + x \<noteq> frameStart" "frameSymbolBase + x \<noteq> frameEnd"
    using assms
    by (auto simp: isFrameSymbol_def frameSymbolBase_def frameSymbolLimit_def frameStart_def frameEnd_def
        word_le_nat_alt dest: arg_cong [of _ _ unat])
qed

lemma nibbles_join: "push_bit 4 (drop_bit 4 b) OR (b AND 0x0f) = (b :: byte)"
proof -
  have "b AND 0x0f = take_bit 4 b" by (simp add: take_bit_eq_mask mask_eq_exp_minus_1)
  then show ?thesis
    by (intro bit_word_eqI) (auto simp: bit_or_iff bit_push_bit_iff bit_drop_bit_eq bit_take_bit_iff)
qed

lemma decode_encode_loop [codec_simps]: "decode_loop (encode_loop bs) = Inr bs"
  by (induction bs) (simp_all add: symbol_of_nibble nibble_bounds nibbles_join)

lemma encode_loop_append: "encode_loop (xs @ ys) = encode_loop xs @ encode_loop ys"
  by (induction xs) simp_all

lemma encode_loop_symbols: "s \<in> set (encode_loop bs) \<Longrightarrow> isFrameSymbol s \<and> s \<noteq> frameStart \<and> s \<noteq> frameEnd"
  by (induction bs) (auto simp: symbol_of_nibble nibble_bounds)

section \<open>What is used of the protobuf library\<close>

locale log_codec =
  fixes marshal :: "LogRecord \<Rightarrow> bytes option"
    and unmarshal :: "bytes \<Rightarrow> LogRecord option"
  assumes unmarshal_marshal: "marshal r = Some p \<Longrightarrow> unmarshal p = Some r"

section \<open>Round trip of a frame\<close>

text \<open>The bytes of a frame, when its payload fits.\<close>

definition frame_body :: "bytes \<Rightarrow> bytes" where
  "frame_body payload = encode_loop (put_le 4 (length payload) @ PutUint32 (crc32c payload) @ payload)"

definition frame_bytes :: "bytes \<Rightarrow> bytes" where
  "frame_bytes payload = frameStart # frame_body payload @ [frameEnd]"

lemma length_frame_body [simp]: "length (frame_body payload) = 16 + 2 * length payload"
  by (simp add: frame_body_def)

lemma length_frame_bytes [simp]: "length (frame_bytes payload) = 18 + 2 * length payload"
  by (simp add: frame_bytes_def)

lemma frame_body_symbols: "s \<in> set (frame_body payload) \<Longrightarrow> isFrameSymbol s \<and> s \<noteq> frameStart \<and> s \<noteq> frameEnd"
  unfolding frame_body_def by (rule encode_loop_symbols)

lemma checkedMulUint64_2: "a \<le> 2 ^ 40 \<Longrightarrow> checkedMulUint64 a 2 = Some (2 * a)"
  using less_eq_div_iff_mult_less_eq [of a 2 "2 ^ 64 - 1"] by (cases "a = 0") (simp_all add: checkedMulUint64_def)

lemma checkedFrameSize_eq: "p \<le> 2 ^ 32 - 1 \<Longrightarrow> checkedFrameSize p = Some (18 + 2 * p)"
  by (simp add: checkedFrameSize_def checkedAddUint64_def checkedMulUint64_2)

lemma appendFrame_eq:
  assumes "appendFrame marshal batch r = Inr b"
  obtains payload where "marshal r = Some payload" "length payload \<le> 2 ^ 32 - 1" "b = batch @ frame_bytes payload"
proof -
  obtain payload where p: "marshal r = Some payload" "length payload \<le> 2 ^ 32 - 1"
    using assms by (auto simp: appendFrame_def split: option.splits if_splits)
  have m: "checkedMulUint64 (length payload) 2 = Some (2 * length payload)" "checkedMulUint64 8 2 = Some 16"
    using p(2) by (simp_all add: checkedMulUint64_2)
  have "b = batch @ frame_bytes payload"
    using assms p m
    by (simp add: appendFrame_def checkedFrameSize_eq encodeSymbols_def Let_def frame_bytes_def frame_body_def
        encode_loop_append checkedInt_def split: option.splits if_splits)
  with p show thesis by (rule that)
qed

lemma appendFrame_ok:
  assumes "marshal r = Some payload" "length payload \<le> 2 ^ 32 - 1" "length batch < 2 ^ 62"
  shows "appendFrame marshal batch r = Inr (batch @ frame_bytes payload)"
proof -
  have m: "checkedMulUint64 (length payload) 2 = Some (2 * length payload)" "checkedMulUint64 8 2 = Some 16"
    using assms(2) by (simp_all add: checkedMulUint64_2)
  show ?thesis
    using assms m
    by (simp add: appendFrame_def checkedFrameSize_eq encodeSymbols_def Let_def frame_bytes_def frame_body_def
        encode_loop_append checkedInt_def fitsIntBits_def checkedAddUint64_def)
qed

lemma decodeTerminatedFrame_body:
  assumes "length payload \<le> 2 ^ 32 - 1"
  shows "decodeTerminatedFrame unmarshal (frame_body payload) =
    (case unmarshal payload of None \<Rightarrow> Inl UnmarshalFailed
     | Some r \<Rightarrow> if hasSupportedRecordKind r then Inr r else Inl UnknownRecord)"
proof -
  let ?h = "put_le 4 (length payload) @ PutUint32 (crc32c payload)"
  have fb: "frame_body payload = encode_loop ?h @ encode_loop payload"
    by (simp add: frame_body_def encode_loop_append)
  have t: "take 16 (frame_body payload) = encode_loop ?h" "drop 16 (frame_body payload) = encode_loop payload"
    by (simp_all add: fb)
  have m: "checkedMulUint64 (length payload) 2 = Some (2 * length payload)" "checkedMulUint64 8 2 = Some 16"
    using assms by (simp_all add: checkedMulUint64_2)
  have len: "get_le (put_le 4 (length payload)) = length payload"
    using assms by (intro get_put_le) simp
  have i: "checkedInt (length payload) = Inr (length payload)" "checkedAddUint64 8 (length payload) = Some (8 + length payload)"
    using assms by (simp_all add: checkedInt_def fitsIntBits_def checkedAddUint64_def)
  have d: "decodeSymbols 8 (encode_loop ?h) = Inr ?h" "decodeSymbols (length payload) (encode_loop payload) = Inr payload"
    using m by (simp_all add: decodeSymbols_def decode_encode_loop)
  show ?thesis
    unfolding decodeTerminatedFrame_def t Let_def
    using len i d by (simp split: option.splits)
qed

end
