(* ===== verification/Disklog.thy ===== *)
theory Disklog
  imports Disklog_Codec "HOL-Library.AList"
begin

text \<open>
  The durable log of \<open>internal/storage/disklog/disklog.go\<close>: batches, segment files, rotation,
  recovery with removal of a torn tail, and the read mirror. A directory is an association list from
  file names to contents. Which system calls of one call fail, and how many bytes a \<open>Write\<close> takes,
  is the argument \<open>io\<close>. The lemmas show that recovery rebuilds exactly the mirror, that a crash at
  any byte of a batch leaves a log that recovers to the effect of a prefix of the records of that
  batch, and that the log satisfies the storage contract.
\<close>

section \<open>The mirror\<close>

type_synonym mirror = "HardState \<times> Entry list"

definition empty_mirror :: mirror where
  "empty_mirror = (\<lparr>hs_Term = 0, hs_VotedFor = 0\<rparr>, [])"

definition truncateEntries :: "u64 \<Rightarrow> Entry list \<Rightarrow> Entry list" where
  "truncateEntries index es = take (cut_at index es) es"

definition last_index :: "Entry list \<Rightarrow> u64" where
  "last_index es = snd (firstLast es)"

fun ascending :: "Entry list \<Rightarrow> bool" where
  "ascending (e # f # es) \<longleftrightarrow> e_Index f = e_Index e + 1 \<and> ascending (f # es)"
| "ascending _ \<longleftrightarrow> True"

definition checkContiguous :: "Entry list \<Rightarrow> u64 \<Rightarrow> frame_error option" where
  "checkContiguous entries lastIx =
     (if entries = [] then None
      else (let first = e_Index (hd entries)
            in if first = 0 \<or> first > lastIx + 1 then Some DoesNotExtend
               else if \<not> ascending entries then Some NonContiguous
               else None))"

definition applyRecord :: "LogRecord \<Rightarrow> mirror \<Rightarrow> mirror frame_result" where
  "applyRecord record m =
     (case record of
        LR_HardState t v \<Rightarrow> Inr (\<lparr>hs_Term = t, hs_VotedFor = v\<rparr>, snd m)
      | LR_Truncate from \<Rightarrow> if from = 0 then Inl TruncateZero else Inr (fst m, truncateEntries from (snd m))
      | LR_Entries incoming \<Rightarrow>
          if incoming = [] then Inl EmptyEntries
          else (let last = last_index (snd m); first = e_Index (hd incoming)
                in if first = 0 \<or> first > last + 1 then Inl DoesNotExtend
                   else if \<not> ascending incoming then Inl NonContiguous
                   else Inr (fst m, truncateEntries first (snd m) @
                          map (\<lambda>e. \<lparr>e_Index = e_Index e, e_Term = e_Term e, e_Type = e_Type e, e_Data = e_Data e\<rparr>) incoming))
      | LR_None \<Rightarrow> Inl UnknownRecord)"

section \<open>Batches\<close>

definition entry_pointers :: "Entry list \<Rightarrow> Entry list" where
  "entry_pointers entries =
     map (\<lambda>e. \<lparr>e_Index = e_Index e, e_Term = e_Term e, e_Type = e_Type e, e_Data = e_Data e\<rparr>) entries"

definition encodeBatch :: "(LogRecord \<Rightarrow> bytes option) \<Rightarrow> HardState option \<Rightarrow> Entry list \<Rightarrow> u64 \<Rightarrow> bytes frame_result" where
  "encodeBatch marshal hs entries lastIx =
     (case (case hs of None \<Rightarrow> Inr []
            | Some h \<Rightarrow> appendFrame marshal [] (LR_HardState (hs_Term h) (hs_VotedFor h))) of
        Inl err \<Rightarrow> Inl err
      | Inr batch \<Rightarrow>
          if entries = [] then Inr batch
          else (case (if e_Index (hd entries) \<le> lastIx
                      then appendFrame marshal batch (LR_Truncate (e_Index (hd entries))) else Inr batch) of
                  Inl err \<Rightarrow> Inl err
                | Inr batch \<Rightarrow> appendFrame marshal batch (LR_Entries (entry_pointers entries))))"

section \<open>Replay\<close>

datatype scan_result = Terminated bytes bytes | Unterminated | ScanError frame_error

primrec scan_frame :: "bytes \<Rightarrow> scan_result" where
  "scan_frame [] = Unterminated"
| "scan_frame (b # bs) =
     (if b = frameEnd then Terminated [] bs
      else if b = frameStart then ScanError StartInsideFrame
      else if \<not> isFrameSymbol b then ScanError InvalidInterior
      else case scan_frame bs of
             Terminated symbols rest \<Rightarrow> Terminated (b # symbols) rest
           | r \<Rightarrow> r)"

lemma scan_frame_length: "scan_frame bs = Terminated symbols rest \<Longrightarrow> length bs = length symbols + 1 + length rest"
  by (induction bs arbitrary: symbols) (auto split: if_splits scan_result.splits)

text \<open>
  The replay of one segment from \<open>offset\<close> on. The second component of the result is the offset at
  which a torn tail has to be cut off.
\<close>

function replay :: "(bytes \<Rightarrow> LogRecord option) \<Rightarrow> bool \<Rightarrow> bytes \<Rightarrow> mirror \<Rightarrow> nat \<Rightarrow> (mirror \<times> nat option) frame_result" where
  "replay unmarshal final [] m offset = Inr (m, None)"
| "replay unmarshal final (b # bs) m offset =
     (if b \<noteq> frameStart then Inl BadBoundary
      else case scan_frame bs of
             ScanError err \<Rightarrow> Inl err
           | Unterminated \<Rightarrow> if \<not> final then Inl UnterminatedNonFinal else Inr (m, Some offset)
           | Terminated symbols rest \<Rightarrow>
               (case decodeTerminatedFrame unmarshal symbols of
                  Inl err \<Rightarrow> Inl err
                | Inr record \<Rightarrow>
                    (case applyRecord record m of
                       Inl err \<Rightarrow> Inl err
                     | Inr m' \<Rightarrow> replay unmarshal final rest m' (offset + 2 + length symbols))))"
  by pat_completeness auto
termination
  by (relation "measure (\<lambda>(u, fl, buf, m, i). length buf)") (auto dest: scan_frame_length)

section \<open>Segment files\<close>

definition digit :: "nat \<Rightarrow> char" where
  "digit d = char_of (48 + d)"

fun decimal :: "nat \<Rightarrow> string" where
  "decimal n = (if n < 10 then [digit n] else decimal (n div 10) @ [digit (n mod 10)])"

declare decimal.simps [simp del]

definition segmentName :: "u64 \<Rightarrow> string" where
  "segmentName seq = (let s = decimal (unat seq) in replicate (6 - length s) (digit 0) @ s @ ''.seg'')"

definition is_digit :: "char \<Rightarrow> bool" where
  "is_digit c \<longleftrightarrow> 48 \<le> (of_char c :: nat) \<and> (of_char c :: nat) \<le> 57"

definition parse_decimal :: "string \<Rightarrow> nat" where
  "parse_decimal s = foldl (\<lambda>a c. a * 10 + (of_char c - 48)) 0 s"

definition parseSegmentName :: "string \<Rightarrow> u64 option" where
  "parseSegmentName name =
     (let n = length name - 4; digits = take n name
      in if length name < 4 \<or> drop n name \<noteq> ''.seg'' \<or> length digits < 6 then None
         else if \<not> list_all is_digit digits then None
         else if parse_decimal digits \<ge> 2 ^ 64 \<or> parse_decimal digits = 0 then None
         else Some (of_nat (parse_decimal digits)))"

definition seq_range :: "nat \<Rightarrow> u64 list" where
  "seq_range n = map (\<lambda>i. of_nat (Suc i)) [0..<n]"

text \<open>System calls that can fail, and the errors of the log.\<close>

datatype disk_op =
    OpenDir | ReadDir | CreateSegment u64 | SyncDir | CloseSegment u64 | WriteSegment u64 | SyncSegment u64
  | ReadSegment u64 | ReopenSegment u64 | StatSegment u64 | OpenForSync u64 | CloseSynced u64
  | CloseDir | OpenTail u64 | TruncateTail u64 | SyncTail u64 | CloseTail u64

datatype disk_error =
    ErrClosed | Poisoned disk_error | BatchError frame_error | IoError disk_op | ShortWrite
  | SequenceOverflow | SegmentGap | Corrupt frame_error | NegativeRotateSize

type_synonym directory = "(string \<times> bytes) list"

record io =
  io_fails :: "disk_op \<Rightarrow> bool"
  io_written :: nat

record DiskLog =
  dl_dir :: directory
  dl_rotateSize :: int
  dl_active :: bool
  dl_activeSeq :: u64
  dl_activeSize :: int
  dl_hard :: HardState
  dl_entries :: "Entry list"
  dl_failed :: "disk_error option"
  dl_closed :: bool

definition listSegments :: "string list \<Rightarrow> disk_error + u64 list" where
  "listSegments names =
     (let seqs = sort (List.map_filter parseSegmentName names)
      in if seqs = seq_range (length seqs) then Inr seqs else Inl SegmentGap)"

definition createSegment :: "io \<Rightarrow> u64 \<Rightarrow> directory \<Rightarrow> directory \<times> disk_error option" where
  "createSegment io seq dir =
     (if io_fails io (CreateSegment seq) \<or> map_of dir (segmentName seq) \<noteq> None
      then (dir, Some (IoError (CreateSegment seq)))
      else (let dir = AList.update (segmentName seq) [] dir
            in if io_fails io SyncDir then (dir, Some (IoError SyncDir)) else (dir, None)))"

definition rotateIfNeeded :: "io \<Rightarrow> int \<Rightarrow> DiskLog \<Rightarrow> DiskLog \<times> disk_error option" where
  "rotateIfNeeded io batchSize l =
     (if dl_activeSize l = 0 \<or> (dl_activeSize l \<le> dl_rotateSize l \<and> batchSize \<le> dl_rotateSize l - dl_activeSize l)
      then (l, None)
      else if io_fails io (CloseSegment (dl_activeSeq l)) then (l, Some (IoError (CloseSegment (dl_activeSeq l))))
      else (let l = l\<lparr>dl_active := False\<rparr>
            in if dl_activeSeq l = max_u64 then (l, Some SequenceOverflow)
               else (case createSegment io (dl_activeSeq l + 1) (dl_dir l) of
                       (dir, Some err) \<Rightarrow> (l\<lparr>dl_dir := dir\<rparr>, Some err)
                     | (dir, None) \<Rightarrow>
                         (l\<lparr>dl_dir := dir, dl_active := True, dl_activeSeq := dl_activeSeq l + 1, dl_activeSize := 0\<rparr>, None))))"

definition append_file :: "string \<Rightarrow> bytes \<Rightarrow> directory \<Rightarrow> directory" where
  "append_file name bs dir = AList.map_entry name (\<lambda>c. c @ bs) dir"

text \<open>\<open>DiskLog.Save\<close>. A negative batch size, which \<open>rotateIfNeeded\<close> rejects first, does not arise from a length.\<close>

definition DiskLog_Save :: "(LogRecord \<Rightarrow> bytes option) \<Rightarrow> io \<Rightarrow> HardState option \<Rightarrow> Entry list \<Rightarrow> DiskLog
    \<Rightarrow> DiskLog \<times> disk_error option" where
  "DiskLog_Save marshal io hs entries l =
     (if dl_closed l then (l, Some ErrClosed)
      else (case dl_failed l of
        Some err \<Rightarrow> (l, Some (Poisoned err))
      | None \<Rightarrow>
          if hs = None \<and> entries = [] then (l, None)
          else (case checkContiguous entries (last_index (dl_entries l)) of
            Some err \<Rightarrow> (l, Some (BatchError err))
          | None \<Rightarrow>
              (case encodeBatch marshal hs entries (last_index (dl_entries l)) of
                 Inl err \<Rightarrow> (l, Some (BatchError err))
               | Inr batch \<Rightarrow>
                   (case rotateIfNeeded io (int (length batch)) l of
                      (l, Some err) \<Rightarrow> (l\<lparr>dl_failed := Some err\<rparr>, Some err)
                    | (l, None) \<Rightarrow>
                        (let op = WriteSegment (dl_activeSeq l);
                             n = min (io_written io) (length batch);
                             l = l\<lparr>dl_dir := append_file (segmentName (dl_activeSeq l)) (take n batch) (dl_dir l)\<rparr>
                         in if io_fails io op then (l\<lparr>dl_failed := Some (IoError op)\<rparr>, Some (IoError op))
                            else if n \<noteq> length batch then (l\<lparr>dl_failed := Some ShortWrite\<rparr>, Some ShortWrite)
                            else if io_fails io (SyncSegment (dl_activeSeq l))
                            then (l\<lparr>dl_failed := Some (IoError (SyncSegment (dl_activeSeq l)))\<rparr>,
                                  Some (IoError (SyncSegment (dl_activeSeq l))))
                            else (l\<lparr>dl_activeSize := dl_activeSize l + int (length batch),
                                    dl_hard := (case hs of None \<Rightarrow> dl_hard l | Some h \<Rightarrow> h),
                                    dl_entries := (if entries \<noteq> []
                                      then truncateEntries (e_Index (hd entries)) (dl_entries l) @ cloneEntries entries
                                      else dl_entries l)\<rparr>, None)))))))"

section \<open>Recovery\<close>

definition replaySegment :: "(bytes \<Rightarrow> LogRecord option) \<Rightarrow> io \<Rightarrow> u64 \<Rightarrow> bool \<Rightarrow> directory \<times> mirror
    \<Rightarrow> (directory \<times> disk_error) + (directory \<times> mirror)" where
  "replaySegment unmarshal io seq final dm =
     (case dm of (dir, m) \<Rightarrow>
        if io_fails io (ReadSegment seq) then Inl (dir, IoError (ReadSegment seq))
        else (case map_of dir (segmentName seq) of
           None \<Rightarrow> Inl (dir, IoError (ReadSegment seq))
         | Some buf \<Rightarrow>
             (case replay unmarshal final buf m 0 of
                Inl err \<Rightarrow> Inl (dir, Corrupt err)
              | Inr (m, None) \<Rightarrow> Inr (dir, m)
              | Inr (m, Some offset) \<Rightarrow>
                  if io_fails io (OpenTail seq) then Inl (dir, IoError (OpenTail seq))
                  else if io_fails io (TruncateTail seq) then Inl (dir, IoError (TruncateTail seq))
                  else (let dir = AList.update (segmentName seq) (take offset buf) dir
                        in if io_fails io (SyncTail seq) then Inl (dir, IoError (SyncTail seq))
                           else if io_fails io (CloseTail seq) then Inl (dir, IoError (CloseTail seq))
                           else Inr (dir, m)))))"

fun replaySegments :: "(bytes \<Rightarrow> LogRecord option) \<Rightarrow> io \<Rightarrow> u64 list \<Rightarrow> directory \<times> mirror
    \<Rightarrow> (directory \<times> disk_error) + (directory \<times> mirror)" where
  "replaySegments unmarshal io [] dm = Inr dm"
| "replaySegments unmarshal io (seq # seqs) dm =
     (case replaySegment unmarshal io seq (seqs = []) dm of
        Inl err \<Rightarrow> Inl err
      | Inr dm \<Rightarrow> replaySegments unmarshal io seqs dm)"

definition syncSegment :: "io \<Rightarrow> u64 \<Rightarrow> disk_error option" where
  "syncSegment io seq =
     (if io_fails io (OpenForSync seq) then Some (IoError (OpenForSync seq))
      else if io_fails io (SyncSegment seq) then Some (IoError (SyncSegment seq))
      else if io_fails io (CloseSynced seq) then Some (IoError (CloseSynced seq))
      else None)"

primrec sync_all :: "io \<Rightarrow> u64 list \<Rightarrow> disk_error option" where
  "sync_all io [] = None"
| "sync_all io (seq # seqs) = (case syncSegment io seq of Some err \<Rightarrow> Some err | None \<Rightarrow> sync_all io seqs)"

definition recover :: "(bytes \<Rightarrow> LogRecord option) \<Rightarrow> io \<Rightarrow> u64 list \<Rightarrow> DiskLog \<Rightarrow> DiskLog \<times> disk_error option" where
  "recover unmarshal io seqs l =
     (case replaySegments unmarshal io seqs (dl_dir l, (dl_hard l, dl_entries l)) of
        Inl (dir, err) \<Rightarrow> (l\<lparr>dl_dir := dir\<rparr>, Some err)
      | Inr (dir, hard, entries) \<Rightarrow>
          (let l = l\<lparr>dl_dir := dir, dl_hard := hard, dl_entries := entries\<rparr>;
               seq = last seqs
           in if io_fails io (ReopenSegment seq) then (l, Some (IoError (ReopenSegment seq)))
              else if io_fails io (StatSegment seq) then (l, Some (IoError (StatSegment seq)))
              else (let l = l\<lparr>dl_active := True, dl_activeSeq := seq,
                              dl_activeSize := int (length (the (map_of dir (segmentName seq))))\<rparr>
                    in case sync_all io (butlast seqs) of
                         Some err \<Rightarrow> (l, Some err)
                       | None \<Rightarrow>
                           if io_fails io (SyncSegment seq) then (l, Some (IoError (SyncSegment seq)))
                           else if io_fails io SyncDir then (l, Some (IoError SyncDir))
                           else (l, None))))"

text \<open>
  \<open>Open\<close> on a directory. The directory is part of the result, also of a failed call, because
  recovery may already have cut off a torn tail.
\<close>

definition Open :: "(bytes \<Rightarrow> LogRecord option) \<Rightarrow> io \<Rightarrow> int \<Rightarrow> directory \<Rightarrow> directory \<times> (disk_error + DiskLog)" where
  "Open unmarshal io rotateSize dir =
     (if rotateSize < 0 then (dir, Inl NegativeRotateSize)
      else if io_fails io OpenDir then (dir, Inl (IoError OpenDir))
      else (let l = \<lparr>dl_dir = dir, dl_rotateSize = (if rotateSize = 0 then 8 * 2 ^ 20 else rotateSize),
                     dl_active = False, dl_activeSeq = 0, dl_activeSize = 0,
                     dl_hard = fst empty_mirror, dl_entries = snd empty_mirror, dl_failed = None, dl_closed = False\<rparr>
            in case (if io_fails io ReadDir then Inl (IoError ReadDir) else listSegments (map fst dir)) of
                 Inl err \<Rightarrow> (dir, Inl err)
               | Inr seqs \<Rightarrow>
                   (let (l, err) =
                      (if seqs = []
                       then (case createSegment io 1 dir of
                               (dir, err) \<Rightarrow> (l\<lparr>dl_dir := dir, dl_active := (err = None), dl_activeSeq := 1, dl_activeSize := 0\<rparr>, err))
                       else recover unmarshal io seqs l)
                    in (dl_dir l, case err of Some e \<Rightarrow> Inl e | None \<Rightarrow> Inr l))))"

section \<open>Reading and closing\<close>

definition DiskLog_HardState :: "DiskLog \<Rightarrow> storage_error + HardState" where
  "DiskLog_HardState l = Inr (dl_hard l)"

definition DiskLog_Entries :: "u64 \<Rightarrow> u64 \<Rightarrow> DiskLog \<Rightarrow> (storage_error + Entry list) option" where
  "DiskLog_Entries lo hi l =
     (let (first, last) = firstLast (dl_entries l)
      in if lo > hi \<or> lo < first \<or> hi > last + 1 then Some (Inl ErrOutOfBounds)
         else (let start = unat (lo - first); stop = unat (hi - first)
               in if start \<le> stop \<and> stop \<le> length (dl_entries l)
                  then Some (Inr (cloneEntries (take (stop - start) (drop start (dl_entries l)))))
                  else None))"

definition DiskLog_FirstIndex :: "DiskLog \<Rightarrow> u64" where
  "DiskLog_FirstIndex l = fst (firstLast (dl_entries l))"

definition DiskLog_LastIndex :: "DiskLog \<Rightarrow> u64" where
  "DiskLog_LastIndex l = last_index (dl_entries l)"

definition DiskLog_Close :: "io \<Rightarrow> DiskLog \<Rightarrow> DiskLog \<times> disk_error option" where
  "DiskLog_Close io l =
     (if dl_closed l then (l, None)
      else (l\<lparr>dl_closed := True\<rparr>,
            if dl_active l \<and> io_fails io (CloseSegment (dl_activeSeq l)) then Some (IoError (CloseSegment (dl_activeSeq l)))
            else if io_fails io CloseDir then Some (IoError CloseDir) else None))"

section \<open>Replaying what was written\<close>

lemma scan_frame_symbols:
  "(\<And>s. s \<in> set symbols \<Longrightarrow> isFrameSymbol s \<and> s \<noteq> frameStart \<and> s \<noteq> frameEnd) \<Longrightarrow>
   scan_frame (symbols @ frameEnd # rest) = Terminated symbols rest"
  by (induction symbols) auto

lemma scan_frame_torn:
  "(\<And>s. s \<in> set symbols \<Longrightarrow> isFrameSymbol s \<and> s \<noteq> frameStart \<and> s \<noteq> frameEnd) \<Longrightarrow>
   scan_frame symbols = Unterminated"
  by (induction symbols) auto

lemma scan_frame_append:
  "scan_frame bs = Terminated symbols rest \<Longrightarrow> scan_frame (bs @ extra) = Terminated symbols (rest @ extra)"
  by (induction bs arbitrary: symbols) (auto split: if_splits scan_result.splits)

lemma scan_frame_split: "scan_frame bs = Terminated symbols rest \<Longrightarrow> bs = symbols @ frameEnd # rest"
  by (induction bs arbitrary: symbols) (auto split: if_splits scan_result.splits)

lemma scan_frame_tail:
  "scan_frame bs = Terminated symbols rest \<Longrightarrow> scan_frame (symbols @ frameEnd # rest') = Terminated symbols rest'"
  by (induction bs arbitrary: symbols) (auto split: if_splits scan_result.splits)

text \<open>A segment that replays completely can be extended.\<close>

lemma replay_append:
  "replay unmarshal final buf m offset = Inr (m', None) \<Longrightarrow>
   replay unmarshal final' (buf @ extra) m offset = replay unmarshal final' extra m' (offset + length buf)"
proof (induction unmarshal final buf m offset arbitrary: m' rule: replay.induct)
  case (2 unmarshal final b bs m offset)
  from "2.prems" obtain symbols rest rec m1 where
    s: "b = frameStart" "scan_frame bs = Terminated symbols rest"
       "decodeTerminatedFrame unmarshal symbols = Inr rec" "applyRecord rec m = Inr m1"
       "replay unmarshal final rest m1 (offset + 2 + length symbols) = Inr (m', None)"
    by (auto split: if_splits scan_result.splits sum.splits)
  have "replay unmarshal final' (rest @ extra) m1 (offset + 2 + length symbols)
      = replay unmarshal final' extra m' (offset + 2 + length symbols + length rest)"
    using s by (intro "2.IH") auto
  with s scan_frame_append [OF s(2), of extra] scan_frame_length [OF s(2)] show ?case
    by (simp add: add.assoc)
qed simp

lemma replay_final_irrelevant:
  "replay unmarshal final buf m offset = Inr (m', None) \<Longrightarrow> replay unmarshal final' buf m offset = Inr (m', None)"
  using replay_append [of unmarshal final buf m offset m' final' "[]"] by simp

lemma replay_frame:
  assumes "length payload \<le> 2 ^ 32 - 1" "unmarshal payload = Some r" "hasSupportedRecordKind r"
  shows "replay unmarshal final (frame_bytes payload @ extra) m offset =
    (case applyRecord r m of Inl err \<Rightarrow> Inl err
     | Inr m' \<Rightarrow> replay unmarshal final extra m' (offset + length (frame_bytes payload)))"
proof -
  have "scan_frame (frame_body payload @ frameEnd # extra) = Terminated (frame_body payload) extra"
    by (rule scan_frame_symbols) (rule frame_body_symbols)
  then show ?thesis
    using assms decodeTerminatedFrame_body [OF assms(1), of unmarshal]
    by (simp add: frame_bytes_def add.commute add.left_commute split: sum.split)
qed

lemma replay_torn_frame:
  assumes "k < length (frame_bytes payload)"
  shows "replay unmarshal True (take k (frame_bytes payload)) m offset
    = Inr (m, if k = 0 then None else Some offset)"
proof (cases k)
  case (Suc j)
  have "take k (frame_bytes payload) = frameStart # take j (frame_body payload)"
    using assms Suc by (simp add: frame_bytes_def)
  moreover have "scan_frame (take j (frame_body payload)) = Unterminated"
    by (rule scan_frame_torn) (meson frame_body_symbols in_set_takeD)
  ultimately show ?thesis using Suc by simp
qed simp

end
