(* ===== verification/Disklog_Dir.thy ===== *)
theory Disklog_Dir
  imports Disklog_Props "HOL-Library.Multiset"
begin

text \<open>
  Segment files of the durable log: names and sequence numbers convert back and forth, the
  directory always lists a gapless sequence of segments, and the invariant of an open log says that
  replaying these segments gives exactly the mirror the log serves its reads from.
\<close>

section \<open>Segment names\<close>

lemma of_char_digit: "d < 10 \<Longrightarrow> (of_char (digit d) :: nat) = 48 + d"
  by (simp add: digit_def)

lemma is_digit_digit: "d < 10 \<Longrightarrow> is_digit (digit d)"
  by (simp add: is_digit_def of_char_digit)

lemma decimal_digits: "list_all is_digit (decimal n)"
  by (induction n rule: decimal.induct)
    (subst decimal.simps, auto simp: is_digit_digit list_all_append)

lemma parse_decimal_snoc: "parse_decimal (s @ [c]) = parse_decimal s * 10 + (of_char c - 48)"
  by (simp add: parse_decimal_def)

lemma parse_decimal_decimal: "parse_decimal (decimal n) = n"
proof (induction n rule: decimal.induct)
  case (1 n)
  show ?case
  proof (cases "n < 10")
    case True
    then show ?thesis by (subst decimal.simps) (simp add: parse_decimal_def of_char_digit)
  next
    case False
    have "parse_decimal (decimal n) = parse_decimal (decimal (n div 10)) * 10 + n mod 10"
      using False by (subst decimal.simps) (simp add: parse_decimal_snoc of_char_digit)
    with 1 False show ?thesis by simp
  qed
qed

lemma parse_decimal_zeros: "parse_decimal (replicate k (digit 0) @ s) = parse_decimal s"
proof -
  have "foldl (\<lambda>a c. a * 10 + (of_char c - 48)) 0 (replicate k (digit 0)) = (0 :: nat)"
    by (induction k) (simp_all add: of_char_digit)
  then show ?thesis by (simp add: parse_decimal_def)
qed

lemma parse_segmentName: "seq \<noteq> 0 \<Longrightarrow> parseSegmentName (segmentName seq) = Some seq"
proof -
  assume nz: "seq \<noteq> 0"
  let ?s = "decimal (unat seq)" let ?d = "replicate (6 - length ?s) (digit 0) @ ?s"
  have n: "segmentName seq = ?d @ ''.seg''" by (simp add: segmentName_def Let_def)
  have "list_all is_digit ?d" 
    using decimal_digits [of "unat seq"] by (auto simp: list_all_iff is_digit_digit)
  moreover have "parse_decimal ?d = unat seq" by (simp add: parse_decimal_zeros parse_decimal_decimal)
  moreover have "unat seq \<noteq> 0" "unat seq < 2 ^ 64" using nz unat_u64_bound [of seq] by (simp_all add: unat_eq_0)
  moreover have "length ?d \<ge> 6" by simp
  ultimately show ?thesis by (simp add: parseSegmentName_def n Let_def)
qed

lemma segmentName_inject: "a \<noteq> 0 \<Longrightarrow> b \<noteq> 0 \<Longrightarrow> segmentName a = segmentName b \<longleftrightarrow> a = b"
  by (metis option.inject parse_segmentName)

section \<open>Directories\<close>

abbreviation seq_of :: "nat \<Rightarrow> u64" where
  "seq_of i \<equiv> of_nat (Suc i)"

definition dir_has :: "directory \<Rightarrow> bytes list \<Rightarrow> bool" where
  "dir_has dir segs \<longleftrightarrow> length segs < 2 ^ 64
     \<and> (\<forall>i < length segs. map_of dir (segmentName (seq_of i)) = Some (segs ! i))
     \<and> listSegments (map fst dir) = Inr (seq_range (length segs))"

lemma unat_seq_of: "Suc i < 2 ^ 64 \<Longrightarrow> unat (seq_of i) = Suc i"
  by (rule unat_of_nat_u64)

lemma seq_of_nonzero: "Suc i < 2 ^ 64 \<Longrightarrow> seq_of i \<noteq> 0"
  using unat_seq_of [of i] by (metis nat.distinct(1) unat_0)

lemma seq_of_inject: "Suc i < 2 ^ 64 \<Longrightarrow> Suc j < 2 ^ 64 \<Longrightarrow> seq_of i = seq_of j \<longleftrightarrow> i = j"
  using unat_seq_of by (metis Suc_inject)

lemma sorted_seq_range: "n < 2 ^ 64 \<Longrightarrow> sorted (seq_range n)"
  by (auto simp: seq_range_def sorted_iff_nth_mono word_le_nat_alt unat_seq_of simp del: of_nat_Suc)

lemma length_seq_range [simp]: "length (seq_range n) = n"
  by (simp add: seq_range_def)

lemma listSegments_mset:
  assumes "n < 2 ^ 64"
  shows "listSegments names = Inr (seq_range n)
    \<longleftrightarrow> mset (List.map_filter parseSegmentName names) = mset (seq_range n)"
proof
  assume "listSegments names = Inr (seq_range n)"
  then have "sort (List.map_filter parseSegmentName names) = seq_range n"
    by (auto simp: listSegments_def Let_def split: if_splits)
  then have "mset (sort (List.map_filter parseSegmentName names)) = mset (seq_range n)" by simp
  then show "mset (List.map_filter parseSegmentName names) = mset (seq_range n)" by simp
next
  assume "mset (List.map_filter parseSegmentName names) = mset (seq_range n)"
  then have "sort (List.map_filter parseSegmentName names) = seq_range n"
    using sorted_seq_range [OF assms] by (intro properties_for_sort) auto
  then show "listSegments names = Inr (seq_range n)" by (simp add: listSegments_def)
qed

lemma map_fst_map_entry: "map fst (AList.map_entry k f al) = map fst al"
  by (induction al) auto

lemma dir_has_update_last:
  assumes "dir_has dir segs" "segs \<noteq> []" "map_of dir' = (map_of dir)(segmentName (of_nat (length segs)) \<mapsto> c)"
    and "map fst dir' = map fst dir"
  shows "dir_has dir' (butlast segs @ [c])"
proof -
  let ?n = "length segs"
  have n: "?n < 2 ^ 64" "?n > 0" using assms by (auto simp: dir_has_def)
  have last: "of_nat ?n = seq_of (?n - 1)" using n(2) by simp
  have "map_of dir' (segmentName (seq_of i)) = Some ((butlast segs @ [c]) ! i)" if "i < ?n" for i
  proof (cases "i = ?n - 1")
    case True
    then show ?thesis using assms(3) last by (simp add: nth_append)
  next
    case False
    with that have i: "i < ?n - 1" by simp
    have "seq_of i \<noteq> 0" "seq_of (?n - 1) \<noteq> 0" using i n by (intro seq_of_nonzero; simp)+
    moreover have "seq_of i \<noteq> seq_of (?n - 1)" using i n seq_of_inject [of i "?n - 1"] by simp
    ultimately have "segmentName (seq_of i) \<noteq> segmentName (of_nat ?n)"
      unfolding last using segmentName_inject by blast
    with i assms(1,3) show ?thesis by (simp add: dir_has_def nth_append nth_butlast)
  qed
  then show ?thesis using assms n(2) by (simp add: dir_has_def)
qed

lemma dir_has_append_file:
  assumes "dir_has dir segs" "segs \<noteq> []"
  shows "dir_has (append_file (segmentName (of_nat (length segs))) bs dir) (butlast segs @ [last segs @ bs])"
proof (rule dir_has_update_last [OF assms])
  have "map_of dir (segmentName (seq_of (length segs - 1))) = Some (segs ! (length segs - 1))"
    using assms unfolding dir_has_def by (metis diff_less length_greater_0_conv zero_less_one)
  then have "map_of dir (segmentName (of_nat (length segs))) = Some (last segs)"
    using assms(2) by (simp add: last_conv_nth del: of_nat_Suc)
  then show "map_of (append_file (segmentName (of_nat (length segs))) bs dir)
    = (map_of dir)(segmentName (of_nat (length segs)) \<mapsto> last segs @ bs)"
    by (simp add: append_file_def AList.map_of_map_entry)
qed (simp add: append_file_def map_fst_map_entry)

lemma dir_has_create:
  assumes "dir_has dir segs" "length segs + 1 < 2 ^ 64" "createSegment io (seq_of (length segs)) dir = (dir', None)"
  shows "dir_has dir' (segs @ [[]])"
proof -
  let ?n = "length segs"
  have new: "map_of dir (segmentName (seq_of ?n)) = None"
    and d: "dir' = AList.update (segmentName (seq_of ?n)) [] dir"
    using assms(3) by (auto simp: createSegment_def Let_def split: if_splits)
  have "segmentName (seq_of ?n) \<notin> set (map fst dir)" using new by (simp add: map_of_eq_None_iff)
  then have names: "map fst dir' = map fst dir @ [segmentName (seq_of ?n)]"
    unfolding d by (simp add: AList.update_keys)
  have "mset (List.map_filter parseSegmentName (map fst dir)) = mset (seq_range ?n)"
    using assms(1,2) by (simp add: dir_has_def listSegments_mset)
  moreover have "parseSegmentName (segmentName (seq_of ?n)) = Some (seq_of ?n)"
    using assms(2) by (intro parse_segmentName seq_of_nonzero) simp
  ultimately have "mset (List.map_filter parseSegmentName (map fst dir')) = mset (seq_range (Suc ?n))"
    by (simp add: names map_filter_def seq_range_def)
  then have "listSegments (map fst dir') = Inr (seq_range (Suc ?n))"
    using assms(2) listSegments_mset [of "Suc ?n" "map fst dir'"] by simp
  moreover have "map_of dir' (segmentName (seq_of i)) = Some ((segs @ [[]]) ! i)" if "i < Suc ?n" for i
  proof (cases "i = ?n")
    case True
    then show ?thesis by (simp add: d AList.update_conv')
  next
    case False
    with that assms(1,2) have "map_of dir (segmentName (seq_of i)) = Some (segs ! i)"
      by (simp add: dir_has_def)
    moreover from this new have "segmentName (seq_of i) \<noteq> segmentName (seq_of ?n)" by auto
    ultimately show ?thesis using that False by (simp add: d AList.update_conv' nth_append)
  qed
  ultimately show ?thesis using assms(2) by (simp add: dir_has_def)
qed

end
