(* ===== verification/Disklog_Storage.thy ===== *)
theory Disklog_Storage
  imports Disklog_Dir
begin

text \<open>
  The durable log as an implementation of the storage contract: the invariant of an open log, its
  preservation by \<open>Save\<close>, what \<open>Open\<close> recovers from the directory a clean stop or a crash in the
  middle of a batch leaves behind, and the interpretation of \<open>raft_storage\<close>.
\<close>

section \<open>The invariant\<close>

primrec segs_replay :: "(bytes \<Rightarrow> LogRecord option) \<Rightarrow> bytes list \<Rightarrow> mirror \<Rightarrow> mirror \<Rightarrow> bool" where
  "segs_replay unmarshal [] m m' \<longleftrightarrow> m = m'"
| "segs_replay unmarshal (s # ss) m m' \<longleftrightarrow> (\<exists>m1. replay unmarshal True s m 0 = Inr (m1, None) \<and> segs_replay unmarshal ss m1 m')"

definition log_files :: "(bytes \<Rightarrow> LogRecord option) \<Rightarrow> directory \<Rightarrow> bytes list \<Rightarrow> mirror \<Rightarrow> bool" where
  "log_files unmarshal dir segs m \<longleftrightarrow> segs \<noteq> [] \<and> dir_has dir segs \<and> segs_replay unmarshal segs empty_mirror m
     \<and> contiguous_from 0 (snd m) \<and> length (snd m) < 2 ^ 63"

definition dl_inv :: "(bytes \<Rightarrow> LogRecord option) \<Rightarrow> DiskLog \<Rightarrow> bool" where
  "dl_inv unmarshal l \<longleftrightarrow> \<not> dl_closed l \<and> dl_failed l = None
     \<and> (\<exists>segs. log_files unmarshal (dl_dir l) segs (dl_hard l, dl_entries l)
          \<and> dl_activeSeq l = of_nat (length segs) \<and> dl_activeSize l = int (length (last segs)))"

lemma segs_replay_append:
  "segs_replay unmarshal (ss @ ts) m m' \<longleftrightarrow> (\<exists>m1. segs_replay unmarshal ss m m1 \<and> segs_replay unmarshal ts m1 m')"
  by (induction ss arbitrary: m) auto

lemma segs_replay_extend:
  assumes "segs_replay unmarshal segs m m1" "segs \<noteq> []"
    and "\<And>off. replay unmarshal True bs m1 off = Inr (m2, None)"
  shows "segs_replay unmarshal (butlast segs @ [last segs @ bs]) m m2"
proof -
  have "segs_replay unmarshal (butlast segs @ [last segs]) m m1" using assms(1,2) by simp
  then obtain m0 where m0: "segs_replay unmarshal (butlast segs) m m0" "replay unmarshal True (last segs) m0 0 = Inr (m1, None)"
    by (auto simp: segs_replay_append)
  have "replay unmarshal True (last segs @ bs) m0 0 = Inr (m2, None)"
    using replay_append [OF m0(2), of True bs] assms(3) by simp
  then have "segs_replay unmarshal [last segs @ bs] m0 m2" by simp
  with m0(1) show ?thesis unfolding segs_replay_append by blast
qed

text \<open>Rotation leaves the content of the log alone, also when it fails half way.\<close>

lemma rotateIfNeeded_files:
  assumes "log_files unmarshal (dl_dir l) segs m" "dl_activeSeq l = of_nat (length segs)"
    and "dl_activeSize l = int (length (last segs))" "rotateIfNeeded io sz l = (l', e)"
  shows "\<exists>segs'. log_files unmarshal (dl_dir l') segs' m
    \<and> (e = None \<longrightarrow> dl_activeSeq l' = of_nat (length segs') \<and> dl_activeSize l' = int (length (last segs'))
         \<and> dl_hard l' = dl_hard l \<and> dl_entries l' = dl_entries l \<and> dl_failed l' = dl_failed l \<and> dl_closed l' = dl_closed l)"
proof (cases "dl_activeSize l = 0 \<or> (dl_activeSize l \<le> dl_rotateSize l \<and> sz \<le> dl_rotateSize l - dl_activeSize l)
    \<or> io_fails io (CloseSegment (dl_activeSeq l)) \<or> dl_activeSeq l = max_u64")
  case True
  then have "dl_dir l' = dl_dir l \<and> (e = None \<longrightarrow> l' = l)"
    using assms(4) by (auto simp: rotateIfNeeded_def Let_def split: if_splits)
  with assms(1-3) show ?thesis by (intro exI [of _ segs]) auto
next
  case False
  let ?n = "length segs"
  obtain dir e' where c: "createSegment io (dl_activeSeq l + 1) (dl_dir l) = (dir, e')" by fastforce
  have e: "e = e'" "dl_dir l' = dir" "e = None \<Longrightarrow>
      l' = l\<lparr>dl_dir := dir, dl_active := True, dl_activeSeq := dl_activeSeq l + 1, dl_activeSize := 0\<rparr>"
    using False assms(4) c by (auto simp: rotateIfNeeded_def Let_def split: option.splits if_splits)
  have d: "dir_has (dl_dir l) segs" "?n < 2 ^ 64" using assms(1) by (auto simp: log_files_def dir_has_def)
  have "unat (dl_activeSeq l) = ?n" using d(2) assms(2) by (simp add: unat_of_nat_u64)
  moreover have "dl_activeSeq l \<noteq> max_u64" using False by simp
  ultimately have lt: "?n + 1 < 2 ^ 64" by (simp only: u64_neq_max_iff)
  have seq: "dl_activeSeq l + 1 = seq_of ?n" using assms(2) by simp
  show ?thesis
  proof (cases "dir = dl_dir l")
    case True
    have "e' \<noteq> None"
    proof
      assume "e' = None"
      then have "dir = AList.update (segmentName (seq_of ?n)) [] (dl_dir l) \<and> map_of (dl_dir l) (segmentName (seq_of ?n)) = None"
        using c seq by (auto simp: createSegment_def Let_def simp del: of_nat_Suc split: if_splits)
      with True show False by (metis AList.update_conv' fun_upd_same option.distinct(1))
    qed
    with True e assms(1) show ?thesis by auto
  next
    case neq: False
    have "createSegment (io\<lparr>io_fails := \<lambda>_. False\<rparr>) (seq_of ?n) (dl_dir l) = (dir, None)"
      using c neq unfolding seq by (auto simp: createSegment_def Let_def simp del: of_nat_Suc split: if_splits)
    then have "dir_has dir (segs @ [[]])" by (rule dir_has_create [OF d(1) lt])
    moreover have "segs_replay unmarshal (segs @ [[]]) empty_mirror m"
      using assms(1) by (auto simp: log_files_def segs_replay_append simp del: split_paired_Ex)
    ultimately have "log_files unmarshal dir (segs @ [[]]) m" using assms(1) by (simp add: log_files_def)
    then show ?thesis using e seq by (intro exI [of _ "segs @ [[]]"]) auto
  qed
qed

section \<open>Save\<close>

context log_codec
begin

lemma Save_ok:
  assumes "dl_inv unmarshal l" "DiskLog_Save marshal io hs es l = (l', None)"
    and "length (merge_log (dl_entries l) es) < 2 ^ 63"
  shows "dl_inv unmarshal l'" "dl_hard l' = merge_hard (dl_hard l) hs" "dl_entries l' = merge_log (dl_entries l) es"
proof -
  obtain segs where inv: "log_files unmarshal (dl_dir l) segs (dl_hard l, dl_entries l)"
      "dl_activeSeq l = of_nat (length segs)" "dl_activeSize l = int (length (last segs))"
    and ok: "\<not> dl_closed l" "dl_failed l = None"
    using assms(1) by (auto simp: dl_inv_def)
  have c: "contiguous_from 0 (dl_entries l)" "length (dl_entries l) < 2 ^ 63"
    using inv(1) by (auto simp: log_files_def)
  let ?G = "dl_inv unmarshal l' \<and> dl_hard l' = merge_hard (dl_hard l) hs \<and> dl_entries l' = merge_log (dl_entries l) es"
  have ?G
  proof (cases "hs = None \<and> es = []")
    case True
    then have "l' = l" using assms(2) ok by (simp add: DiskLog_Save_def)
    with True assms(1) show ?thesis by (simp add: merge_hard_def merge_log_def)
  next
    case False
    let ?last = "last_index (dl_entries l)"
    obtain batch l1 where chk: "checkContiguous es ?last = None" and b: "encodeBatch marshal hs es ?last = Inr batch"
        and r: "rotateIfNeeded io (int (length batch)) l = (l1, None)"
        and l': "l' = l1\<lparr>dl_dir := append_file (segmentName (dl_activeSeq l1)) batch (dl_dir l1),
              dl_activeSize := dl_activeSize l1 + int (length batch),
              dl_hard := merge_hard (dl_hard l1) hs,
              dl_entries := (if es \<noteq> [] then truncateEntries (e_Index (hd es)) (dl_entries l1) @ es else dl_entries l1)\<rparr>"
      using assms(2) ok False
      by (auto simp: DiskLog_Save_def Let_def merge_hard_def split: option.splits sum.splits prod.splits if_splits)
    obtain segs1 where s1: "log_files unmarshal (dl_dir l1) segs1 (dl_hard l, dl_entries l)"
        "dl_activeSeq l1 = of_nat (length segs1)" "dl_activeSize l1 = int (length (last segs1))"
        "dl_hard l1 = dl_hard l" "dl_entries l1 = dl_entries l" "dl_failed l1 = None" "\<not> dl_closed l1"
      using rotateIfNeeded_files [OF inv r] ok by auto
    obtain ps where ps: "batch = frames ps" "list_all2 (payload_of marshal) ps (batch_records hs es ?last)"
      using encodeBatch_frames [OF b] by blast
    let ?m = "(merge_hard (dl_hard l) hs, merge_log (dl_entries l) es)"
    let ?segs = "butlast segs1 @ [last segs1 @ batch]"
    have "replay unmarshal True batch (dl_hard l, dl_entries l) off = Inr (?m, None)" for off
      using replay_frames [OF ps(2) apply_batch_records [OF c(1) chk c(2) assms(3)], where final = True and extra = "[]" and offset = off] ps(1)
      by simp
    then have "segs_replay unmarshal ?segs empty_mirror ?m"
      using s1(1) by (intro segs_replay_extend) (auto simp: log_files_def)
    moreover have "dir_has (append_file (segmentName (dl_activeSeq l1)) batch (dl_dir l1)) ?segs"
      unfolding s1(2) using s1(1) by (intro dir_has_append_file) (auto simp: log_files_def)
    ultimately have "log_files unmarshal (append_file (segmentName (dl_activeSeq l1)) batch (dl_dir l1)) ?segs ?m"
      using merge_log_contiguous(1) [OF c(1) chk c(2) assms(3)] assms(3) by (simp add: log_files_def)
    moreover have "dl_entries l' = merge_log (dl_entries l) es"
      by (simp add: l' s1(5) merge_log_def truncateEntries_def take_cut_at)
    moreover have "length segs1 > 0" using s1(1) by (simp add: log_files_def)
    ultimately show ?thesis
      unfolding dl_inv_def using s1 l' by (auto intro!: exI [of _ ?segs])
  qed
  then show "dl_inv unmarshal l'" "dl_hard l' = merge_hard (dl_hard l) hs" "dl_entries l' = merge_log (dl_entries l) es"
    by auto
qed

end

section \<open>Open\<close>

text \<open>Cutting a torn tail off at the reported offset leaves a segment that replays completely.\<close>

lemma replay_truncated:
  "replay unmarshal final buf m offset = Inr (m', Some off) \<Longrightarrow>
   offset \<le> off \<and> replay unmarshal final (take (off - offset) buf) m offset = Inr (m', None)"
proof (induction unmarshal final buf m offset arbitrary: m' rule: replay.induct)
  case (2 unmarshal final b bs m offset)
  have b: "b = frameStart" using "2.prems" by (simp split: if_splits)
  show ?case
  proof (cases "scan_frame bs")
    case (Terminated symbols rest)
    from "2.prems" b Terminated obtain rec m1 where
      s: "decodeTerminatedFrame unmarshal symbols = Inr rec" "applyRecord rec m = Inr m1"
         "replay unmarshal final rest m1 (offset + 2 + length symbols) = Inr (m', Some off)"
      by (auto split: sum.splits)
    let ?o = "offset + 2 + length symbols"
    have IH: "?o \<le> off \<and> replay unmarshal final (take (off - ?o) rest) m1 ?o = Inr (m', None)"
      using b Terminated s by (intro "2.IH") auto
    have bs: "bs = symbols @ frameEnd # rest" using Terminated by (rule scan_frame_split)
    have "take (off - offset) (b # bs) = b # symbols @ frameEnd # take (off - ?o) rest"
    proof -
      obtain d where d: "off = ?o + d" using IH by (metis le_add_diff_inverse)
      then have "off - offset = Suc (length symbols + Suc d)" by simp
      with d show ?thesis by (simp add: bs)
    qed
    moreover have "scan_frame (symbols @ frameEnd # take (off - ?o) rest) = Terminated symbols (take (off - ?o) rest)"
      using scan_frame_tail [OF Terminated] .
    ultimately show ?thesis using IH b s by simp
  qed (use "2.prems" b in \<open>auto split: if_splits\<close>)
qed simp

definition truncated_dir :: "directory \<Rightarrow> u64 \<Rightarrow> bytes \<Rightarrow> nat option \<Rightarrow> directory" where
  "truncated_dir dir seq buf t = (case t of None \<Rightarrow> dir | Some off \<Rightarrow> AList.update (segmentName seq) (take off buf) dir)"

lemma replaySegments_eq:
  assumes "ss \<noteq> []" "\<And>i. i < length ss \<Longrightarrow> map_of dir (segmentName (seq_of (k + i))) = Some (ss ! i)"
    and "segs_replay unmarshal (butlast ss) m m1" "replay unmarshal True (last ss) m1 0 = Inr (m', t)"
  shows "(\<forall>dm. replaySegments unmarshal io (map seq_of [k..<k + length ss]) (dir, m) = Inr dm
            \<longrightarrow> dm = (truncated_dir dir (seq_of (k + length ss - 1)) (last ss) t, m'))
     \<and> ((\<forall>op. \<not> io_fails io op) \<longrightarrow> (\<exists>dm. replaySegments unmarshal io (map seq_of [k..<k + length ss]) (dir, m) = Inr dm))"
  using assms
proof (induction ss arbitrary: k m)
  case (Cons s ss)
  have f0: "map_of dir (segmentName (seq_of k)) = Some s" using Cons.prems(2) [of 0] by simp
  show ?case
  proof (cases "ss = []")
    case True
    then have r: "replay unmarshal True s m 0 = Inr (m', t)" using Cons.prems(3,4) by simp
    show ?thesis
      using True f0 r
      by (auto simp: replaySegment_def truncated_dir_def Let_def simp del: of_nat_Suc split: option.splits if_splits)
  next
    case False
    then obtain m2 where m2: "replay unmarshal True s m 0 = Inr (m2, None)" "segs_replay unmarshal (butlast ss) m2 m1"
      using Cons.prems(3) by auto
    have r: "replay unmarshal False s m 0 = Inr (m2, None)" using m2(1) by (rule replay_final_irrelevant)
    have IH: "(\<forall>dm. replaySegments unmarshal io (map seq_of [Suc k..<Suc k + length ss]) (dir, m2) = Inr dm
            \<longrightarrow> dm = (truncated_dir dir (seq_of (Suc k + length ss - 1)) (last ss) t, m'))
     \<and> ((\<forall>op. \<not> io_fails io op) \<longrightarrow> (\<exists>dm. replaySegments unmarshal io (map seq_of [Suc k..<Suc k + length ss]) (dir, m2) = Inr dm))"
    proof (rule Cons.IH [OF False _ m2(2)])
      show "map_of dir (segmentName (seq_of (Suc k + i))) = Some (ss ! i)" if "i < length ss" for i
        using Cons.prems(2) [of "Suc i"] that by simp
      show "replay unmarshal True (last ss) m1 0 = Inr (m', t)" using Cons.prems(4) False by simp
    qed
    have seqs: "map seq_of [k..<k + length (s # ss)] = seq_of k # map seq_of [Suc k..<Suc k + length ss]"
      by (simp add: upt_rec del: of_nat_Suc)
    have ne: "(map seq_of [Suc k..<Suc k + length ss] = []) = False" using False by (cases ss) simp_all
    have "replaySegments unmarshal io (map seq_of [k..<k + length (s # ss)]) (dir, m)
      = (if io_fails io (ReadSegment (seq_of k)) then Inl (dir, IoError (ReadSegment (seq_of k)))
         else replaySegments unmarshal io (map seq_of [Suc k..<Suc k + length ss]) (dir, m2))"
      unfolding seqs by (simp only: replaySegments.simps ne) (simp add: replaySegment_def f0 r del: of_nat_Suc upt_Suc)
    with IH False show ?thesis by auto
  qed
qed simp

lemma sync_all_ok: "(\<And>op. \<not> io_fails io op) \<Longrightarrow> sync_all io seqs = None"
  by (induction seqs) (simp_all add: syncSegment_def)

lemma recover_ok:
  assumes "recover unmarshal io seqs l = (l', None)"
  shows "\<exists>dir hard entries. replaySegments unmarshal io seqs (dl_dir l, (dl_hard l, dl_entries l)) = Inr (dir, hard, entries)
    \<and> l' = l\<lparr>dl_dir := dir, dl_hard := hard, dl_entries := entries, dl_active := True, dl_activeSeq := last seqs,
             dl_activeSize := int (length (the (map_of dir (segmentName (last seqs)))))\<rparr>"
  using assms by (auto simp: recover_def Let_def split: sum.splits prod.splits option.splits if_splits)

lemma recover_total:
  assumes "replaySegments unmarshal io seqs (dl_dir l, (dl_hard l, dl_entries l)) = Inr dm" "\<And>op. \<not> io_fails io op"
  shows "\<exists>l'. recover unmarshal io seqs l = (l', None)"
  using assms sync_all_ok [OF assms(2)] by (cases dm) (auto simp: recover_def Let_def)

definition fresh_log :: "int \<Rightarrow> directory \<Rightarrow> DiskLog" where
  "fresh_log rotateSize dir = \<lparr>dl_dir = dir, dl_rotateSize = (if rotateSize = 0 then 8 * 2 ^ 20 else rotateSize),
     dl_active = False, dl_activeSeq = 0, dl_activeSize = 0,
     dl_hard = fst empty_mirror, dl_entries = snd empty_mirror, dl_failed = None, dl_closed = False\<rparr>"

lemma Open_recover:
  assumes "dir_has dir segs" "segs \<noteq> []"
  shows "Open unmarshal io rotateSize dir =
    (if rotateSize < 0 then (dir, Inl NegativeRotateSize)
     else if io_fails io OpenDir then (dir, Inl (IoError OpenDir))
     else if io_fails io ReadDir then (dir, Inl (IoError ReadDir))
     else (let (l, err) = recover unmarshal io (map seq_of [0..<length segs]) (fresh_log rotateSize dir)
           in (dl_dir l, case err of Some e \<Rightarrow> Inl e | None \<Rightarrow> Inr l)))"
  using assms by (simp add: Open_def fresh_log_def dir_has_def seq_range_def Let_def)

text \<open>\<open>Open\<close> on the files of a log whose last segment may end in a torn frame.\<close>

lemma Open_recovers:
  assumes "dir_has dir segs" "segs \<noteq> []" "segs_replay unmarshal (butlast segs) empty_mirror m1"
    and "replay unmarshal True (last segs) m1 0 = Inr (m', t)"
    and "contiguous_from 0 (snd m')" "length (snd m') < 2 ^ 63"
  shows "Open unmarshal io rotateSize dir = (dir', Inr l') \<Longrightarrow> dl_inv unmarshal l' \<and> (dl_hard l', dl_entries l') = m'"
    and "\<lbrakk>0 \<le> rotateSize; \<And>op. \<not> io_fails io op\<rbrakk> \<Longrightarrow> \<exists>dir' l'. Open unmarshal io rotateSize dir = (dir', Inr l')"
proof -
  let ?n = "length segs"
  have files: "map_of dir (segmentName (seq_of (0 + i))) = Some (segs ! i)" if "i < ?n" for i
    using assms(1) that by (simp add: dir_has_def del: of_nat_Suc)
  have lastseq: "seq_of (?n - 1) = of_nat ?n" "last (map seq_of [0..<?n]) = of_nat ?n"
    using assms(2) by (simp_all add: last_map del: of_nat_Suc)
  note R = replaySegments_eq [OF assms(2) files assms(3,4), of io]
  have m0: "(dl_hard (fresh_log rotateSize dir), dl_entries (fresh_log rotateSize dir)) = empty_mirror"
    "dl_dir (fresh_log rotateSize dir) = dir" by (simp_all add: fresh_log_def)
  show "\<exists>dir' l'. Open unmarshal io rotateSize dir = (dir', Inr l')"
    if ok: "0 \<le> rotateSize" "\<And>op. \<not> io_fails io op"
  proof -
    obtain dm where "replaySegments unmarshal io (map seq_of [0..<?n]) (dir, empty_mirror) = Inr dm"
      using R ok(2) by auto
    then obtain l' where "recover unmarshal io (map seq_of [0..<?n]) (fresh_log rotateSize dir) = (l', None)"
      using recover_total [of unmarshal io "map seq_of [0..<?n]" "fresh_log rotateSize dir" dm] ok(2) m0 by auto
    with ok show ?thesis by (simp add: Open_recover [OF assms(1,2)] Let_def)
  qed
  show "dl_inv unmarshal l' \<and> (dl_hard l', dl_entries l') = m'"
    if o: "Open unmarshal io rotateSize dir = (dir', Inr l')"
  proof -
    have r: "recover unmarshal io (map seq_of [0..<?n]) (fresh_log rotateSize dir) = (l', None)"
      using o unfolding Open_recover [OF assms(1,2)] Let_def
      by (auto simp del: of_nat_Suc split: if_splits prod.splits option.splits)
    obtain d hard entries where rep: "replaySegments unmarshal io (map seq_of [0..<?n]) (dir, empty_mirror) = Inr (d, hard, entries)"
      and l': "l' = (fresh_log rotateSize dir)\<lparr>dl_dir := d, dl_hard := hard, dl_entries := entries, dl_active := True,
         dl_activeSeq := of_nat ?n, dl_activeSize := int (length (the (map_of d (segmentName (of_nat ?n)))))\<rparr>"
      using recover_ok [OF r] m0 lastseq(2) by auto
    have dm: "d = truncated_dir dir (of_nat ?n) (last segs) t" "(hard, entries) = m'"
      using R rep lastseq(1) by (simp_all del: of_nat_Suc)
    define c where "c = (case t of None \<Rightarrow> last segs | Some off \<Rightarrow> take off (last segs))"
    have cur: "map_of dir (segmentName (of_nat ?n)) = Some (last segs)"
      using files [of "?n - 1"] assms(2) lastseq(1) by (simp add: last_conv_nth del: of_nat_Suc)
    then have "segmentName (of_nat ?n) \<in> fst ` set dir" by (metis domI dom_map_of_conv_image_fst)
    with cur have mo: "map_of d = (map_of dir)(segmentName (of_nat ?n) \<mapsto> c)" "map fst d = map fst dir"
      by (auto simp: dm truncated_dir_def c_def AList.update_conv' AList.update_keys map_upd_triv split: option.splits)
    have dh: "dir_has d (butlast segs @ [c])" by (rule dir_has_update_last [OF assms(1,2) mo])
    have "replay unmarshal True c m1 0 = Inr (m', None)"
      using assms(4) replay_truncated [of unmarshal True "last segs" m1 0 m'] by (auto simp: c_def split: option.splits)
    then have "segs_replay unmarshal (butlast segs @ [c]) empty_mirror m'"
      using assms(3) by (auto simp: segs_replay_append simp del: split_paired_Ex)
    then have "log_files unmarshal d (butlast segs @ [c]) (hard, entries)"
      using dh dm(2) assms(5,6) by (simp add: log_files_def)
    moreover have "?n > 0" using assms(2) by simp
    ultimately have "dl_inv unmarshal l'"
      unfolding dl_inv_def l' by (auto simp: mo(1) fresh_log_def intro!: exI [of _ "butlast segs @ [c]"])
    with l' dm(2) show ?thesis by simp
  qed
qed

section \<open>Crashes\<close>

context log_codec
begin

text \<open>Whatever happened to a \<open>Save\<close>, its directory holds the old log and a prefix of the batch.\<close>

lemma Save_files:
  assumes "dl_inv unmarshal l" "DiskLog_Save marshal io hs es l = (l1, r)"
    and "length (merge_log (dl_entries l) es) < 2 ^ 63"
  shows "\<exists>segs m1 m' t j. dir_has (dl_dir l1) segs \<and> segs \<noteq> [] \<and> segs_replay unmarshal (butlast segs) empty_mirror m1
    \<and> replay unmarshal True (last segs) m1 0 = Inr (m', t)
    \<and> apply_records (take j (batch_records hs es (last_index (dl_entries l)))) (dl_hard l, dl_entries l) = Inr m'"
proof -
  obtain segs where inv: "log_files unmarshal (dl_dir l) segs (dl_hard l, dl_entries l)"
      "dl_activeSeq l = of_nat (length segs)" "dl_activeSize l = int (length (last segs))"
    and ok: "\<not> dl_closed l" "dl_failed l = None"
    using assms(1) by (auto simp: dl_inv_def)
  let ?last = "last_index (dl_entries l)" let ?m = "(dl_hard l, dl_entries l)"
  have old: ?thesis if f: "log_files unmarshal (dl_dir l1) segs1 ?m" for segs1
  proof -
    have "segs_replay unmarshal (butlast segs1 @ [last segs1]) empty_mirror ?m" using f by (simp add: log_files_def)
    then obtain m1 where "segs_replay unmarshal (butlast segs1) empty_mirror m1"
        "replay unmarshal True (last segs1) m1 0 = Inr (?m, None)"
      by (auto simp: segs_replay_append)
    with f show ?thesis
      by (intro exI [of _ segs1] exI [of _ m1] exI [of _ ?m] exI [of _ None] exI [of _ 0]) (simp add: log_files_def)
  qed
  show ?thesis
  proof (cases "checkContiguous es ?last")
    case (Some e)
    then have "l1 = l" using assms(2) ok by (auto simp: DiskLog_Save_def split: if_splits)
    with inv(1) show ?thesis using old by blast
  next
    case chk: None
    show ?thesis
    proof (cases "encodeBatch marshal hs es ?last")
      case (Inl e)
      then have "l1 = l" using assms(2) ok chk by (auto simp: DiskLog_Save_def split: if_splits)
      with inv(1) show ?thesis using old by blast
    next
      case b: (Inr batch)
      obtain l2 e where rot: "rotateIfNeeded io (int (length batch)) l = (l2, e)" by fastforce
      obtain segs2 where s2: "log_files unmarshal (dl_dir l2) segs2 ?m" "e = None \<Longrightarrow> dl_activeSeq l2 = of_nat (length segs2)"
        using rotateIfNeeded_files [OF inv rot] by blast
      have c: "contiguous_from 0 (dl_entries l)" "length (dl_entries l) < 2 ^ 63"
        using inv(1) by (auto simp: log_files_def)
      show ?thesis
      proof (cases "hs = None \<and> es = [] \<or> e \<noteq> None")
        case True
        then have "dl_dir l1 = dl_dir l \<or> dl_dir l1 = dl_dir l2"
          using assms(2) ok chk b rot by (auto simp: DiskLog_Save_def split: if_splits option.splits)
        with inv(1) s2(1) show ?thesis using old by metis
      next
        case False
        let ?k = "min (io_written io) (length batch)"
        have dir: "dl_dir l1 = append_file (segmentName (dl_activeSeq l2)) (take ?k batch) (dl_dir l2)"
          using assms(2) ok chk b rot False by (auto simp: DiskLog_Save_def Let_def split: if_splits)
        obtain ps where ps: "batch = frames ps" "list_all2 (payload_of marshal) ps (batch_records hs es ?last)"
          using encodeBatch_frames [OF b] by blast
        have "segs_replay unmarshal (butlast segs2 @ [last segs2]) empty_mirror ?m" using s2(1) by (simp add: log_files_def)
        then obtain m1 where m1: "segs_replay unmarshal (butlast segs2) empty_mirror m1"
            "replay unmarshal True (last segs2) m1 0 = Inr (?m, None)"
          by (auto simp: segs_replay_append)
        obtain j mj t where J: "apply_records (take j (batch_records hs es ?last)) ?m = Inr mj"
            "replay unmarshal True (take ?k (frames ps)) ?m (0 + length (last segs2)) = Inr (mj, t)"
          using replay_torn_frames [OF ps(2) apply_batch_records [OF c(1) chk c(2) assms(3)], of ?k] ps(1) by (metis min.cobounded2)
        have "dir_has (dl_dir l1) (butlast segs2 @ [last segs2 @ take ?k batch])"
          unfolding dir using s2 False by (auto simp: log_files_def intro: dir_has_append_file)
        moreover have "replay unmarshal True (last segs2 @ take ?k batch) m1 0 = Inr (mj, t)"
          using replay_append [OF m1(2), of True "take ?k batch"] J(2) ps(1) by simp
        ultimately show ?thesis
          using m1(1) J(1) by (intro exI [of _ "butlast segs2 @ [last segs2 @ take ?k batch]"] exI [of _ m1] exI [of _ mj] exI [of _ t] exI [of _ j]) simp
      qed
    qed
  qed
qed

end

end
