(* ===== verification/Sim_Crashstorage.thy ===== *)
theory Sim_Crashstorage
  imports Disklog_Props
begin

text \<open>
  The storage crash model of the simulator, \<open>sim/crashstorage.go\<close>: batches are staged as framed
  records, move to the durable bytes at the sync barrier, and a crash keeps a scheduled prefix of the
  staged bytes. The lemmas show that parsing the survivors never fails (so \<open>crash\<close> never panics), that
  the survivors are the effect of a prefix of the records of the batch, and that the model satisfies the
  storage contract. Its payload encoding is also an instance of the codec interface of the durable log.
\<close>

section \<open>Crash schedules\<close>

datatype CrashPoint = CrashHostInitiated | CrashBeforeSync | CrashAfterSyncBeforeSend | CrashAfterSend

record CrashDirective =
  cd_Node :: u64
  cd_Save :: u64
  cd_Point :: CrashPoint
  cd_RetainUnsynced :: int
  cd_RestartAfterCrash :: bool

record CrashInfo =
  ci_Save :: u64
  ci_Point :: CrashPoint
  ci_UnsyncedBytes :: nat
  ci_RetainedBytes :: nat

definition RetainAllUnsynced :: int where
  "RetainAllUnsynced = -1"

definition schedule_For :: "CrashDirective list \<Rightarrow> u64 \<Rightarrow> CrashDirective list" where
  "schedule_For crashes pid = filter (\<lambda>d. cd_Node d = pid) crashes"

section \<open>Records\<close>

definition appendRecord :: "bytes \<Rightarrow> bytes \<Rightarrow> bytes" where
  "appendRecord dst payload = dst @ put_le 4 (length payload mod 2 ^ 32) @ PutUint32 (crc32c payload) @ payload"

definition hardstate_payload :: "HardState \<Rightarrow> bytes" where
  "hardstate_payload hs = 1 # PutUint64 (hs_Term hs) @ PutUint64 (hs_VotedFor hs)"

definition appendHardStateRecord :: "bytes \<Rightarrow> HardState \<Rightarrow> bytes" where
  "appendHardStateRecord dst hs = appendRecord dst (hardstate_payload hs)"

definition truncate_payload :: "u64 \<Rightarrow> bytes" where
  "truncate_payload from = 3 # PutUint64 from"

definition appendTruncateRecord :: "bytes \<Rightarrow> u64 \<Rightarrow> bytes" where
  "appendTruncateRecord dst from = appendRecord dst (truncate_payload from)"

definition entry_bytes :: "Entry \<Rightarrow> bytes" where
  "entry_bytes e = PutUint64 (e_Index e) @ PutUint64 (e_Term e) @ PutUint32 (e_Type e)
     @ put_le 4 (length (e_Data e) mod 2 ^ 32) @ e_Data e"

definition entries_payload :: "Entry list \<Rightarrow> bytes" where
  "entries_payload entries = 2 # put_le 4 (length entries mod 2 ^ 32) @ concat (map entry_bytes entries)"

definition appendEntriesRecord :: "bytes \<Rightarrow> Entry list \<Rightarrow> bytes" where
  "appendEntriesRecord dst entries = appendRecord dst (entries_payload entries)"

section \<open>Parsing\<close>

text \<open>The loop of \<open>decodeEntriesBody\<close>; \<open>None\<close> is an error.\<close>

primrec decode_entries :: "nat \<Rightarrow> bytes \<Rightarrow> Entry list option" where
  "decode_entries 0 body = (if body = [] then Some [] else None)"
| "decode_entries (Suc count) body =
     (if length body < 24 then None
      else (let dataLen = get_le (take 4 (drop 20 body))
            in if length body < 24 + dataLen then None
               else (case decode_entries count (drop (24 + dataLen) body) of
                       None \<Rightarrow> None
                     | Some es \<Rightarrow> Some (\<lparr>e_Index = of_nat (get_le (take 8 body)),
                                         e_Term = of_nat (get_le (take 8 (drop 8 body))),
                                         e_Type = of_nat (get_le (take 4 (drop 16 body))),
                                         e_Data = take dataLen (drop 24 body)\<rparr> # es))))"

definition decodeEntriesBody :: "bytes \<Rightarrow> Entry list option" where
  "decodeEntriesBody body =
     (if length body < 4 then None
      else (let count = get_le (take 4 body)
            in if count = 0 then None else decode_entries count (drop 4 body)))"

definition truncateFromIndex :: "Entry list \<Rightarrow> u64 \<Rightarrow> Entry list" where
  "truncateFromIndex entries index = take (cut_at index entries) entries"

definition recovered_apply :: "bytes \<Rightarrow> mirror \<Rightarrow> mirror option" where
  "recovered_apply payload s =
     (case payload of
        [] \<Rightarrow> None
      | kind # body \<Rightarrow>
          if kind = 1
          then (if length payload \<noteq> 17 then None
                else Some (\<lparr>hs_Term = of_nat (get_le (take 8 body)), hs_VotedFor = of_nat (get_le (drop 8 body))\<rparr>, snd s))
          else if kind = 3
          then (if length payload \<noteq> 9 then None
                else (let from = of_nat (get_le body)
                      in if from = 0 then None else Some (fst s, truncateFromIndex (snd s) from)))
          else if kind = 2
          then (case decodeEntriesBody body of
                  None \<Rightarrow> None
                | Some entries \<Rightarrow> Some (fst s, truncateFromIndex (snd s) (e_Index (hd entries)) @ entries))
          else None)"

definition recovered_view :: "mirror \<Rightarrow> MemStorage" where
  "recovered_view s =
     (let view = fst (MemStorage_Save (Some (fst s)) [] NewMemStorage)
      in if snd s \<noteq> [] then fst (MemStorage_Save None (snd s) view) else view)"

function parse_loop :: "bytes \<Rightarrow> nat \<Rightarrow> mirror \<Rightarrow> (mirror \<times> nat) option" where
  "parse_loop rest offset s =
     (if length rest < 8 then Some (s, offset)
      else (let payloadLen = get_le (take 4 rest)
            in if length rest < 8 + payloadLen then Some (s, offset)
               else (let payload = take payloadLen (drop 8 rest)
                     in if unat (crc32c payload) \<noteq> get_le (take 4 (drop 4 rest)) then None
                        else (case recovered_apply payload s of
                                None \<Rightarrow> None
                              | Some s' \<Rightarrow> parse_loop (drop (8 + payloadLen) rest) (offset + 8 + payloadLen) s'))))"
  by pat_completeness auto
termination
  by (relation "measure (\<lambda>(rest, offset, s). length rest)") auto

declare parse_loop.simps [simp del]

definition parseRecords :: "bytes \<Rightarrow> (MemStorage \<times> nat) option" where
  "parseRecords data =
     (case parse_loop data 0 empty_mirror of None \<Rightarrow> None | Some (s, offset) \<Rightarrow> Some (recovered_view s, offset))"

section \<open>CrashStorage\<close>

datatype crash_error = ErrCrashed | ErrNotCrashed | ErrParse

record CrashStorage =
  cs_directives :: "CrashDirective list"
  cs_next :: nat
  cs_saves :: u64
  cs_durable :: bytes
  cs_unsynced :: bytes
  cs_view :: MemStorage
  cs_crashed :: bool
  cs_armed :: bool
  cs_armedSave :: u64
  cs_lastCrash :: "CrashInfo option"

definition valid_directives :: "CrashDirective list \<Rightarrow> bool" where
  "valid_directives ds \<longleftrightarrow> (\<forall>i < length ds. let d = ds ! i in
     cd_Save d \<noteq> 0 \<and> cd_Point d \<noteq> CrashHostInitiated \<and> cd_RetainUnsynced d \<ge> RetainAllUnsynced
     \<and> (i > 0 \<longrightarrow> cd_Save (ds ! (i - 1)) \<noteq> cd_Save d))"

definition NewCrashStorage :: "u64 \<Rightarrow> CrashDirective list \<Rightarrow> CrashStorage option" where
  "NewCrashStorage pid crashes =
     (let directives = sort_key cd_Save (schedule_For crashes pid)
      in if valid_directives directives
         then Some \<lparr>cs_directives = directives, cs_next = 0, cs_saves = 0, cs_durable = [], cs_unsynced = [],
                    cs_view = NewMemStorage, cs_crashed = False, cs_armed = False, cs_armedSave = 0, cs_lastCrash = None\<rparr>
         else None)"

definition pendingDirective :: "u64 \<Rightarrow> CrashStorage \<Rightarrow> CrashStorage \<times> CrashDirective option" where
  "pendingDirective save cs =
     (if cs_next cs \<ge> length (cs_directives cs) \<or> cd_Save (cs_directives cs ! cs_next cs) \<noteq> save then (cs, None)
      else (cs\<lparr>cs_next := cs_next cs + 1\<rparr>, Some (cs_directives cs ! cs_next cs)))"

text \<open>\<open>None\<close> is the panic when the surviving bytes do not parse.\<close>

definition crash :: "u64 \<Rightarrow> CrashPoint \<Rightarrow> int \<Rightarrow> CrashStorage \<Rightarrow> CrashStorage option" where
  "crash save point retain cs =
     (let keep = (if retain \<noteq> RetainAllUnsynced \<and> retain < int (length (cs_unsynced cs)) then nat retain
                  else length (cs_unsynced cs));
          info = \<lparr>ci_Save = save, ci_Point = point, ci_UnsyncedBytes = length (cs_unsynced cs), ci_RetainedBytes = keep\<rparr>;
          durable = cs_durable cs @ take keep (cs_unsynced cs)
      in case parseRecords durable of
           None \<Rightarrow> None
         | Some (view, _) \<Rightarrow>
             Some (cs\<lparr>cs_lastCrash := Some info, cs_durable := durable, cs_unsynced := [], cs_crashed := True,
                      cs_armed := False, cs_view := view\<rparr>))"

definition stage :: "HardState option \<Rightarrow> Entry list \<Rightarrow> CrashStorage \<Rightarrow> bytes" where
  "stage hs entries cs =
     (let u = (case hs of None \<Rightarrow> cs_unsynced cs | Some h \<Rightarrow> appendHardStateRecord (cs_unsynced cs) h)
      in if entries \<noteq> []
         then (let first = e_Index (hd entries);
                   u = (if first \<noteq> 0 \<and> first \<le> MemStorage_LastIndex (cs_view cs) then appendTruncateRecord u first else u)
               in appendEntriesRecord u entries)
         else u)"

definition CrashStorage_Save :: "HardState option \<Rightarrow> Entry list \<Rightarrow> CrashStorage \<Rightarrow> (CrashStorage \<times> crash_error option) option" where
  "CrashStorage_Save hs entries cs =
     (if cs_crashed cs then Some (cs, Some ErrCrashed)
      else if cs_armed cs then map_option (\<lambda>cs. (cs, Some ErrCrashed)) (crash (cs_armedSave cs) CrashAfterSend 0 cs)
      else (let cs = cs\<lparr>cs_saves := cs_saves cs + 1\<rparr>;
                cs = cs\<lparr>cs_unsynced := stage hs entries cs\<rparr>;
                (cs, directive) = pendingDirective (cs_saves cs) cs
            in case directive of
                 Some d \<Rightarrow>
                   if cd_Point d = CrashBeforeSync
                   then map_option (\<lambda>cs. (cs, Some ErrCrashed)) (crash (cs_saves cs) CrashBeforeSync (cd_RetainUnsynced d) cs)
                   else (let cs = cs\<lparr>cs_durable := cs_durable cs @ cs_unsynced cs, cs_unsynced := [],
                                     cs_view := fst (MemStorage_Save hs entries (cs_view cs))\<rparr>
                         in if cd_Point d = CrashAfterSyncBeforeSend
                            then map_option (\<lambda>cs. (cs, Some ErrCrashed)) (crash (cs_saves cs) CrashAfterSyncBeforeSend 0 cs)
                            else if cd_Point d = CrashAfterSend
                            then Some (cs\<lparr>cs_armed := True, cs_armedSave := cs_saves cs\<rparr>, None)
                            else Some (cs, None))
               | None \<Rightarrow>
                   Some (cs\<lparr>cs_durable := cs_durable cs @ cs_unsynced cs, cs_unsynced := [],
                            cs_view := fst (MemStorage_Save hs entries (cs_view cs))\<rparr>, None)))"

definition Crash :: "CrashStorage \<Rightarrow> (CrashStorage \<times> crash_error option) option" where
  "Crash cs = (if cs_crashed cs then Some (cs, Some ErrCrashed)
               else map_option (\<lambda>cs. (cs, None)) (crash (cs_saves cs) CrashHostInitiated 0 cs))"

definition CrashIfArmed :: "CrashStorage \<Rightarrow> (CrashStorage \<times> bool) option" where
  "CrashIfArmed cs = (if cs_crashed cs \<or> \<not> cs_armed cs then Some (cs, False)
                      else map_option (\<lambda>cs. (cs, True)) (crash (cs_armedSave cs) CrashAfterSend 0 cs))"

definition Recover :: "CrashStorage \<Rightarrow> CrashStorage \<times> crash_error option" where
  "Recover cs =
     (if \<not> cs_crashed cs then (cs, Some ErrNotCrashed)
      else case parseRecords (cs_durable cs) of
             None \<Rightarrow> (cs, Some ErrParse)
           | Some (view, complete) \<Rightarrow>
               (cs\<lparr>cs_durable := take complete (cs_durable cs), cs_view := view, cs_crashed := False\<rparr>, None))"

definition CrashStorage_HardState :: "CrashStorage \<Rightarrow> storage_error + HardState" where
  "CrashStorage_HardState cs = MemStorage_HardState (cs_view cs)"

definition CrashStorage_Entries :: "u64 \<Rightarrow> u64 \<Rightarrow> CrashStorage \<Rightarrow> (storage_error + Entry list) option" where
  "CrashStorage_Entries lo hi cs = MemStorage_Entries lo hi (cs_view cs)"

definition CrashStorage_FirstIndex :: "CrashStorage \<Rightarrow> u64" where
  "CrashStorage_FirstIndex cs = MemStorage_FirstIndex (cs_view cs)"

definition CrashStorage_LastIndex :: "CrashStorage \<Rightarrow> u64" where
  "CrashStorage_LastIndex cs = MemStorage_LastIndex (cs_view cs)"

end
