(* ===== verification/Sim_Crash_Props.thy ===== *)
theory Sim_Crash_Props
  imports Sim_Crashstorage
begin

text \<open>
  Correctness of the storage crash model of \<open>sim/crashstorage.go\<close>: the payloads decode to what was
  encoded, the bytes that survive a crash always parse, and they parse to the effect of a prefix of the
  records of the interrupted batch. The model is an instance of the storage contract, and its payloads
  are an instance of the codec interface of the durable log.
\<close>

section \<open>Round trips of the payloads\<close>

lemma recovered_apply_hardstate: "recovered_apply (hardstate_payload h) s = Some (h, snd s)"
  by (simp add: recovered_apply_def hardstate_payload_def)

lemma recovered_apply_truncate:
  "from \<noteq> 0 \<Longrightarrow> recovered_apply (truncate_payload from) s = Some (fst s, truncateFromIndex (snd s) from)"
  by (simp add: recovered_apply_def truncate_payload_def)

lemma length_entry_bytes [simp]: "length (entry_bytes e) = 24 + length (e_Data e)"
  by (simp add: entry_bytes_def)

definition entries_fit :: "Entry list \<Rightarrow> bool" where
  "entries_fit es \<longleftrightarrow> length (entries_payload es) < 2 ^ 32"

lemma length_entries_payload: "length (entries_payload es) = 5 + (\<Sum>e\<leftarrow>es. 24 + length (e_Data e))"
  by (simp add: entries_payload_def length_concat comp_def)

lemma entry_fits: "e \<in> set es \<Longrightarrow> 24 + length (e_Data e) \<le> (\<Sum>e\<leftarrow>es. 24 + length (e_Data e))"
  by (induction es) auto

lemma entries_count_le: "24 * length es \<le> (\<Sum>e\<leftarrow>es. 24 + length (e_Data e))"
  by (induction es) auto

lemma decode_entries_concat:
  assumes "\<And>e. e \<in> set es \<Longrightarrow> length (e_Data e) < 2 ^ 32"
  shows "decode_entries (length es) (concat (map entry_bytes es)) = Some es"
  using assms
proof (induction es)
  case (Cons e es)
  let ?rest = "concat (map entry_bytes es)" and ?d = "e_Data e"
  have d: "length ?d mod 2 ^ 32 = length ?d" using Cons.prems [of e] by simp
  have len: "get_le (put_le 4 (length ?d)) = length ?d" using Cons.prems [of e] by (intro get_put_le) simp
  let ?b = "PutUint64 (e_Index e) @ PutUint64 (e_Term e) @ PutUint32 (e_Type e) @ put_le 4 (length ?d) @ ?d @ ?rest"
  have b: "concat (map entry_bytes (e # es)) = ?b" using d by (simp add: entry_bytes_def)
  have "take 8 ?b = PutUint64 (e_Index e)" "take 8 (drop 8 ?b) = PutUint64 (e_Term e)"
    "take 4 (drop 16 ?b) = PutUint32 (e_Type e)" "take 4 (drop 20 ?b) = put_le 4 (length ?d)"
    "take (length ?d) (drop 24 ?b) = ?d" "drop (24 + length ?d) ?b = ?rest" "length ?b = 24 + length ?d + length ?rest"
    by simp_all
  with Cons len show ?case unfolding b by (simp add: Let_def)
qed simp

lemma decodeEntriesBody_payload:
  assumes "entries_fit es" "es \<noteq> []"
  shows "decodeEntriesBody (tl (entries_payload es)) = Some es"
proof -
  have L: "5 + (\<Sum>e\<leftarrow>es. 24 + length (e_Data e)) < 2 ^ 32" using assms(1) by (simp add: entries_fit_def length_entries_payload)
  then have n: "length es < 2 ^ 32" using entries_count_le [of es] by linarith
  have "decode_entries (length es) (concat (map entry_bytes es)) = Some es"
    using L entry_fits [of _ es] by (intro decode_entries_concat) fastforce
  moreover have "get_le (put_le 4 (length es)) = length es" using n by (intro get_put_le) simp
  ultimately show ?thesis
    using n assms(2) by (simp add: entries_payload_def decodeEntriesBody_def Let_def)
qed

lemma recovered_apply_entries:
  assumes "entries_fit es" "es \<noteq> []"
  shows "recovered_apply (entries_payload es) s = Some (fst s, truncateFromIndex (snd s) (e_Index (hd es)) @ es)"
  using decodeEntriesBody_payload [OF assms] by (simp add: recovered_apply_def entries_payload_def)

section \<open>Parsing what was staged\<close>

lemma parse_record:
  assumes "length p < 2 ^ 32"
  shows "parse_loop (appendRecord [] p @ extra) offset s =
    (case recovered_apply p s of None \<Rightarrow> None | Some s' \<Rightarrow> parse_loop extra (offset + 8 + length p) s')"
proof -
  let ?r = "appendRecord [] p @ extra"
  have r: "?r = put_le 4 (length p) @ PutUint32 (crc32c p) @ p @ extra" using assms by (simp add: appendRecord_def)
  have "get_le (take 4 ?r) = length p" using assms unfolding r by (simp add: get_put_le)
  moreover have "get_le (take 4 (drop 4 ?r)) = unat (crc32c p)" "take (length p) (drop 8 ?r) = p"
    "drop (8 + length p) ?r = extra" "length ?r = 8 + length p + length extra"
    unfolding r by simp_all
  ultimately show ?thesis by (subst parse_loop.simps) (simp add: Let_def split: option.splits)
qed

lemma parse_torn_record:
  assumes "length p < 2 ^ 32" "k < 8 + length p"
  shows "parse_loop (take k (appendRecord [] p)) offset s = Some (s, offset)"
proof (cases "k < 8")
  case True
  then have "length (take k (appendRecord [] p)) < 8" by (simp add: min.strict_coboundedI2)
  then show ?thesis by (simp only: parse_loop.simps if_True)
next
  case False
  let ?r = "take k (appendRecord [] p)"
  have r: "?r = put_le 4 (length p) @ PutUint32 (crc32c p) @ take (k - 8) p"
    using False assms(1) by (simp add: appendRecord_def)
  have "get_le (take 4 ?r) = length p" using assms unfolding r by (simp add: get_put_le)
  moreover have "length ?r = k" using assms False unfolding r by simp
  ultimately show ?thesis using assms(2) False by (subst parse_loop.simps) (simp add: Let_def)
qed

lemma parse_append:
  "parse_loop buf offset s = Some (s', offset + length buf) \<Longrightarrow>
   parse_loop (buf @ extra) offset s = parse_loop extra (offset + length buf) s'"
proof (induction buf offset s rule: parse_loop.induct)
  case (1 buf offset s)
  show ?case
  proof (cases "buf = []")
    case True
    then have "s' = s" using "1.prems" by (simp add: parse_loop.simps [of "[]"])
    with True show ?thesis by simp
  next
    case ne: False
    let ?n = "get_le (take 4 buf)"
    have a: "\<not> length buf < 8" "\<not> length buf < 8 + ?n"
      using "1.prems" ne by (auto simp: parse_loop.simps [of buf] Let_def split: if_splits)
    let ?p = "take ?n (drop 8 buf)"
    from "1.prems" a obtain s1 where s1: "unat (crc32c ?p) = get_le (take 4 (drop 4 buf))" "recovered_apply ?p s = Some s1"
        "parse_loop (drop (8 + ?n) buf) (offset + 8 + ?n) s1 = Some (s', offset + length buf)"
      by (subst (asm) parse_loop.simps) (auto simp: Let_def split: if_splits option.splits)
    have len: "offset + 8 + ?n + length (drop (8 + ?n) buf) = offset + length buf" using a by simp
    have "parse_loop (drop (8 + ?n) buf @ extra) (offset + 8 + ?n) s1 = parse_loop extra (offset + length buf) s'"
      using "1.IH" [OF a(1) refl a(2) refl _ s1(2)] s1 len by (metis)
    moreover have "take 4 (buf @ extra) = take 4 buf" "take ?n (drop 8 (buf @ extra)) = ?p"
      "take 4 (drop 4 (buf @ extra)) = take 4 (drop 4 buf)" "drop (8 + ?n) (buf @ extra) = drop (8 + ?n) buf @ extra"
      using a by auto
    ultimately show ?thesis
      using a s1 by (subst parse_loop.simps) (simp add: Let_def)
  qed
qed

text \<open>A sequence of records, and its effect.\<close>

definition records :: "bytes list \<Rightarrow> bytes" where
  "records ps = concat (map (appendRecord []) ps)"

lemma records_simps [simp]: "records [] = []" "records (p # ps) = appendRecord [] p @ records ps"
  "records (ps @ qs) = records ps @ records qs"
  by (simp_all add: records_def)

lemma length_appendRecord [simp]: "length (appendRecord [] p) = 8 + length p"
  by (simp add: appendRecord_def)

lemma appendRecord_eq: "appendRecord dst p = dst @ appendRecord [] p"
  by (simp add: appendRecord_def)

fun apply_payloads :: "bytes list \<Rightarrow> mirror \<Rightarrow> mirror option" where
  "apply_payloads [] s = Some s"
| "apply_payloads (p # ps) s = (case recovered_apply p s of None \<Rightarrow> None | Some s' \<Rightarrow> apply_payloads ps s')"

lemma parse_records:
  assumes "\<And>p. p \<in> set ps \<Longrightarrow> length p < 2 ^ 32" "apply_payloads ps s = Some s'"
  shows "parse_loop (records ps @ extra) offset s = parse_loop extra (offset + length (records ps)) s'"
  using assms
proof (induction ps arbitrary: offset s)
  case (Cons p ps)
  then obtain s1 where "recovered_apply p s = Some s1" "apply_payloads ps s1 = Some s'"
    by (auto split: option.splits)
  with Cons show ?case by (simp add: parse_record add.assoc)
qed simp

lemma parse_torn_records:
  assumes "\<And>p. p \<in> set ps \<Longrightarrow> length p < 2 ^ 32" "apply_payloads ps s = Some s'" "k \<le> length (records ps)"
  shows "\<exists>j \<le> length ps. \<exists>sj. apply_payloads (take j ps) s = Some sj
    \<and> parse_loop (take k (records ps)) offset s = Some (sj, offset + length (records (take j ps)))
    \<and> length (records (take j ps)) \<le> k \<and> (k = length (records ps) \<longrightarrow> j = length ps)"
  using assms
proof (induction ps arbitrary: offset s k)
  case Nil
  then show ?case by (simp add: parse_loop.simps)
next
  case (Cons p ps)
  then obtain s1 where s1: "recovered_apply p s = Some s1" "apply_payloads ps s1 = Some s'"
    by (auto split: option.splits)
  show ?case
  proof (cases "k < 8 + length p")
    case True
    then have "parse_loop (take k (records (p # ps))) offset s = Some (s, offset)"
      using parse_torn_record [of p k] Cons.prems(1) by simp
    with True show ?thesis by (intro exI [of _ 0]) auto
  next
    case False
    let ?L = "8 + length p"
    have "k - ?L \<le> length (records ps)" using Cons.prems(3) by simp
    from Cons.IH [OF _ s1(2) this, of "offset + ?L"] Cons.prems(1)
    obtain j sj where J: "j \<le> length ps" "apply_payloads (take j ps) s1 = Some sj"
      "parse_loop (take (k - ?L) (records ps)) (offset + ?L) s1 = Some (sj, offset + ?L + length (records (take j ps)))"
      "length (records (take j ps)) \<le> k - ?L" "k - ?L = length (records ps) \<longrightarrow> j = length ps"
      by auto
    have t: "take k (records (p # ps)) = appendRecord [] p @ take (k - ?L) (records ps)" using False by simp
    have "parse_loop (take k (records (p # ps))) offset s = Some (sj, offset + ?L + length (records (take j ps)))"
      unfolding t using J(3) s1(1) Cons.prems(1) by (simp add: parse_record add.assoc)
    with J s1 False show ?thesis by (intro exI [of _ "Suc j"]) auto
  qed
qed

section \<open>The contract\<close>

definition batch_payloads :: "HardState option \<Rightarrow> Entry list \<Rightarrow> u64 \<Rightarrow> bytes list" where
  "batch_payloads hs es lastIx =
     (case hs of None \<Rightarrow> [] | Some h \<Rightarrow> [hardstate_payload h])
     @ (if es = [] then []
        else (if e_Index (hd es) \<noteq> 0 \<and> e_Index (hd es) \<le> lastIx then [truncate_payload (e_Index (hd es))] else [])
             @ [entries_payload es])"

lemma stage_records: "stage hs es cs = cs_unsynced cs @ records (batch_payloads hs es (MemStorage_LastIndex (cs_view cs)))"
  by (cases hs) (simp_all add: stage_def batch_payloads_def appendHardStateRecord_def appendTruncateRecord_def
      appendEntriesRecord_def Let_def appendRecord_eq [of "cs_unsynced cs @ _"] appendRecord_eq [of "cs_unsynced cs"]
      appendRecord_eq [of "(cs_unsynced cs @ _) @ _"])

lemma batch_payloads_fit: "entries_fit es \<Longrightarrow> p \<in> set (batch_payloads hs es i) \<Longrightarrow> length p < 2 ^ 32"
  by (auto simp: batch_payloads_def entries_fit_def hardstate_payload_def truncate_payload_def split: option.splits if_splits)

lemma truncate_twice:
  "truncateFromIndex (truncateFromIndex es i) i = truncateFromIndex es i"
  by (simp add: truncateFromIndex_def take_cut_at takeWhile_idem)

lemma apply_batch_payloads:
  assumes "entries_fit es"
  shows "apply_payloads (batch_payloads hs es i) (h, old) = Some (merge_hard h hs, merge_log old es)"
proof -
  have m: "es \<noteq> [] \<Longrightarrow> truncateFromIndex old (e_Index (hd es)) @ es = merge_log old es"
    by (simp add: merge_log_def truncateFromIndex_def take_cut_at)
  show ?thesis
    using assms m
    by (cases hs) (auto simp: batch_payloads_def merge_hard_def merge_log_def [of old "[]"] recovered_apply_hardstate
        recovered_apply_truncate recovered_apply_entries truncate_twice)
qed

definition view_mirror :: "MemStorage \<Rightarrow> mirror" where
  "view_mirror v = (ms_hard v, ms_entries v)"

lemma recovered_view_mirror: "view_mirror (recovered_view s) = s"
  by (cases s) (auto simp: view_mirror_def recovered_view_def MemStorage_Save_eq Let_def merge_hard_def merge_log_def NewMemStorage_def)

lemma view_mirror_inject: "view_mirror v = view_mirror w \<Longrightarrow> v = w"
  by (cases v, cases w) (simp add: view_mirror_def)

lemma view_mirror_Save:
  "view_mirror (fst (MemStorage_Save hs es v)) = (merge_hard (fst (view_mirror v)) hs, merge_log (snd (view_mirror v)) es)"
  by (simp add: view_mirror_def MemStorage_Save_eq)

text \<open>A running storage: nothing is staged and the durable bytes are complete records whose effect
  is the view. A crashed storage: the view is what the surviving bytes parse to.\<close>

definition cs_running :: "CrashStorage \<Rightarrow> bool" where
  "cs_running cs \<longleftrightarrow> \<not> cs_crashed cs \<and> cs_unsynced cs = []
     \<and> parse_loop (cs_durable cs) 0 empty_mirror = Some (view_mirror (cs_view cs), length (cs_durable cs))"

definition cs_down :: "CrashStorage \<Rightarrow> bool" where
  "cs_down cs \<longleftrightarrow> cs_crashed cs \<and> cs_unsynced cs = []
     \<and> (\<exists>n \<le> length (cs_durable cs). parse_loop (cs_durable cs) 0 empty_mirror = Some (view_mirror (cs_view cs), n)
          \<and> parse_loop (take n (cs_durable cs)) 0 empty_mirror = Some (view_mirror (cs_view cs), n))"

text \<open>A crash in the middle of the records \<open>ps\<close>.\<close>

lemma crash_prefix:
  assumes "parse_loop (cs_durable cs) 0 empty_mirror = Some (s, length (cs_durable cs))"
    and "cs_unsynced cs = records ps" "\<And>p. p \<in> set ps \<Longrightarrow> length p < 2 ^ 32" "apply_payloads ps s = Some s'"
  shows "\<exists>cs' j. crash save point retain cs = Some cs' \<and> cs_down cs' \<and> j \<le> length ps
    \<and> apply_payloads (take j ps) s = Some (view_mirror (cs_view cs'))
    \<and> (retain = RetainAllUnsynced \<longrightarrow> j = length ps) \<and> (retain = 0 \<longrightarrow> view_mirror (cs_view cs') = s)"
proof -
  let ?D = "length (cs_durable cs)"
  define keep where "keep = (if retain \<noteq> RetainAllUnsynced \<and> retain < int (length (cs_unsynced cs)) then nat retain
                  else length (cs_unsynced cs))"
  have kl: "keep \<le> length (records ps)" using assms(2) by (auto simp: keep_def)
  obtain j sj where J: "j \<le> length ps" "apply_payloads (take j ps) s = Some sj"
      "parse_loop (take keep (records ps)) ?D s = Some (sj, ?D + length (records (take j ps)))"
      "length (records (take j ps)) \<le> keep" "keep = length (records ps) \<longrightarrow> j = length ps"
    using parse_torn_records [OF assms(3,4) kl, of ?D] by auto
  let ?d = "cs_durable cs @ take keep (records ps)" and ?n = "?D + length (records (take j ps))"
  have full: "parse_loop ?d 0 empty_mirror = Some (sj, ?n)"
    using parse_append [of "cs_durable cs" 0 empty_mirror s "take keep (records ps)"] assms(1) J(3) by simp
  have "take ?n ?d = cs_durable cs @ records (take j ps)"
  proof -
    have "records ps = records (take j ps) @ records (drop j ps)" by (metis append_take_drop_id records_simps(3))
    then have "take (length (records (take j ps))) (take keep (records ps)) = records (take j ps)"
      using J(4) by (metis append_eq_conv_conj min.absorb1 take_take)
    then show ?thesis by simp
  qed
  moreover have "parse_loop (cs_durable cs @ records (take j ps)) 0 empty_mirror = Some (sj, ?n)"
  proof -
    have "parse_loop (records (take j ps) @ []) ?D s = parse_loop [] (?D + length (records (take j ps))) sj"
      using assms(3) J(2) by (intro parse_records) (auto dest: in_set_takeD)
    then show ?thesis
      using parse_append [of "cs_durable cs" 0 empty_mirror s "records (take j ps)"] assms(1)
      by (simp add: parse_loop.simps [of "[]"])
  qed
  ultimately have pre: "parse_loop (take ?n ?d) 0 empty_mirror = Some (sj, ?n)" by simp
  define info where "info = \<lparr>ci_Save = save, ci_Point = point, ci_UnsyncedBytes = length (cs_unsynced cs), ci_RetainedBytes = keep\<rparr>"
  define cs' where "cs' = cs\<lparr>cs_lastCrash := Some info, cs_durable := ?d, cs_unsynced := [], cs_crashed := True,
    cs_armed := False, cs_view := recovered_view sj\<rparr>"
  have c: "crash save point retain cs = Some cs'"
    unfolding crash_def Let_def keep_def [symmetric] parseRecords_def cs'_def info_def using full assms(2) by simp
  have "?n \<le> length ?d" using J(4) kl by simp
  then have "cs_down cs'" using full pre by (auto simp: cs_down_def cs'_def recovered_view_mirror)
  moreover have "retain = RetainAllUnsynced \<longrightarrow> j = length ps" using J(5) assms(2) by (auto simp: keep_def)
  moreover have "retain = 0 \<longrightarrow> sj = s"
  proof
    assume "retain = 0"
    then have "keep = 0" using assms(2) by (auto simp: keep_def RetainAllUnsynced_def)
    then show "sj = s" using J(3) by (simp add: parse_loop.simps [of "[]"])
  qed
  ultimately show ?thesis using c J(1,2) by (auto simp: cs'_def recovered_view_mirror)
qed

lemma Recover_down:
  assumes "cs_down cs"
  shows "\<exists>cs'. Recover cs = (cs', None) \<and> cs_running cs' \<and> cs_view cs' = cs_view cs"
proof -
  obtain n where n: "n \<le> length (cs_durable cs)" "parse_loop (cs_durable cs) 0 empty_mirror = Some (view_mirror (cs_view cs), n)"
      "parse_loop (take n (cs_durable cs)) 0 empty_mirror = Some (view_mirror (cs_view cs), n)"
    and c: "cs_crashed cs" "cs_unsynced cs = []"
    using assms by (auto simp: cs_down_def)
  have "recovered_view (view_mirror (cs_view cs)) = cs_view cs"
    by (rule view_mirror_inject) (rule recovered_view_mirror)
  with n c show ?thesis by (simp add: Recover_def parseRecords_def cs_running_def)
qed

lemma NewCrashStorage_running: "NewCrashStorage pid ds = Some cs \<Longrightarrow> cs_running cs"
  by (auto simp: NewCrashStorage_def cs_running_def Let_def parse_loop.simps view_mirror_def NewMemStorage_def empty_mirror_def
      split: if_splits)

text \<open>Every outcome of a \<open>Save\<close> on a running storage: it never panics; success makes the whole batch
  durable; a crash leaves the effect of a prefix of its records.\<close>

lemma CrashStorage_Save_outcome:
  fixes hs :: "HardState option"
  assumes "cs_running cs" "entries_fit es"
  defines "ps \<equiv> batch_payloads hs es (MemStorage_LastIndex (cs_view cs))"
  shows "\<exists>cs' e. CrashStorage_Save hs es cs = Some (cs', e)
    \<and> (e = None \<longrightarrow> cs_running cs' \<and> view_mirror (cs_view cs') = (merge_hard (ms_hard (cs_view cs)) hs, merge_log (ms_entries (cs_view cs)) es))
    \<and> (e \<noteq> None \<longrightarrow> cs_down cs' \<and> (\<exists>j. apply_payloads (take j ps) (view_mirror (cs_view cs)) = Some (view_mirror (cs_view cs'))))"
proof -
  let ?s = "view_mirror (cs_view cs)"
  let ?m = "(merge_hard (ms_hard (cs_view cs)) hs, merge_log (ms_entries (cs_view cs)) es)"
  have run: "\<not> cs_crashed cs" "cs_unsynced cs = []"
      "parse_loop (cs_durable cs) 0 empty_mirror = Some (?s, length (cs_durable cs))"
    using assms(1) by (auto simp: cs_running_def)
  have ap: "apply_payloads ps ?s = Some ?m"
    unfolding ps_def view_mirror_def by (rule apply_batch_payloads [OF assms(2)])
  have fit: "\<And>p. p \<in> set ps \<Longrightarrow> length p < 2 ^ 32" unfolding ps_def by (rule batch_payloads_fit [OF assms(2)])
  show ?thesis
  proof (cases "cs_armed cs")
    case True
    obtain cs' where "crash (cs_armedSave cs) CrashAfterSend 0 cs = Some cs'" "cs_down cs'" "view_mirror (cs_view cs') = ?s"
      using crash_prefix [OF run(3), of "[]" ?s "cs_armedSave cs" CrashAfterSend 0] run(2) by auto
    with True run show ?thesis by (auto simp: CrashStorage_Save_def intro!: exI [of _ 0])
  next
    case False
    define c1 where "c1 = cs\<lparr>cs_saves := cs_saves cs + 1, cs_unsynced := records ps\<rparr>"
    obtain c2 d where pd: "pendingDirective (cs_saves c1) c1 = (c2, d)" by fastforce
    have c2: "cs_durable c2 = cs_durable cs" "cs_unsynced c2 = records ps" "cs_view c2 = cs_view cs" "cs_crashed c2 = False"
      using pd run by (auto simp: pendingDirective_def c1_def split: if_splits)
    have stg: "stage hs es (cs\<lparr>cs_saves := cs_saves cs + 1\<rparr>) = records ps"
      using run(2) by (simp add: stage_records ps_def)
    define c3 where "c3 = c2\<lparr>cs_durable := cs_durable c2 @ cs_unsynced c2, cs_unsynced := [],
        cs_view := fst (MemStorage_Save hs es (cs_view c2))\<rparr>"
    have v3: "view_mirror (cs_view c3) = ?m"
      unfolding c3_def by (simp add: view_mirror_Save c2) (simp add: view_mirror_def)
    have p3: "parse_loop (cs_durable c3) 0 empty_mirror = Some (?m, length (cs_durable c3))"
      using parse_append [of "cs_durable cs" 0 empty_mirror ?s "records ps"] run(3)
        parse_records [OF fit ap, of "[]" "length (cs_durable cs)"]
      by (simp add: c3_def c2 parse_loop.simps [of "[]"])
    have r3: "cs_running c3" using p3 v3 c2 by (simp add: cs_running_def c3_def)
    have save: "CrashStorage_Save hs es cs = (case d of
        Some d \<Rightarrow> if cd_Point d = CrashBeforeSync
          then map_option (\<lambda>cs. (cs, Some ErrCrashed)) (crash (cs_saves c2) CrashBeforeSync (cd_RetainUnsynced d) c2)
          else if cd_Point d = CrashAfterSyncBeforeSend
          then map_option (\<lambda>cs. (cs, Some ErrCrashed)) (crash (cs_saves c3) CrashAfterSyncBeforeSend 0 c3)
          else if cd_Point d = CrashAfterSend then Some (c3\<lparr>cs_armed := True, cs_armedSave := cs_saves c3\<rparr>, None)
          else Some (c3, None)
      | None \<Rightarrow> Some (c3, None))"
      using False run(1) pd stg by (simp add: CrashStorage_Save_def Let_def c1_def c3_def split: option.splits)
    have A: "\<exists>cs' j. crash sv CrashBeforeSync ret c2 = Some cs' \<and> cs_down cs' \<and> apply_payloads (take j ps) ?s = Some (view_mirror (cs_view cs'))" for sv ret
      using crash_prefix [of c2 ?s ps ?m sv CrashBeforeSync ret] run(3) fit ap c2 by auto
    have B: "\<exists>cs'. crash sv CrashAfterSyncBeforeSend 0 c3 = Some cs' \<and> cs_down cs' \<and> apply_payloads (take (length ps) ps) ?s = Some (view_mirror (cs_view cs'))" for sv
      using crash_prefix [of c3 ?m "[]" ?m sv CrashAfterSyncBeforeSend 0] p3 ap by (auto simp: c3_def)
    have r4: "cs_running (c3\<lparr>cs_armed := True, cs_armedSave := x\<rparr>)" for x using r3 by (simp add: cs_running_def)
    show ?thesis
    proof (cases d)
      case None
      with save r3 v3 show ?thesis by simp
    next
      case (Some dd)
      show ?thesis
      proof (cases "cd_Point dd")
        case CrashBeforeSync
        with save Some A show ?thesis by fastforce
      next
        case CrashAfterSyncBeforeSend
        with save Some B show ?thesis by fastforce
      qed (use save Some r3 r4 v3 in simp_all)
    qed
  qed
qed

text \<open>A panic of \<open>Save\<close> as an error value, for the interface.\<close>

definition crash_save :: "HardState option \<Rightarrow> Entry list \<Rightarrow> CrashStorage \<Rightarrow> CrashStorage \<times> crash_error option" where
  "crash_save hs es cs = (case CrashStorage_Save hs es cs of None \<Rightarrow> (cs, Some ErrParse) | Some r \<Rightarrow> r)"

interpretation crash_storage: raft_storage cs_running "\<lambda>_. entries_fit" "\<lambda>cs. ms_hard (cs_view cs)" "\<lambda>cs. ms_entries (cs_view cs)"
  crash_save CrashStorage_HardState CrashStorage_Entries CrashStorage_FirstIndex CrashStorage_LastIndex
proof unfold_locales
  fix s s' hs es
  assume "cs_running s" "entries_fit es" "crash_save hs es s = (s', None)"
  then show "cs_running s' \<and> ms_hard (cs_view s') = merge_hard (ms_hard (cs_view s)) hs
      \<and> ms_entries (cs_view s') = merge_log (ms_entries (cs_view s)) es"
    using CrashStorage_Save_outcome [of s es hs] by (auto simp: crash_save_def view_mirror_def)
qed (simp_all add: CrashStorage_HardState_def CrashStorage_FirstIndex_def CrashStorage_LastIndex_def CrashStorage_Entries_def
      MemStorage_HardState_def mem.entries_ok mem.bounds_ok)

section \<open>The payloads as a codec of the durable log\<close>

definition sim_marshal :: "LogRecord \<Rightarrow> bytes option" where
  "sim_marshal r =
     (case r of
        LR_HardState t v \<Rightarrow> Some (hardstate_payload \<lparr>hs_Term = t, hs_VotedFor = v\<rparr>)
      | LR_Truncate from \<Rightarrow> Some (truncate_payload from)
      | LR_Entries es \<Rightarrow> if es \<noteq> [] \<and> entries_fit es then Some (entries_payload es) else None
      | LR_None \<Rightarrow> None)"

definition sim_unmarshal :: "bytes \<Rightarrow> LogRecord option" where
  "sim_unmarshal payload =
     (case payload of
        [] \<Rightarrow> None
      | kind # body \<Rightarrow>
          if kind = 1 then Some (LR_HardState (of_nat (get_le (take 8 body))) (of_nat (get_le (drop 8 body))))
          else if kind = 3 then Some (LR_Truncate (of_nat (get_le body)))
          else if kind = 2 then map_option LR_Entries (decodeEntriesBody body)
          else None)"

interpretation sim_codec: log_codec sim_marshal sim_unmarshal
proof
  fix r p
  assume "sim_marshal r = Some p"
  then show "sim_unmarshal p = Some r"
    using decodeEntriesBody_payload
    by (cases r) (auto simp: sim_marshal_def sim_unmarshal_def hardstate_payload_def truncate_payload_def entries_payload_def
        split: if_splits)
qed

end
