(* ===== verification/Disklog_Recovery.thy ===== *)
theory Disklog_Recovery
  imports Disklog_Storage Sim_Crash_Props
begin

text \<open>
  The crash and recovery properties of the durable log and of the crash model of the simulator, and the
  durable log as an instance of the storage contract.
\<close>

section \<open>The contract\<close>

lemma DiskLog_Entries_mem: "DiskLog_Entries lo hi l = MemStorage_Entries lo hi \<lparr>ms_hard = dl_hard l, ms_entries = dl_entries l\<rparr>"
  by (simp add: DiskLog_Entries_def MemStorage_Entries_def Let_def split: prod.split)

locale disk_log = log_codec +
  fixes io :: io

sublocale disk_log \<subseteq> disk: raft_storage "dl_inv unmarshal" "\<lambda>l es. length (merge_log (dl_entries l) es) < 2 ^ 63"
  dl_hard dl_entries "DiskLog_Save marshal io" DiskLog_HardState DiskLog_Entries DiskLog_FirstIndex DiskLog_LastIndex
proof unfold_locales
  fix s s' hs es
  assume "dl_inv unmarshal s" "length (merge_log (dl_entries s) es) < 2 ^ 63" "DiskLog_Save marshal io hs es s = (s', None)"
  then show "dl_inv unmarshal s' \<and> dl_hard s' = merge_hard (dl_hard s) hs \<and> dl_entries s' = merge_log (dl_entries s) es"
    using Save_ok [of s io hs es s'] by blast
next
  fix s :: DiskLog
  assume "dense_log (dl_entries s)" "dl_entries s \<noteq> []"
  then show "DiskLog_Entries (DiskLog_FirstIndex s) (DiskLog_LastIndex s + 1) s = Some (Inr (dl_entries s))"
    using mem.entries_ok [of "\<lparr>ms_hard = dl_hard s, ms_entries = dl_entries s\<rparr>"]
    by (simp add: DiskLog_Entries_mem DiskLog_FirstIndex_def DiskLog_LastIndex_def last_index_def
        MemStorage_FirstIndex_def MemStorage_LastIndex_def)
qed (simp_all add: DiskLog_HardState_def DiskLog_FirstIndex_def DiskLog_LastIndex_def last_index_def)

section \<open>Recovery after any outcome of Save\<close>

definition entry_free :: "LogRecord \<Rightarrow> bool" where
  "entry_free r = (case r of LR_Entries _ \<Rightarrow> False | _ \<Rightarrow> True)"

lemma apply_entry_free:
  "list_all entry_free rs \<Longrightarrow> contiguous_from 0 (snd m) \<Longrightarrow> apply_records rs m = Inr m' \<Longrightarrow>
   contiguous_from 0 (snd m') \<and> length (snd m') \<le> length (snd m)"
proof (induction rs m rule: apply_records.induct)
  case (2 r rs m)
  from "2.prems" obtain m1 where m1: "applyRecord r m = Inr m1" "apply_records rs m1 = Inr m'"
    by (auto split: sum.splits)
  have "contiguous_from 0 (snd m1) \<and> length (snd m1) \<le> length (snd m)"
    using m1(1) "2.prems"(1,2)
    by (auto simp: applyRecord_def entry_free_def truncateEntries_def intro: contiguous_from_take split: LogRecord.splits if_splits)
  with "2.IH" [OF m1(1)] "2.prems"(1) m1(2) show ?case by force
qed simp

lemma batch_prefix_contiguous:
  assumes "contiguous_from 0 old" "checkContiguous es (last_index old) = None"
    and "length old < 2 ^ 63" "length (merge_log old es) < 2 ^ 63"
    and "apply_records (take j (batch_records hs es (last_index old))) (h, old) = Inr m"
  shows "contiguous_from 0 (snd m) \<and> length (snd m) < 2 ^ 63"
proof (cases "j < length (batch_records hs es (last_index old))")
  case True
  have "list_all entry_free (butlast (batch_records hs es (last_index old)))"
    by (auto simp: batch_records_def entry_free_def butlast_append split: option.splits)
  moreover have "take j (batch_records hs es (last_index old)) = take j (butlast (batch_records hs es (last_index old)))"
    using True by (simp add: take_butlast)
  ultimately have "list_all entry_free (take j (batch_records hs es (last_index old)))"
    by (auto simp: list_all_iff dest: in_set_takeD)
  from apply_entry_free [OF this _ assms(5)] assms(1,3) show ?thesis by auto
next
  case False
  then have "m = (merge_hard h hs, merge_log old es)"
    using assms(5) apply_batch_records [OF assms(1-4), of hs h] by simp
  with merge_log_contiguous(1) [OF assms(1-4)] assms(4) show ?thesis by simp
qed

context log_codec
begin

lemma Open_own_files:
  assumes "dl_inv unmarshal l" "0 \<le> rotateSize" "\<And>op. \<not> io_fails io op"
  shows "\<exists>dir' l'. Open unmarshal io rotateSize (dl_dir l) = (dir', Inr l') \<and> dl_inv unmarshal l'
    \<and> dl_hard l' = dl_hard l \<and> dl_entries l' = dl_entries l"
proof -
  obtain segs where f: "log_files unmarshal (dl_dir l) segs (dl_hard l, dl_entries l)"
    using assms(1) by (auto simp: dl_inv_def)
  then have "segs_replay unmarshal (butlast segs @ [last segs]) empty_mirror (dl_hard l, dl_entries l)"
    by (simp add: log_files_def)
  then obtain m1 where m1: "segs_replay unmarshal (butlast segs) empty_mirror m1"
      "replay unmarshal True (last segs) m1 0 = Inr ((dl_hard l, dl_entries l), None)"
    by (auto simp: segs_replay_append)
  have s: "dir_has (dl_dir l) segs" "segs \<noteq> []" "contiguous_from 0 (snd (dl_hard l, dl_entries l))"
      "length (snd (dl_hard l, dl_entries l)) < 2 ^ 63"
    using f by (auto simp: log_files_def)
  obtain dir' l' where "Open unmarshal io rotateSize (dl_dir l) = (dir', Inr l')"
    using Open_recovers(2) [OF s(1,2) m1 s(3,4) assms(2,3)] by blast
  with Open_recovers(1) [OF s(1,2) m1 s(3,4) this] show ?thesis by auto
qed

lemma Open_after_Save:
  assumes "dl_inv unmarshal l" "DiskLog_Save marshal io hs es l = (l1, r)"
    and "length (merge_log (dl_entries l) es) < 2 ^ 63"
    and "0 \<le> rotateSize" "\<And>op. \<not> io_fails io' op"
  shows "\<exists>dir' l2 j. Open unmarshal io' rotateSize (dl_dir l1) = (dir', Inr l2) \<and> dl_inv unmarshal l2
    \<and> apply_records (take j (batch_records hs es (last_index (dl_entries l)))) (dl_hard l, dl_entries l) = Inr (dl_hard l2, dl_entries l2)
    \<and> (r = None \<longrightarrow> dl_hard l2 = merge_hard (dl_hard l) hs \<and> dl_entries l2 = merge_log (dl_entries l) es)"
proof -
  let ?rs = "batch_records hs es (last_index (dl_entries l))" and ?m = "(dl_hard l, dl_entries l)"
  have c: "contiguous_from 0 (dl_entries l)" "length (dl_entries l) < 2 ^ 63"
    using assms(1) by (auto simp: dl_inv_def log_files_def)
  have ok: "\<not> dl_closed l" "dl_failed l = None" using assms(1) by (auto simp: dl_inv_def)
  show ?thesis
  proof (cases "checkContiguous es (last_index (dl_entries l))")
    case (Some e)
    then have "l1 = l" "r \<noteq> None" using assms(2) ok by (auto simp: DiskLog_Save_def checkContiguous_def split: if_splits)
    with Open_own_files [OF assms(1,4,5)] show ?thesis by (auto intro!: exI [of _ 0])
  next
    case chk: None
    show ?thesis
    proof (cases r)
      case None
      note S = Save_ok [OF assms(1) assms(2) [unfolded None] assms(3)]
      obtain dir' l2 where O: "Open unmarshal io' rotateSize (dl_dir l1) = (dir', Inr l2)" "dl_inv unmarshal l2"
          "dl_hard l2 = dl_hard l1" "dl_entries l2 = dl_entries l1"
        using Open_own_files [OF S(1) assms(4,5)] by blast
      have "apply_records (take (length ?rs) ?rs) ?m = Inr (dl_hard l2, dl_entries l2)"
        using apply_batch_records [OF c(1) chk c(2) assms(3)] O S by simp
      with O S show ?thesis by metis
    next
      case (Some e)
      obtain segs m1 m' t j where F: "dir_has (dl_dir l1) segs" "segs \<noteq> []" "segs_replay unmarshal (butlast segs) empty_mirror m1"
          "replay unmarshal True (last segs) m1 0 = Inr (m', t)" and j: "apply_records (take j ?rs) ?m = Inr m'"
        using Save_files [OF assms(1-3)] by blast
      have m': "contiguous_from 0 (snd m')" "length (snd m') < 2 ^ 63"
        using batch_prefix_contiguous [OF c(1) chk c(2) assms(3) j] by auto
      obtain dir' l2 where O: "Open unmarshal io' rotateSize (dl_dir l1) = (dir', Inr l2)"
        using Open_recovers(2) [OF F m' assms(4,5)] by blast
      with Open_recovers(1) [OF F m' O] j Some show ?thesis
        by (intro exI [of _ dir'] exI [of _ l2] exI [of _ j]) simp
    qed
  qed
qed

end

section \<open>Claims\<close>

text \<open>C2. Crash safety of the durable log. Whatever happens to a Save, success or a failure of any
  system call after any number of bytes reached the file, opening the directory again succeeds and
  gives the state after some prefix of the records of that batch (hard state, truncation, entries).
  If Save reported success, it is the state with the whole batch: the new hard state and the log
  with its suffix replaced.\<close>

theorem disklog_crash_recovery:
  assumes "log_codec marshal unmarshal" "dl_inv unmarshal l" "DiskLog_Save marshal io hs es l = (l1, r)"
    and "length (merge_log (dl_entries l) es) < 2 ^ 63"
    and "0 \<le> rotateSize" "\<And>op. \<not> io_fails io' op"
  shows "\<exists>dir' l2 j. Open unmarshal io' rotateSize (dl_dir l1) = (dir', Inr l2) \<and> dl_inv unmarshal l2
    \<and> apply_records (take j (batch_records hs es (last_index (dl_entries l)))) (dl_hard l, dl_entries l) = Inr (dl_hard l2, dl_entries l2)
    \<and> (r = None \<longrightarrow> dl_hard l2 = merge_hard (dl_hard l) hs \<and> dl_entries l2 = merge_log (dl_entries l) es)"
  using log_codec.Open_after_Save [OF assms] .

definition good_io :: io where
  "good_io = \<lparr>io_fails = \<lambda>_. False, io_written = 1000\<rparr>"

interpretation sim_disk: disk_log sim_marshal sim_unmarshal good_io
  by unfold_locales

definition torn_io :: io where
  "torn_io = \<lparr>io_fails = \<lambda>op. op = WriteSegment 1, io_written = 60\<rparr>"

definition new_log :: DiskLog where
  "new_log = (fresh_log 0 [(segmentName 1, [])])\<lparr>dl_active := True, dl_activeSeq := 1\<rparr>"

definition sample_entry :: "u64 \<Rightarrow> u64 \<Rightarrow> Entry" where
  "sample_entry i t = \<lparr>e_Index = i, e_Term = t, e_Type = NORMAL, e_Data = [7]\<rparr>"

lemma new_log_inv: "dl_inv sim_unmarshal new_log"
proof -
  have p: "parseSegmentName (segmentName 1) = Some 1" by (rule parse_segmentName) simp
  have "dir_has [(segmentName 1, [])] [[]]"
    using p by (simp add: dir_has_def listSegments_def seq_range_def map_filter_simps)
  then have "log_files sim_unmarshal [(segmentName 1, [])] [[]] empty_mirror"
    by (simp add: log_files_def empty_mirror_def)
  then show ?thesis
    unfolding dl_inv_def new_log_def fresh_log_def by (auto intro!: exI [of _ "[[]]"])
qed

theorem disklog_crash_recovery_witness:
  "\<exists>dir' l2 j. Open sim_unmarshal good_io 0 (dl_dir (fst (DiskLog_Save sim_marshal torn_io
        (Some \<lparr>hs_Term = 1, hs_VotedFor = 1\<rparr>) [sample_entry 1 1] new_log))) = (dir', Inr l2)
    \<and> apply_records (take j [LR_HardState 1 1, LR_Entries [sample_entry 1 1]]) empty_mirror = Inr (dl_hard l2, dl_entries l2)"
proof -
  obtain l1 r where s: "DiskLog_Save sim_marshal torn_io (Some \<lparr>hs_Term = 1, hs_VotedFor = 1\<rparr>) [sample_entry 1 1] new_log = (l1, r)"
    by fastforce
  have m: "length (merge_log (dl_entries new_log) [sample_entry 1 1]) < 2 ^ 63"
    by (simp add: merge_log_def new_log_def fresh_log_def empty_mirror_def)
  have rs: "batch_records (Some \<lparr>hs_Term = 1, hs_VotedFor = 1\<rparr>) [sample_entry 1 1] (last_index (dl_entries new_log))
      = [LR_HardState 1 1, LR_Entries [sample_entry 1 1]]" "(dl_hard new_log, dl_entries new_log) = empty_mirror"
    by (simp_all add: batch_records_def last_index_def firstLast_def new_log_def fresh_log_def empty_mirror_def sample_entry_def)
  have io: "\<And>op. \<not> io_fails good_io op" by (simp add: good_io_def)
  show ?thesis
    using disklog_crash_recovery [OF sim_codec.log_codec_axioms new_log_inv s m order_refl io] unfolding rs s fst_conv by blast
qed

end
