(* ===== verification/Map_SM.thy ===== *)
theory Map_SM
  imports Raft_Log Std_Bytes
begin

text \<open>
  The state machine contract of \<open>internal/statemachine\<close> and its in-memory implementation
  \<open>internal/statemachine/mapsm\<close>: a key/value map with one deduplication record per client.
  A Go map is a HOL map, a \<open>string\<close> key its bytes. \<open>proto.Unmarshal\<close> of a command is the argument
  \<open>unmarshal\<close>, \<open>None\<close> for a decoding error. Where the code ranges over a map and then sorts, the
  order of the iteration is an argument of the model.
  The lemmas compare a replay of a log with the sequential store that executes each command
  once, at its first occurrence, and show that the digest does not depend on iteration order.
\<close>

section \<open>Commands, results, errors\<close>

definition PUT :: u32 where
  "PUT = 1"

definition DELETE :: u32 where
  "DELETE = 2"

definition GET :: u32 where
  "GET = 3"

record Command =
  c_ClientId :: u64
  c_Seq :: u64
  c_Op :: u32
  c_Key :: bytes
  c_Value :: bytes

record Result =
  r_Value :: bytes
  r_Found :: bool

abbreviation empty_result :: Result where
  "empty_result \<equiv> \<lparr>r_Value = [], r_Found = False\<rparr>"

datatype sm_error = NilEntry | DecodeCommand | UnsupportedType u32 | UnsupportedOp u32 | SnapshotUnsupported

definition cloneBytes :: "bytes \<Rightarrow> bytes" where
  "cloneBytes v = [] @ v"

definition cloneResult :: "Result \<Rightarrow> Result" where
  "cloneResult r = \<lparr>r_Value = cloneBytes (r_Value r), r_Found = r_Found r\<rparr>"

lemma cloneBytes_id [simp]: "cloneBytes v = v"
  by (simp add: cloneBytes_def)

lemma cloneResult_id [simp]: "cloneResult r = r"
  by (simp add: cloneResult_def)

section \<open>The map state machine\<close>

record dedupRecord =
  lastSeq :: u64
  lastResult :: Result

record MapStateMachine =
  m_values :: "bytes \<rightharpoonup> bytes"
  m_dedup :: "u64 \<rightharpoonup> dedupRecord"
  m_applied :: u64

definition New :: MapStateMachine where
  "New = \<lparr>m_values = Map.empty, m_dedup = Map.empty, m_applied = 0\<rparr>"

definition advanceAppliedIndex :: "u64 \<Rightarrow> MapStateMachine \<Rightarrow> MapStateMachine" where
  "advanceAppliedIndex index m = (if index > m_applied m then m\<lparr>m_applied := index\<rparr> else m)"

text \<open>A lookup in a Go map gives the zero value and \<open>false\<close> for a missing key.\<close>

definition lookup_value :: "(bytes \<rightharpoonup> bytes) \<Rightarrow> bytes \<Rightarrow> Result" where
  "lookup_value vs key =
     (case vs key of Some v \<Rightarrow> \<lparr>r_Value = cloneBytes v, r_Found = True\<rparr>
      | None \<Rightarrow> \<lparr>r_Value = cloneBytes [], r_Found = False\<rparr>)"

definition execute :: "Command \<Rightarrow> MapStateMachine \<Rightarrow> MapStateMachine \<times> (sm_error + Result)" where
  "execute c m =
     (let key = c_Key c
      in if c_Op c = PUT then (m\<lparr>m_values := (m_values m)(key \<mapsto> cloneBytes (c_Value c))\<rparr>, Inr empty_result)
         else if c_Op c = DELETE then (m\<lparr>m_values := (m_values m)(key := None)\<rparr>, Inr empty_result)
         else if c_Op c = GET then (m, Inr (lookup_value (m_values m) key))
         else (m, Inl (UnsupportedOp (c_Op c))))"

text \<open>The guard of deduplication: the client has a record and the sequence number is not newer.\<close>

definition duplicate :: "Command \<Rightarrow> MapStateMachine \<Rightarrow> dedupRecord option" where
  "duplicate c m =
     (case m_dedup m (c_ClientId c) of
        None \<Rightarrow> None
      | Some record \<Rightarrow> if c_Seq c \<le> lastSeq record then Some record else None)"

definition Apply :: "(bytes \<Rightarrow> Command option) \<Rightarrow> Entry option \<Rightarrow> MapStateMachine
    \<Rightarrow> MapStateMachine \<times> (sm_error + Result)" where
  "Apply unmarshal eo m =
     (case eo of
        None \<Rightarrow> (m, Inl NilEntry)
      | Some e \<Rightarrow>
          if e_Type e = NOOP then (advanceAppliedIndex (e_Index e) m, Inr empty_result)
          else if e_Type e = NORMAL then
            (case unmarshal (e_Data e) of
               None \<Rightarrow> (m, Inl DecodeCommand)
             | Some c \<Rightarrow>
                 (case duplicate c m of
                    Some record \<Rightarrow> (advanceAppliedIndex (e_Index e) m, Inr (cloneResult (lastResult record)))
                  | None \<Rightarrow>
                      (case execute c m of
                         (m1, Inl err) \<Rightarrow> (m1, Inl err)
                       | (m1, Inr result) \<Rightarrow>
                           (let m2 = m1\<lparr>m_dedup := (m_dedup m1)(c_ClientId c \<mapsto>
                                          \<lparr>lastSeq = c_Seq c, lastResult = cloneResult result\<rparr>)\<rparr>
                            in (advanceAppliedIndex (e_Index e) m2, Inr (cloneResult result))))))
          else (m, Inl (UnsupportedType (e_Type e))))"

definition Read :: "bytes \<Rightarrow> MapStateMachine \<Rightarrow> sm_error + Result" where
  "Read key m = Inr (lookup_value (m_values m) key)"

definition AppliedIndex :: "MapStateMachine \<Rightarrow> u64" where
  "AppliedIndex m = m_applied m"

definition CreateSnapshot :: "string \<Rightarrow> SnapshotMeta \<Rightarrow> MapStateMachine \<Rightarrow> sm_error option" where
  "CreateSnapshot dir meta m = Some SnapshotUnsupported"

definition RestoreSnapshot :: "string \<Rightarrow> MapStateMachine \<Rightarrow> sm_error + SnapshotMeta" where
  "RestoreSnapshot dir m = Inl SnapshotUnsupported"

subsection \<open>The digest\<close>

definition hashUint64 :: "u64 \<Rightarrow> u64 \<Rightarrow> u64" where
  "hashUint64 v h = fnv_write h (put_be 8 (unat v))"

definition hashBytes :: "bytes \<Rightarrow> u64 \<Rightarrow> u64" where
  "hashBytes v h = fnv_write (hashUint64 (of_nat (length v)) h) v"

definition hash_value :: "(bytes \<rightharpoonup> bytes) \<Rightarrow> bytes \<Rightarrow> u64 \<Rightarrow> u64" where
  "hash_value vs key h = hashBytes (case vs key of Some v \<Rightarrow> v | None \<Rightarrow> []) (hashBytes key h)"

definition hash_record :: "(u64 \<rightharpoonup> dedupRecord) \<Rightarrow> u64 \<Rightarrow> u64 \<Rightarrow> u64" where
  "hash_record ds client h =
     (let record = (case ds client of Some r \<Rightarrow> r | None \<Rightarrow> \<lparr>lastSeq = 0, lastResult = empty_result\<rparr>);
          h1 = hashUint64 client h;
          h2 = hashUint64 (lastSeq record) h1;
          h3 = hashBytes (r_Value (lastResult record)) h2
      in if r_Found (lastResult record) then hashUint64 1 h3 else hashUint64 0 h3)"

text \<open>\<open>key_order\<close> and \<open>client_order\<close> are the orders in which \<open>range\<close> enumerates the two maps.\<close>

definition Hash :: "bytes list \<Rightarrow> u64 list \<Rightarrow> MapStateMachine \<Rightarrow> u64" where
  "Hash key_order client_order m =
     (let h1 = hashUint64 (m_applied m) fnv_offset;
          keys = sort key_order;
          h2 = hashUint64 (of_nat (length keys)) h1;
          h3 = fold (hash_value (m_values m)) keys h2;
          clientIDs = sort client_order;
          h4 = hashUint64 (of_nat (length clientIDs)) h3
      in fold (hash_record (m_dedup m)) clientIDs h4)"

definition map_order :: "('k \<rightharpoonup> 'v) \<Rightarrow> 'k list \<Rightarrow> bool" where
  "map_order m ks \<longleftrightarrow> distinct ks \<and> set ks = dom m"

lemma Hash_order:
  assumes "map_order (m_values m) ks" "map_order (m_dedup m) cs"
  shows "Hash ks cs m = Hash (sorted_list_of_set (dom (m_values m))) (sorted_list_of_set (dom (m_dedup m))) m"
proof -
  have "sorted_list_of_set (dom (m_values m)) = sort ks" "sorted_list_of_set (dom (m_dedup m)) = sort cs"
    using assms by (metis map_order_def sorted_list_of_set_sort_remdups distinct_remdups_id)+
  then show ?thesis by (simp add: Hash_def Let_def sorted_sort_id)
qed

section \<open>The sequential store\<close>

text \<open>
  What the deduplicated map promises: the commands of the log that are fresh, i.e. with a sequence
  number above every earlier one of the same client, executed once each and in log order.
\<close>

definition supported :: "Command \<Rightarrow> bool" where
  "supported c \<longleftrightarrow> c_Op c \<in> {PUT, DELETE, GET}"

definition exec_values :: "Command \<Rightarrow> (bytes \<rightharpoonup> bytes) \<Rightarrow> (bytes \<rightharpoonup> bytes)" where
  "exec_values c vs = (if c_Op c = PUT then vs(c_Key c \<mapsto> c_Value c) else if c_Op c = DELETE then vs(c_Key c := None) else vs)"

definition exec_result :: "Command \<Rightarrow> (bytes \<rightharpoonup> bytes) \<Rightarrow> Result" where
  "exec_result c vs = (if c_Op c = GET then lookup_value vs (c_Key c) else empty_result)"

text \<open>A command is fresh after \<open>cs\<close> when every earlier command of its client has a smaller number.\<close>

definition fresh_after :: "Command list \<Rightarrow> Command \<Rightarrow> bool" where
  "fresh_after cs c \<longleftrightarrow> (\<forall>d \<in> set cs. c_ClientId d = c_ClientId c \<longrightarrow> c_Seq d < c_Seq c)"

fun fresh_commands :: "Command list \<Rightarrow> Command list \<Rightarrow> Command list" where
  "fresh_commands seen [] = []"
| "fresh_commands seen (c # cs) = (if fresh_after seen c then c # fresh_commands (c # seen) cs else fresh_commands (c # seen) cs)"

definition kv_store :: "Command list \<Rightarrow> (bytes \<rightharpoonup> bytes)" where
  "kv_store cs = fold exec_values cs Map.empty"

lemmas op_codes = PUT_def DELETE_def GET_def

lemma execute_supported:
  assumes "supported c"
  shows "execute c m = (m\<lparr>m_values := exec_values c (m_values m)\<rparr>, Inr (exec_result c (m_values m)))"
  using assms by (auto simp: execute_def exec_values_def exec_result_def supported_def op_codes Let_def)

lemma execute_unsupported: "\<not> supported c \<Longrightarrow> execute c m = (m, Inl (UnsupportedOp (c_Op c)))"
  by (simp add: execute_def supported_def Let_def)

lemma advance_fields [simp]:
  "m_values (advanceAppliedIndex i m) = m_values m"
  "m_dedup (advanceAppliedIndex i m) = m_dedup m"
  "m_applied (advanceAppliedIndex i m) = max (m_applied m) i"
  by (simp_all add: advanceAppliedIndex_def)

lemma types_differ [simp]: "NORMAL \<noteq> NOOP"
  by (simp add: NORMAL_def NOOP_def)

lemma Apply_error: "Apply unmarshal eo m = (m', Inl err) \<Longrightarrow> m' = m"
  by (auto simp: Apply_def execute_def Let_def split: option.splits if_splits prod.splits sum.splits)

lemma Apply_normal:
  assumes "e_Type e = NORMAL" "unmarshal (e_Data e) = Some c" "supported c"
  shows "Apply unmarshal (Some e) m =
    (case duplicate c m of
       Some record \<Rightarrow> (advanceAppliedIndex (e_Index e) m, Inr (lastResult record))
     | None \<Rightarrow> (advanceAppliedIndex (e_Index e) (m\<lparr>m_values := exec_values c (m_values m),
          m_dedup := (m_dedup m)(c_ClientId c \<mapsto> \<lparr>lastSeq = c_Seq c, lastResult = exec_result c (m_values m)\<rparr>)\<rparr>),
          Inr (exec_result c (m_values m))))"
  using assms by (simp add: Apply_def execute_supported Let_def split: option.split)

section \<open>Replaying a log\<close>

fun apply_log :: "(bytes \<Rightarrow> Command option) \<Rightarrow> Entry list \<Rightarrow> MapStateMachine \<Rightarrow> (sm_error + MapStateMachine \<times> Result list)" where
  "apply_log unmarshal [] m = Inr (m, [])"
| "apply_log unmarshal (e # es) m =
     (case Apply unmarshal (Some e) m of
        (m', Inl err) \<Rightarrow> Inl err
      | (m', Inr r) \<Rightarrow> (case apply_log unmarshal es m' of Inl err \<Rightarrow> Inl err | Inr (m'', rs) \<Rightarrow> Inr (m'', r # rs)))"

text \<open>The commands of a log: the decoded data of its NORMAL entries.\<close>

fun log_commands :: "(bytes \<Rightarrow> Command option) \<Rightarrow> Entry list \<Rightarrow> Command list" where
  "log_commands unmarshal [] = []"
| "log_commands unmarshal (e # es) =
     (if e_Type e = NORMAL then (case unmarshal (e_Data e) of Some c \<Rightarrow> c # log_commands unmarshal es | None \<Rightarrow> log_commands unmarshal es)
      else log_commands unmarshal es)"

definition well_formed_entry :: "(bytes \<Rightarrow> Command option) \<Rightarrow> Entry \<Rightarrow> bool" where
  "well_formed_entry unmarshal e \<longleftrightarrow> e_Type e = NOOP \<or>
     e_Type e = NORMAL \<and> (\<exists>c. unmarshal (e_Data e) = Some c \<and> supported c)"

text \<open>The deduplication table after the commands \<open>seen\<close>: the greatest number of each client.\<close>

definition dedup_inv :: "Command list \<Rightarrow> MapStateMachine \<Rightarrow> bool" where
  "dedup_inv seen m \<longleftrightarrow>
     (\<forall>client. case m_dedup m client of
        None \<Rightarrow> (\<forall>d \<in> set seen. c_ClientId d \<noteq> client)
      | Some r \<Rightarrow> (\<exists>d \<in> set seen. c_ClientId d = client \<and> c_Seq d = lastSeq r)
          \<and> (\<forall>d \<in> set seen. c_ClientId d = client \<longrightarrow> c_Seq d \<le> lastSeq r))"

lemma dedup_inv_New: "dedup_inv [] New"
  by (simp add: dedup_inv_def New_def)

lemma duplicate_fresh: "dedup_inv seen m \<Longrightarrow> duplicate c m = None \<longleftrightarrow> fresh_after seen c"
  unfolding dedup_inv_def duplicate_def fresh_after_def
  by (erule allE [of _ "c_ClientId c"]) (auto split: option.splits)

lemma dedup_inv_duplicate:
  assumes "dedup_inv seen m" "duplicate c m = Some r"
  shows "dedup_inv (c # seen) m"
  unfolding dedup_inv_def
proof
  fix client
  show "case m_dedup m client of
        None \<Rightarrow> (\<forall>d \<in> set (c # seen). c_ClientId d \<noteq> client)
      | Some r \<Rightarrow> (\<exists>d \<in> set (c # seen). c_ClientId d = client \<and> c_Seq d = lastSeq r)
          \<and> (\<forall>d \<in> set (c # seen). c_ClientId d = client \<longrightarrow> c_Seq d \<le> lastSeq r)"
    using assms(1) [unfolded dedup_inv_def, rule_format, of client] assms(2)
    by (auto simp: duplicate_def split: option.splits if_splits)
qed

lemma dedup_inv_fresh:
  assumes "dedup_inv seen m" "duplicate c m = None" "m_dedup m' = (m_dedup m)(c_ClientId c \<mapsto> \<lparr>lastSeq = c_Seq c, lastResult = r\<rparr>)"
  shows "dedup_inv (c # seen) m'"
  unfolding dedup_inv_def
proof
  fix client
  have "fresh_after seen c" using assms duplicate_fresh by blast
  then show "case m_dedup m' client of
        None \<Rightarrow> (\<forall>d \<in> set (c # seen). c_ClientId d \<noteq> client)
      | Some r \<Rightarrow> (\<exists>d \<in> set (c # seen). c_ClientId d = client \<and> c_Seq d = lastSeq r)
          \<and> (\<forall>d \<in> set (c # seen). c_ClientId d = client \<longrightarrow> c_Seq d \<le> lastSeq r)"
    using assms(1) [unfolded dedup_inv_def, rule_format, of client] assms(3)
    by (auto simp: fresh_after_def split: option.splits)
qed

lemma apply_log_refines:
  assumes "\<forall>e \<in> set es. well_formed_entry unmarshal e" "dedup_inv seen m"
  shows "\<exists>m' rs. apply_log unmarshal es m = Inr (m', rs)
    \<and> m_values m' = fold exec_values (fresh_commands seen (log_commands unmarshal es)) (m_values m)
    \<and> m_applied m' = fold max (map e_Index es) (m_applied m) \<and> length rs = length es"
  using assms
proof (induction es arbitrary: seen m)
  case (Cons e es)
  from Cons.prems(1) consider "e_Type e = NOOP" | c where "e_Type e = NORMAL" "unmarshal (e_Data e) = Some c" "supported c"
    by (auto simp: well_formed_entry_def)
  then show ?case
  proof cases
    case 1
    have "dedup_inv seen (advanceAppliedIndex (e_Index e) m)" using Cons.prems(2) by (simp add: dedup_inv_def)
    from Cons.IH [OF _ this] Cons.prems(1) 1 show ?thesis
      by (auto simp: Apply_def types_differ [symmetric] max.commute)
  next
    case (2 c)
    obtain m1 r where A: "Apply unmarshal (Some e) m = (m1, Inr r)" and inv: "dedup_inv (c # seen) m1"
      and vals: "m_values m1 = (if fresh_after seen c then exec_values c (m_values m) else m_values m)"
      and app: "m_applied m1 = max (m_applied m) (e_Index e)"
    proof (cases "duplicate c m")
      case None
      with 2 Cons.prems(2) show ?thesis
        by (intro that) (auto simp: Apply_normal duplicate_fresh [symmetric] intro!: dedup_inv_fresh)
    next
      case (Some rec)
      have "dedup_inv (c # seen) (advanceAppliedIndex (e_Index e) m)"
        using dedup_inv_duplicate [OF Cons.prems(2) Some] by (simp add: dedup_inv_def)
      with Some 2 Cons.prems(2) show ?thesis
        by (intro that [of "advanceAppliedIndex (e_Index e) m" "lastResult rec"])
          (auto simp: Apply_normal duplicate_fresh [symmetric])
    qed
    from Cons.IH [OF _ inv] Cons.prems(1) 2 A vals app show ?thesis
      by (auto simp: max.commute)
  qed
qed simp

section \<open>Claims\<close>

text \<open>C3. Exactly-once execution. Replaying a log of well formed entries never fails, and the
  key/value contents afterwards are those of the sequential store that executes each command once,
  at its first occurrence, in log order: retries of a client change nothing. The applied index is
  the greatest index of the log.\<close>

theorem mapsm_exactly_once:
  assumes "\<forall>e \<in> set es. well_formed_entry unmarshal e"
  shows "\<exists>m rs. apply_log unmarshal es New = Inr (m, rs)
    \<and> m_values m = kv_store (fresh_commands [] (log_commands unmarshal es))
    \<and> AppliedIndex m = fold max (map e_Index es) 0 \<and> length rs = length es"
  using apply_log_refines [OF assms dedup_inv_New] by (simp add: kv_store_def AppliedIndex_def New_def)

definition put_key_a :: Command where
  "put_key_a = \<lparr>c_ClientId = 7, c_Seq = 1, c_Op = PUT, c_Key = [97], c_Value = [1, 2]\<rparr>"

definition sample_unmarshal :: "bytes \<Rightarrow> Command option" where
  "sample_unmarshal data = (if data = [0] then Some put_key_a else None)"

definition sample_log :: "Entry list" where
  "sample_log = [\<lparr>e_Index = 1, e_Term = 1, e_Type = NOOP, e_Data = []\<rparr>,
     \<lparr>e_Index = 2, e_Term = 1, e_Type = NORMAL, e_Data = [0]\<rparr>,
     \<lparr>e_Index = 3, e_Term = 1, e_Type = NORMAL, e_Data = [0]\<rparr>]"

lemma sample_log_well_formed: "\<forall>e \<in> set sample_log. well_formed_entry sample_unmarshal e"
  by (simp add: sample_log_def well_formed_entry_def sample_unmarshal_def put_key_a_def supported_def NORMAL_def NOOP_def)

theorem mapsm_exactly_once_witness:
  "\<exists>m rs. apply_log sample_unmarshal sample_log New = Inr (m, rs)
    \<and> m_values m = kv_store (fresh_commands [] (log_commands sample_unmarshal sample_log))
    \<and> AppliedIndex m = fold max (map e_Index sample_log) 0 \<and> length rs = length sample_log"
  using mapsm_exactly_once [OF sample_log_well_formed] .

lemma dedup_kept:
  assumes "m_dedup m (c_ClientId c) = Some \<lparr>lastSeq = c_Seq c, lastResult = r\<rparr>" "apply_log unmarshal es m = Inr (m', rs)"
    and "\<forall>d \<in> set (log_commands unmarshal es). c_ClientId d = c_ClientId c \<longrightarrow> c_Seq d \<le> c_Seq c"
  shows "m_dedup m' (c_ClientId c) = Some \<lparr>lastSeq = c_Seq c, lastResult = r\<rparr>"
  using assms
proof (induction es arbitrary: m rs)
  case (Cons e es)
  obtain m1 x rs1 where A: "Apply unmarshal (Some e) m = (m1, Inr x)" "apply_log unmarshal es m1 = Inr (m', rs1)"
    using Cons.prems(2) by (auto split: prod.splits sum.splits)
  have "m_dedup m1 (c_ClientId c) = Some \<lparr>lastSeq = c_Seq c, lastResult = r\<rparr>"
  proof (cases "e_Type e = NORMAL")
    case True
    then obtain d where d: "unmarshal (e_Data e) = Some d" using A(1) by (auto simp: Apply_def split: option.splits)
    have sup: "duplicate d m \<noteq> None \<or> supported d"
      using A(1) True d by (cases "supported d") (auto simp: Apply_def execute_unsupported split: option.splits)
    have "c_ClientId d = c_ClientId c \<Longrightarrow> c_Seq d \<le> c_Seq c" using Cons.prems(3) True d by simp
    then show ?thesis using A(1) True d sup Cons.prems(1)
      by (auto simp: Apply_def duplicate_def execute_supported Let_def split: option.splits if_splits)
  qed (use A(1) Cons.prems(1) in \<open>auto simp: Apply_def split: if_splits\<close>)
  from Cons.IH [OF this A(2)] Cons.prems(3) show ?case by (auto split: if_splits option.splits)
qed simp

text \<open>C6. Retries are answered from the cache. After a command of a client has been executed, let any
  entries follow in which the client sends nothing newer; other clients may meanwhile have changed or
  deleted the key. A retry (any command of the client with the same or a lower sequence number) then returns the
  result of that execution, even if executing it again would give another one, and changes neither the
  values nor the deduplication table: only the applied index moves on.\<close>

theorem mapsm_retry:
  assumes "e_Type e = NORMAL" "unmarshal (e_Data e) = Some c" "duplicate c m = None" "Apply unmarshal (Some e) m = (m1, Inr r)"
    and "apply_log unmarshal es m1 = Inr (m2, rs)"
    and "\<forall>d \<in> set (log_commands unmarshal es). c_ClientId d = c_ClientId c \<longrightarrow> c_Seq d \<le> c_Seq c"
    and "e_Type e' = NORMAL" "unmarshal (e_Data e') = Some c'" "c_ClientId c' = c_ClientId c" "c_Seq c' \<le> c_Seq c"
  shows "Apply unmarshal (Some e') m2 = (m2\<lparr>m_applied := max (m_applied m2) (e_Index e')\<rparr>, Inr r)"
proof -
  have sup: "supported c"
    using assms(1-4) by (cases "supported c") (simp_all add: Apply_def execute_unsupported)
  have "m_dedup m1 (c_ClientId c) = Some \<lparr>lastSeq = c_Seq c, lastResult = r\<rparr>"
    using assms(1-4) sup by (auto simp: Apply_normal)
  from dedup_kept [OF this assms(5,6)] assms(9,10) have "duplicate c' m2 = Some \<lparr>lastSeq = c_Seq c, lastResult = r\<rparr>"
    by (simp add: duplicate_def)
  moreover have "advanceAppliedIndex (e_Index e') m2 = m2\<lparr>m_applied := max (m_applied m2) (e_Index e')\<rparr>"
    by (simp add: advanceAppliedIndex_def max_def)
  ultimately show ?thesis using assms(7,8) by (simp add: Apply_def types_differ)
qed

definition get_key_a :: Command where
  "get_key_a = \<lparr>c_ClientId = 9, c_Seq = 1, c_Op = GET, c_Key = [97], c_Value = []\<rparr>"

definition retry_unmarshal :: "bytes \<Rightarrow> Command option" where
  "retry_unmarshal data = (if data = [0] then Some put_key_a else if data = [1] then Some get_key_a else None)"

definition retry_log :: "Entry list" where
  "retry_log = [\<lparr>e_Index = 1, e_Term = 1, e_Type = NORMAL, e_Data = [1]\<rparr>, \<lparr>e_Index = 2, e_Term = 1, e_Type = NORMAL, e_Data = [0]\<rparr>,
     \<lparr>e_Index = 3, e_Term = 1, e_Type = NORMAL, e_Data = [1]\<rparr>]"

text \<open>A read of a missing key is retried after the key was written: it is still reported as missing.\<close>

theorem mapsm_retry_witness:
  "\<exists>m1 m2 rs. Apply retry_unmarshal (Some (retry_log ! 0)) New = (m1, Inr empty_result)
    \<and> apply_log retry_unmarshal [retry_log ! 1] m1 = Inr (m2, rs) \<and> m_values m2 [97] = Some [1, 2]
    \<and> Apply retry_unmarshal (Some (retry_log ! 2)) m2 = (m2\<lparr>m_applied := max (m_applied m2) 3\<rparr>, Inr empty_result)"
proof -
  note eval = Apply_def retry_log_def retry_unmarshal_def put_key_a_def get_key_a_def duplicate_def New_def execute_def
    lookup_value_def advanceAppliedIndex_def op_codes NORMAL_def NOOP_def Let_def
  define m1 where "m1 = fst (Apply retry_unmarshal (Some (retry_log ! 0)) New)"
  have A: "Apply retry_unmarshal (Some (retry_log ! 0)) New = (m1, Inr empty_result)" unfolding m1_def by (simp add: eval)
  obtain m2 rs where L: "apply_log retry_unmarshal [retry_log ! 1] m1 = Inr (m2, rs)" "m_values m2 [97] = Some [1, 2]"
    unfolding m1_def by (simp add: eval)
  have "Apply retry_unmarshal (Some (retry_log ! 2)) m2 = (m2\<lparr>m_applied := max (m_applied m2) (e_Index (retry_log ! 2))\<rparr>, Inr empty_result)"
    by (rule mapsm_retry [where c = get_key_a and c' = get_key_a, OF _ _ _ A L(1)])
      (simp_all add: retry_log_def retry_unmarshal_def put_key_a_def get_key_a_def duplicate_def New_def)
  with A L show ?thesis by (auto simp: retry_log_def)
qed

text \<open>C7. The digest is a function of the logical state: whatever order the runtime enumerates the
  two Go maps in, Hash returns the same number.\<close>

theorem mapsm_hash_deterministic:
  assumes "map_order (m_values m) ks" "map_order (m_values m) ks'" "map_order (m_dedup m) cs" "map_order (m_dedup m) cs'"
  shows "Hash ks cs m = Hash ks' cs' m"
  using Hash_order [OF assms(1,3)] Hash_order [OF assms(2,4)] by simp

theorem mapsm_hash_deterministic_witness:
  "Hash [[98], [97]] [2, 1] \<lparr>m_values = [[97] \<mapsto> [1], [98] \<mapsto> [2]],
      m_dedup = [1 \<mapsto> \<lparr>lastSeq = 1, lastResult = empty_result\<rparr>, 2 \<mapsto> \<lparr>lastSeq = 5, lastResult = empty_result\<rparr>], m_applied = 3\<rparr>
   = Hash [[97], [98]] [1, 2] \<lparr>m_values = [[97] \<mapsto> [1], [98] \<mapsto> [2]],
      m_dedup = [1 \<mapsto> \<lparr>lastSeq = 1, lastResult = empty_result\<rparr>, 2 \<mapsto> \<lparr>lastSeq = 5, lastResult = empty_result\<rparr>], m_applied = 3\<rparr>"
  by (rule mapsm_hash_deterministic) (auto simp: map_order_def)

end
