(* ===== verification/Server_KV.thy ===== *)
theory Server_KV
  imports Server_Host Map_SM "HOL-Library.Product_Lexorder"
begin

text \<open>
  The client side of a node: \<open>internal/server/waiter.go\<close>, which hands the result of a committed
  entry to the request that proposed it, and \<open>internal/server/kv_service.go\<close>, the Execute call.
  A channel of capacity one is a number with the list of outcomes sent on it; the invariant shows
  that the list is empty at every send, so that no send blocks while the mutex is held. Where the
  code ranges over a map, the order is an argument, a function from the keys of the map to their
  enumeration. The state machine behind the applier is the
  argument \<open>sm_apply\<close>.
\<close>

section \<open>Waiters\<close>

type_synonym waiterKey = "u64 \<times> u64"

record 'e waiterOutcome =
  wo_result :: Result
  wo_stale :: bool
  wo_err :: "'e option"

abbreviation outcome_result :: "Result \<Rightarrow> 'e waiterOutcome" where
  "outcome_result r \<equiv> \<lparr>wo_result = r, wo_stale = False, wo_err = None\<rparr>"

abbreviation outcome_stale :: "'e waiterOutcome" where
  "outcome_stale \<equiv> \<lparr>wo_result = empty_result, wo_stale = True, wo_err = None\<rparr>"

abbreviation outcome_err :: "'e \<Rightarrow> 'e waiterOutcome" where
  "outcome_err e \<equiv> \<lparr>wo_result = empty_result, wo_stale = False, wo_err = Some e\<rparr>"

record ('sm, 'e) KVApplier =
  ka_sm :: 'sm
  ka_waiters :: "waiterKey \<rightharpoonup> nat"
  ka_byIndex :: "u64 \<rightharpoonup> u64 set"
  ka_chans :: "nat \<Rightarrow> 'e waiterOutcome list"
  ka_next :: nat

definition NewKVApplier :: "'sm \<Rightarrow> ('sm, 'e) KVApplier" where
  "NewKVApplier sm = \<lparr>ka_sm = sm, ka_waiters = Map.empty, ka_byIndex = Map.empty, ka_chans = (\<lambda>_. []), ka_next = 0\<rparr>"

definition chan_send :: "nat \<Rightarrow> 'e waiterOutcome \<Rightarrow> ('sm, 'e) KVApplier \<Rightarrow> ('sm, 'e) KVApplier" where
  "chan_send ch out a = a\<lparr>ka_chans := (ka_chans a)(ch := ka_chans a ch @ [out])\<rparr>"

definition register :: "u64 \<Rightarrow> u64 \<Rightarrow> ('sm, 'e) KVApplier \<Rightarrow> ('sm, 'e) KVApplier \<times> nat" where
  "register index term a =
     (let ch = ka_next a;
          terms = (case ka_byIndex a index of None \<Rightarrow> {} | Some ts \<Rightarrow> ts)
      in (a\<lparr>ka_next := Suc ch,
            ka_chans := (ka_chans a)(ch := []),
            ka_waiters := (ka_waiters a)((index, term) \<mapsto> ch),
            ka_byIndex := (ka_byIndex a)(index \<mapsto> insert term terms)\<rparr>, ch))"

definition removeFromIndexLocked :: "u64 \<Rightarrow> u64 \<Rightarrow> ('sm, 'e) KVApplier \<Rightarrow> ('sm, 'e) KVApplier" where
  "removeFromIndexLocked index term a =
     (case ka_byIndex a index of
        None \<Rightarrow> a
      | Some terms \<Rightarrow>
          (let terms = terms - {term}
           in if terms = {} then a\<lparr>ka_byIndex := (ka_byIndex a)(index := None)\<rparr>
              else a\<lparr>ka_byIndex := (ka_byIndex a)(index \<mapsto> terms)\<rparr>))"

definition cancel :: "u64 \<Rightarrow> u64 \<Rightarrow> ('sm, 'e) KVApplier \<Rightarrow> ('sm, 'e) KVApplier" where
  "cancel index term a =
     (case ka_waiters a (index, term) of
        None \<Rightarrow> a
      | Some ch \<Rightarrow> removeFromIndexLocked index term (a\<lparr>ka_waiters := (ka_waiters a)((index, term) := None)\<rparr>))"

definition failStop_one :: "'e \<Rightarrow> waiterKey \<Rightarrow> ('sm, 'e) KVApplier \<Rightarrow> ('sm, 'e) KVApplier" where
  "failStop_one err key a =
     (case ka_waiters a key of
        None \<Rightarrow> a
      | Some ch \<Rightarrow>
          (let a = a\<lparr>ka_waiters := (ka_waiters a)(key := None)\<rparr>;
               a = removeFromIndexLocked (fst key) (snd key) a
           in chan_send ch (outcome_err err) a))"

definition FailStop :: "(waiterKey set \<Rightarrow> waiterKey list) \<Rightarrow> 'e \<Rightarrow> ('sm, 'e) KVApplier \<Rightarrow> ('sm, 'e) KVApplier" where
  "FailStop order err a = fold (failStop_one err) (order (dom (ka_waiters a))) a"

definition fulfill_one :: "u64 \<Rightarrow> u64 \<Rightarrow> Result \<Rightarrow> u64 \<Rightarrow> ('sm, 'e) KVApplier \<Rightarrow> ('sm, 'e) KVApplier" where
  "fulfill_one index term result t a =
     (case ka_waiters a (index, t) of
        None \<Rightarrow> a
      | Some ch \<Rightarrow>
          (let a = a\<lparr>ka_waiters := (ka_waiters a)((index, t) := None)\<rparr>
           in if t = term then chan_send ch (outcome_result result) a else chan_send ch outcome_stale a))"

definition fulfill :: "(u64 set \<Rightarrow> u64 list) \<Rightarrow> u64 \<Rightarrow> u64 \<Rightarrow> Result \<Rightarrow> ('sm, 'e) KVApplier \<Rightarrow> ('sm, 'e) KVApplier" where
  "fulfill order index term result a =
     (let terms = (case ka_byIndex a index of None \<Rightarrow> {} | Some ts \<Rightarrow> ts);
          a = fold (fulfill_one index term result) (order terms) a
      in a\<lparr>ka_byIndex := (ka_byIndex a)(index := None)\<rparr>)"

definition KVApplier_Apply :: "(Entry \<Rightarrow> 'sm \<Rightarrow> 'sm \<times> ('x + Result)) \<Rightarrow> (u64 set \<Rightarrow> u64 list) \<Rightarrow> Entry
    \<Rightarrow> ('sm, 'e) KVApplier \<Rightarrow> ('sm, 'e) KVApplier \<times> 'x option" where
  "KVApplier_Apply sm_apply order e a =
     (case sm_apply e (ka_sm a) of
        (sm, Inl err) \<Rightarrow> (a\<lparr>ka_sm := sm\<rparr>, Some err)
      | (sm, Inr result) \<Rightarrow> (fulfill order (e_Index e) (e_Term e) result (a\<lparr>ka_sm := sm\<rparr>), None))"

text \<open>A \<open>range\<close> over a finite map meets every key.\<close>

definition enumerates :: "('k set \<Rightarrow> 'k list) \<Rightarrow> bool" where
  "enumerates order \<longleftrightarrow> (\<forall>S. finite S \<longrightarrow> set (order S) = S)"

lemma enumeratesD: "enumerates order \<Longrightarrow> finite S \<Longrightarrow> set (order S) = S"
  by (simp add: enumerates_def)

lemma enumerates_sorted: "enumerates sorted_list_of_set"
  by (simp add: enumerates_def)

section \<open>The invariant of the two maps\<close>

definition terms_at :: "('sm, 'e) KVApplier \<Rightarrow> u64 \<Rightarrow> u64 set" where
  "terms_at a index = {t. (index, t) \<in> dom (ka_waiters a)}"

definition kv_inv :: "('sm, 'e) KVApplier \<Rightarrow> bool" where
  "kv_inv a \<longleftrightarrow>
     (\<forall>index. ka_byIndex a index = (if terms_at a index = {} then None else Some (terms_at a index)))
   \<and> (\<forall>key ch. ka_waiters a key = Some ch \<longrightarrow> ch < ka_next a \<and> ka_chans a ch = [])
   \<and> inj_on (ka_waiters a) (dom (ka_waiters a))
   \<and> (\<forall>ch. length (ka_chans a ch) \<le> 1)
   \<and> finite (dom (ka_waiters a))"

lemma restrict_inj:
  assumes "inj_on m (dom m)"
  shows "inj_on (m |` A) (dom (m |` A))"
proof (rule inj_onI)
  fix x y
  assume "x \<in> dom (m |` A)" "y \<in> dom (m |` A)" "(m |` A) x = (m |` A) y"
  then show "x = y" using inj_onD [OF assms, of x y] by (auto simp: restrict_map_def domIff split: if_splits)
qed

lemma kv_inv_New: "kv_inv (NewKVApplier sm)"
  by (simp add: kv_inv_def NewKVApplier_def terms_at_def)

lemma terms_at_byIndex: "kv_inv a \<Longrightarrow> (case ka_byIndex a index of None \<Rightarrow> {} | Some ts \<Rightarrow> ts) = terms_at a index"
  by (simp add: kv_inv_def)

lemma kv_inv_sm: "kv_inv (a\<lparr>ka_sm := sm\<rparr>) = kv_inv a"
  by (simp add: kv_inv_def terms_at_def)

lemma kv_inv_waiter: "kv_inv a \<Longrightarrow> ka_waiters a key = Some ch \<Longrightarrow> ch < ka_next a \<and> ka_chans a ch = []"
  unfolding kv_inv_def by blast

lemma register_inv:
  assumes "kv_inv a" "ka_waiters a (index, term) = None" "register index term a = (a', ch)"
  shows "kv_inv a'" "ka_waiters a' (index, term) = Some ch" "ka_chans a' ch = []"
proof -
  let ?terms = "insert term (terms_at a index)"
  have a': "a' = a\<lparr>ka_next := Suc (ka_next a), ka_chans := (ka_chans a)(ka_next a := []),
      ka_waiters := (ka_waiters a)((index, term) \<mapsto> ka_next a), ka_byIndex := (ka_byIndex a)(index \<mapsto> ?terms)\<rparr>"
    and ch: "ch = ka_next a"
    using assms(3) terms_at_byIndex [OF assms(1)] by (auto simp: register_def Let_def)
  have at: "terms_at a' i = (if i = index then ?terms else terms_at a i)" for i
    by (auto simp: a' terms_at_def)
  have old: "ka_waiters a key = Some c \<Longrightarrow> c < ka_next a \<and> ka_chans a c = []" for key c
    using assms(1) by (rule kv_inv_waiter)
  have "inj_on (ka_waiters a') (dom (ka_waiters a'))"
  proof (rule inj_onI)
    fix x y
    assume xy: "x \<in> dom (ka_waiters a')" "y \<in> dom (ka_waiters a')" "ka_waiters a' x = ka_waiters a' y"
    have inj: "ka_waiters a u = ka_waiters a v \<Longrightarrow> u \<in> dom (ka_waiters a) \<Longrightarrow> v \<in> dom (ka_waiters a) \<Longrightarrow> u = v" for u v
      using assms(1) by (auto simp: kv_inv_def inj_on_def)
    show "x = y"
      using xy inj [of x y] old [of x "ka_next a"] old [of y "ka_next a"] by (auto simp: a' domIff split: if_splits)
  qed
  moreover have "ka_byIndex a' i = (if terms_at a' i = {} then None else Some (terms_at a' i))" for i
    using assms(1) by (simp add: at) (simp add: a' kv_inv_def)
  moreover have "length (ka_chans a' c) \<le> 1" for c
    using assms(1) by (simp add: a' kv_inv_def)
  moreover have "ka_waiters a' key = Some c \<Longrightarrow> c < ka_next a' \<and> ka_chans a' c = []" for key c
    using old [of key c] by (auto simp: a' split: if_splits)
  moreover have "finite (dom (ka_waiters a'))" using assms(1) by (simp add: a' kv_inv_def)
  ultimately show "kv_inv a'" by (simp add: kv_inv_def)
  show "ka_waiters a' (index, term) = Some ch" "ka_chans a' ch = []" by (simp_all add: a' ch)
qed

text \<open>Removing one waiter and sending its outcome, the step all three ways of resolving share.\<close>

definition drop_waiter :: "waiterKey \<Rightarrow> ('sm, 'e) KVApplier \<Rightarrow> ('sm, 'e) KVApplier" where
  "drop_waiter key a = removeFromIndexLocked (fst key) (snd key) (a\<lparr>ka_waiters := (ka_waiters a)(key := None)\<rparr>)"

lemma removeFromIndex_fields [simp]:
  "ka_waiters (removeFromIndexLocked i t a) = ka_waiters a"
  "ka_chans (removeFromIndexLocked i t a) = ka_chans a"
  "ka_next (removeFromIndexLocked i t a) = ka_next a"
  "ka_sm (removeFromIndexLocked i t a) = ka_sm a"
  by (simp_all add: removeFromIndexLocked_def Let_def split: option.split)

lemma drop_waiter_fields [simp]:
  "ka_waiters (drop_waiter key a) = (ka_waiters a)(key := None)"
  "ka_chans (drop_waiter key a) = ka_chans a"
  "ka_next (drop_waiter key a) = ka_next a"
  "ka_sm (drop_waiter key a) = ka_sm a"
  by (simp_all add: drop_waiter_def)

lemma drop_waiter_byIndex:
  assumes "kv_inv a"
  shows "ka_byIndex (drop_waiter key a) i
    = (if terms_at (drop_waiter key a) i = {} then None else Some (terms_at (drop_waiter key a) i))"
proof -
  have by_index: "ka_byIndex a j = (if terms_at a j = {} then None else Some (terms_at a j))" for j
    using assms by (simp add: kv_inv_def)
  have at: "terms_at (drop_waiter key a) j = (if j = fst key then terms_at a j - {snd key} else terms_at a j)" for j
    by (cases key) (auto simp: terms_at_def)
  show ?thesis
    unfolding at by (simp add: drop_waiter_def removeFromIndexLocked_def by_index Let_def)
qed

lemma drop_waiter_inv:
  assumes "kv_inv a"
  shows "kv_inv (drop_waiter key a)"
proof -
  have "inj_on (ka_waiters (drop_waiter key a)) (dom (ka_waiters (drop_waiter key a)))"
    using assms unfolding kv_inv_def inj_on_def by (auto simp: domIff)
  with assms drop_waiter_byIndex [OF assms] show ?thesis
    by (auto simp: kv_inv_def split: if_splits)
qed

lemma kv_inv_send:
  assumes "kv_inv a" "ka_chans a ch = []" "\<And>key. ka_waiters a key \<noteq> Some ch"
  shows "kv_inv (chan_send ch out a)"
  using assms by (auto simp: kv_inv_def chan_send_def terms_at_def)

lemma kv_inv_resolve:
  assumes "kv_inv a" "ka_waiters a key = Some ch"
  shows "kv_inv (chan_send ch out (drop_waiter key a))"
proof (rule kv_inv_send [OF drop_waiter_inv [OF assms(1)]])
  show "ka_chans (drop_waiter key a) ch = []"
    using assms unfolding kv_inv_def drop_waiter_fields by blast
  have inj: "inj_on (ka_waiters a) (dom (ka_waiters a))" using assms(1) by (simp add: kv_inv_def)
  fix key'
  show "ka_waiters (drop_waiter key a) key' \<noteq> Some ch"
    using inj_onD [OF inj, of key key'] assms(2) by (auto simp: domIff)
qed

lemma cancel_inv: "kv_inv a \<Longrightarrow> kv_inv (cancel i t a)"
  using drop_waiter_inv [of a "(i, t)"] by (auto simp: cancel_def drop_waiter_def split: option.split)

lemma cancel_effect:
  "ka_waiters (cancel i t a) = (ka_waiters a)((i, t) := None)" "ka_chans (cancel i t a) = ka_chans a"
  by (auto simp: cancel_def split: option.split)

section \<open>Resolving waiters\<close>

lemma failStop_one_eq:
  "failStop_one err key a
     = (case ka_waiters a key of None \<Rightarrow> a | Some ch \<Rightarrow> chan_send ch (outcome_err err) (drop_waiter key a))"
  by (cases key) (simp add: failStop_one_def drop_waiter_def Let_def split: option.split)

lemma failStop_one_inv: "kv_inv a \<Longrightarrow> kv_inv (failStop_one err key a)"
  by (simp add: failStop_one_eq kv_inv_resolve split: option.split)

lemma failStop_one_waiters: "ka_waiters (failStop_one err key a) = (ka_waiters a)(key := None)"
  by (auto simp: failStop_one_eq chan_send_def split: option.split)

lemma failStop_loop:
  assumes "kv_inv a"
  shows "kv_inv (fold (failStop_one err) keys a)
    \<and> ka_waiters (fold (failStop_one err) keys a) = ka_waiters a |` (- set keys)
    \<and> (\<forall>ch. ka_chans (fold (failStop_one err) keys a) ch
      = (if \<exists>key \<in> set keys. ka_waiters a key = Some ch then [outcome_err err] else ka_chans a ch))"
  using assms
proof (induction keys arbitrary: a)
  case (Cons key keys)
  note step = failStop_one_inv [OF Cons.prems, of err key]
  note IH = Cons.IH [OF step]
  have inj: "inj_on (ka_waiters a) (dom (ka_waiters a))" using Cons.prems by (simp add: kv_inv_def)
  have ch: "ka_chans (failStop_one err key a) ch = (if ka_waiters a key = Some ch then [outcome_err err] else ka_chans a ch)" for ch
    using kv_inv_waiter [OF Cons.prems, of key] by (auto simp: failStop_one_eq chan_send_def split: option.split)
  have other: "ka_waiters a key = Some ch \<Longrightarrow> ka_waiters a k = Some ch \<Longrightarrow> k = key" for k ch
    using inj_onD [OF inj, of k key] by (auto simp: domIff)
  have "ka_chans (fold (failStop_one err) (key # keys) a) ch
      = (if \<exists>k \<in> set (key # keys). ka_waiters a k = Some ch then [outcome_err err] else ka_chans a ch)" for ch
    using IH other [of ch] unfolding ch failStop_one_waiters by (auto split: if_splits)
  moreover have "ka_waiters (fold (failStop_one err) (key # keys) a) = ka_waiters a |` (- set (key # keys))"
    using IH by (auto simp: failStop_one_waiters restrict_map_def fun_eq_iff)
  ultimately show ?case using IH by simp
qed (simp add: restrict_map_def fun_eq_iff)

lemma FailStop_effect:
  assumes "kv_inv a" "enumerates order"
  shows "kv_inv (FailStop order err a)" "ka_waiters (FailStop order err a) = Map.empty"
    and "ka_chans (FailStop order err a) ch = (if \<exists>key. ka_waiters a key = Some ch then [outcome_err err] else ka_chans a ch)"
proof -
  have set: "set (order (dom (ka_waiters a))) = dom (ka_waiters a)" using assms by (simp add: enumeratesD kv_inv_def)
  note loop = failStop_loop [OF assms(1), of err "order (dom (ka_waiters a))", folded FailStop_def, unfolded set]
  from loop show "kv_inv (FailStop order err a)" by blast
  from loop show "ka_waiters (FailStop order err a) = Map.empty" by (simp add: restrict_map_def fun_eq_iff domIff)
  have "(\<exists>key \<in> dom (ka_waiters a). ka_waiters a key = Some ch) \<longleftrightarrow> (\<exists>key. ka_waiters a key = Some ch)" by blast
  with loop show "ka_chans (FailStop order err a) ch = (if \<exists>key. ka_waiters a key = Some ch then [outcome_err err] else ka_chans a ch)"
    by (simp del: split_paired_Ex)
qed

lemma fulfill_one_fields:
  "ka_waiters (fulfill_one i t r s a) = (ka_waiters a)((i, s) := None)"
  "ka_byIndex (fulfill_one i t r s a) = ka_byIndex a" "ka_next (fulfill_one i t r s a) = ka_next a"
  "ka_sm (fulfill_one i t r s a) = ka_sm a"
  by (auto simp: fulfill_one_def chan_send_def Let_def split: option.split)

lemma fulfill_loop_fields:
  "ka_waiters (fold (fulfill_one i t r) ts a) = ka_waiters a |` (- ({i} \<times> set ts))"
  "ka_byIndex (fold (fulfill_one i t r) ts a) = ka_byIndex a"
  "ka_next (fold (fulfill_one i t r) ts a) = ka_next a"
  "ka_sm (fold (fulfill_one i t r) ts a) = ka_sm a"
  by (induction ts arbitrary: a) (auto simp: fulfill_one_fields restrict_map_def fun_eq_iff)

lemma fulfill_loop_chans:
  assumes "inj_on (ka_waiters a) (dom (ka_waiters a))"
    and "\<And>key ch. ka_waiters a key = Some ch \<Longrightarrow> ka_chans a ch = []"
  shows "ka_chans (fold (fulfill_one i t r) ts a) ch
      = (if ka_waiters a (i, t) = Some ch \<and> t \<in> set ts then [outcome_result r]
         else if \<exists>t' \<in> set ts. ka_waiters a (i, t') = Some ch then [outcome_stale] else ka_chans a ch)"
  using assms
proof (induction ts arbitrary: a)
  case (Cons s ts)
  let ?b = "fulfill_one i t r s a"
  note w = fulfill_one_fields(1) [of i t r s a]
  have inj: "inj_on (ka_waiters ?b) (dom (ka_waiters ?b))"
    using Cons.prems(1) unfolding w inj_on_def by (auto simp: domIff)
  have same: "ka_waiters a (i, s) = Some c \<Longrightarrow> ka_waiters a k = Some c \<Longrightarrow> k = (i, s)" for k c
    using inj_onD [OF Cons.prems(1), of k "(i, s)"] by (auto simp: domIff)
  have c: "ka_chans ?b c = (if ka_waiters a (i, s) = Some c then [if s = t then outcome_result r else outcome_stale] else ka_chans a c)" for c
    using Cons.prems(2) by (auto simp: fulfill_one_def chan_send_def Let_def split: option.split)
  have empty: "ka_chans ?b c = []" if "ka_waiters ?b key = Some c" for key c
    using that Cons.prems(2) [of key c] same [of c key] unfolding w c by (auto split: if_splits)
  note IH = Cons.IH [OF inj empty]
  show ?case
  proof (cases "ka_waiters a (i, s) = Some ch")
    case True
    then have none: "ka_waiters ?b (i, t') \<noteq> Some ch" for t' using same [OF True, of "(i, t')"] by (auto simp: w)
    have "ka_waiters a (i, t) = Some ch \<longleftrightarrow> s = t" using same [OF True, of "(i, t)"] True by auto
    with True none IH show ?thesis by (auto simp: c)
  next
    case False
    then have "ka_waiters ?b (i, t') = Some ch \<longleftrightarrow> ka_waiters a (i, t') = Some ch" for t' by (auto simp: w)
    with False IH show ?thesis by (auto simp: c)
  qed
qed auto

lemma terms_at_finite: "kv_inv a \<Longrightarrow> finite (terms_at a i)"
  unfolding terms_at_def kv_inv_def by (intro finite_vimageI [of _ "Pair i", unfolded vimage_def]) (auto simp: inj_on_def)

lemma fulfill_effect:
  assumes "kv_inv a" "enumerates order"
  shows "kv_inv (fulfill order i t r a)"
    and "ka_waiters (fulfill order i t r a) = ka_waiters a |` {key. fst key \<noteq> i}"
    and "ka_chans (fulfill order i t r a) ch
      = (if ka_waiters a (i, t) = Some ch then [outcome_result r]
         else if \<exists>t'. ka_waiters a (i, t') = Some ch then [outcome_stale] else ka_chans a ch)"
    and "ka_sm (fulfill order i t r a) = ka_sm a"
proof -
  let ?b = "fulfill order i t r a" and ?ts = "order (terms_at a i)"
  have ts: "set ?ts = terms_at a i" by (rule enumeratesD [OF assms(2) terms_at_finite [OF assms(1)]])
  have eq: "?b = (fold (fulfill_one i t r) ?ts a)\<lparr>ka_byIndex := (ka_byIndex (fold (fulfill_one i t r) ?ts a))(i := None)\<rparr>"
    using terms_at_byIndex [OF assms(1), of i] by (simp add: fulfill_def Let_def)
  have inj: "inj_on (ka_waiters a) (dom (ka_waiters a))" using assms(1) by (simp add: kv_inv_def)
  have empty: "ka_waiters a key = Some c \<Longrightarrow> ka_chans a c = []" for key c using kv_inv_waiter [OF assms(1)] by blast
  show w: "ka_waiters ?b = ka_waiters a |` {key. fst key \<noteq> i}"
    using ts by (auto simp: eq fulfill_loop_fields restrict_map_def fun_eq_iff terms_at_def domIff)
  have at: "(\<exists>t' \<in> set ?ts. ka_waiters a (i, t') = Some c) \<longleftrightarrow> (\<exists>t'. ka_waiters a (i, t') = Some c)"
    "ka_waiters a (i, t) = Some c \<and> t \<in> set ?ts \<longleftrightarrow> ka_waiters a (i, t) = Some c" for c
    using ts by (auto simp: terms_at_def)
  show c: "ka_chans ?b ch = (if ka_waiters a (i, t) = Some ch then [outcome_result r]
         else if \<exists>t'. ka_waiters a (i, t') = Some ch then [outcome_stale] else ka_chans a ch)" for ch
    using fulfill_loop_chans [OF inj, of i t r ?ts ch] empty unfolding at by (simp add: eq)
  show "ka_sm ?b = ka_sm a" by (simp add: eq fulfill_loop_fields)
  have "terms_at ?b j = (if j = i then {} else terms_at a j)" for j
    by (auto simp: terms_at_def w restrict_map_def domIff)
  moreover have "ka_byIndex ?b j = (if j = i then None else ka_byIndex a j)" "ka_next ?b = ka_next a" for j
    by (simp_all add: eq fulfill_loop_fields)
  moreover have "inj_on (ka_waiters ?b) (dom (ka_waiters ?b))"
    unfolding w by (rule restrict_inj [OF inj])
  moreover have "ka_chans ?b d = []" "d < ka_next a" if d: "ka_waiters ?b key = Some d" for key d
  proof -
    from d have k: "ka_waiters a key = Some d" "fst key \<noteq> i" by (auto simp: w restrict_map_def split: if_splits)
    then have "ka_waiters a (i, t') \<noteq> Some d" for t' using inj_onD [OF inj, of key "(i, t')"] by (auto simp: domIff)
    with k kv_inv_waiter [OF assms(1) k(1)] show "ka_chans ?b d = []" "d < ka_next a" by (auto simp: c)
  qed
  moreover have "length (ka_chans ?b d) \<le> 1" for d
    using assms(1) by (simp add: c kv_inv_def)
  moreover have "finite (dom (ka_waiters ?b))" using assms(1) by (simp add: w kv_inv_def)
  ultimately show "kv_inv ?b"
    using assms(1) unfolding kv_inv_def by (simp del: split_paired_All)
qed

lemma KVApplier_Apply_effect:
  assumes "sm_apply e (ka_sm a) = (sm, Inr r)"
  shows "KVApplier_Apply sm_apply order e a = (fulfill order (e_Index e) (e_Term e) r (a\<lparr>ka_sm := sm\<rparr>), None)"
  using assms by (simp add: KVApplier_Apply_def)

section \<open>The KV service\<close>

datatype exec_code = InvalidArgument | Unavailable | ContextError

record NotLeader =
  nl_LeaderId :: u64
  nl_LeaderAddr :: string

datatype ExecuteResponse = RespNotLeader NotLeader | RespOk Result

definition validateCommand :: "Command option \<Rightarrow> exec_code option" where
  "validateCommand co =
     (case co of
        None \<Rightarrow> Some InvalidArgument
      | Some cmd \<Rightarrow> if c_Op cmd = PUT \<or> c_Op cmd = DELETE \<or> c_Op cmd = GET then None else Some InvalidArgument)"

definition notLeaderResponse :: "(u64 \<rightharpoonup> string) \<Rightarrow> ('s, 'a, 'e) Host \<Rightarrow> ExecuteResponse" where
  "notLeaderResponse peers h =
     (case LeaderHint h of
        (pid, True) \<Rightarrow> RespNotLeader \<lparr>nl_LeaderId = pid, nl_LeaderAddr = (case peers pid of Some addr \<Rightarrow> addr | None \<Rightarrow> [])\<rparr>
      | (_, False) \<Rightarrow> RespNotLeader \<lparr>nl_LeaderId = 0, nl_LeaderAddr = []\<rparr>)"

text \<open>
  Execute runs up to its \<open>select\<close>: it is then answered, or it waits on a channel for the position it
  proposed. \<open>marshal\<close> may fail. The outer \<open>None\<close> is a panic of the node.
\<close>

datatype exec_state = Answered "exec_code + ExecuteResponse" | Waiting nat u64 u64

type_synonym ('s, 'sm, 'e) kv_host = "('s, ('sm, 'e host_error) KVApplier, 'e) Host"

definition Execute_start ::
  "('s, 'e) saver \<Rightarrow> (('sm, 'e host_error) KVApplier, 'e) applier \<Rightarrow> (waiterKey set \<Rightarrow> waiterKey list)
   \<Rightarrow> (Command \<Rightarrow> bytes option) \<Rightarrow> (u64 \<rightharpoonup> string) \<Rightarrow> Command option \<Rightarrow> ('s, 'sm, 'e) kv_host
   \<Rightarrow> (('s, 'sm, 'e) kv_host \<times> exec_state) option" where
  "Execute_start save apply_entry order marshal peers co h =
     (case validateCommand co of
        Some code \<Rightarrow> Some (h, Answered (Inl code))
      | None \<Rightarrow>
          (case marshal (the co) of
             None \<Rightarrow> Some (h, Answered (Inl InvalidArgument))
           | Some data \<Rightarrow> do {
               let ch = (case hp_applier (h_parts h) of None \<Rightarrow> 0 | Some a \<Rightarrow> ka_next a);
               (h', index, term, isLeader, err) \<leftarrow>
                 Host_Propose save apply_entry (Some (FailStop order)) data
                   (Some (\<lambda>index term a. fst (register index term a))) h;
               Some (h', if err \<noteq> None then Answered (Inl Unavailable)
                         else if \<not> isLeader then Answered (Inr (notLeaderResponse peers h'))
                         else Waiting ch index term)
             }))"

text \<open>The two ways out of the \<open>select\<close>: an outcome on the channel, or the end of the context.\<close>

definition Execute_outcome :: "(u64 \<rightharpoonup> string) \<Rightarrow> ('s, 'a, 'e) Host \<Rightarrow> 'x waiterOutcome \<Rightarrow> exec_code + ExecuteResponse" where
  "Execute_outcome peers h out =
     (if wo_err out \<noteq> None then Inl Unavailable
      else if wo_stale out then Inr (notLeaderResponse peers h)
      else Inr (RespOk (wo_result out)))"

definition Execute_done :: "u64 \<Rightarrow> u64 \<Rightarrow> ('sm, 'e) KVApplier \<Rightarrow> ('sm, 'e) KVApplier \<times> (exec_code + ExecuteResponse)" where
  "Execute_done index term a = (cancel index term a, Inl ContextError)"

section \<open>Claims\<close>

text \<open>The steps of the applier: requests come and go, entries are applied, the host stops.\<close>

inductive kv_step :: "('sm, 'e) KVApplier \<Rightarrow> ('sm, 'e) KVApplier \<Rightarrow> bool" where
  Register: "ka_waiters a (i, t) = None \<Longrightarrow> kv_step a (fst (register i t a))"
| Cancel: "kv_step a (cancel i t a)"
| Fulfill: "enumerates order \<Longrightarrow> kv_step a (fulfill order i t r (a\<lparr>ka_sm := sm\<rparr>))"
| Stop: "enumerates order \<Longrightarrow> kv_step a (FailStop order err a)"
| Receive: "ka_chans a ch = [out] \<Longrightarrow> kv_step a (a\<lparr>ka_chans := (ka_chans a)(ch := [])\<rparr>)"

lemma kv_step_inv:
  assumes "kv_step a a'" "kv_inv a"
  shows "kv_inv a'"
  using assms
proof cases
  case (Register i t)
  obtain b ch where "register i t a = (b, ch)" by fastforce
  with register_inv(1) [OF assms(2) Register(2) this] Register(1) show ?thesis by simp
next
  case (Fulfill order i t r sm)
  with assms(2) show ?thesis by (simp add: fulfill_effect(1) kv_inv_sm)
next
  case (Receive ch out)
  from Receive(2) have "ka_waiters a key \<noteq> Some ch" for key using kv_inv_waiter [OF assms(2), of key ch] by auto
  with Receive(1) assms(2) show ?thesis by (auto simp: kv_inv_def terms_at_def)
qed (simp_all add: assms cancel_inv FailStop_effect(1))

lemma kv_reachable_inv: "kv_step\<^sup>*\<^sup>* (NewKVApplier sm) a \<Longrightarrow> kv_inv a"
  by (induction rule: rtranclp_induct) (simp_all add: kv_inv_New kv_step_inv)

text \<open>
  \<open>resolves a b\<close>: on the way from \<open>a\<close> to \<open>b\<close> every waiter of \<open>a\<close> kept its place or got its one
  outcome, and no other channel was touched.
\<close>

definition unregistered :: "nat \<Rightarrow> ('sm, 'e) KVApplier \<Rightarrow> bool" where
  "unregistered ch a \<longleftrightarrow> (\<forall>key. ka_waiters a key \<noteq> Some ch)"

definition resolves :: "('sm, 'e) KVApplier \<Rightarrow> ('sm, 'e) KVApplier \<Rightarrow> bool" where
  "resolves a b \<longleftrightarrow> kv_inv b
     \<and> (\<forall>key ch. ka_waiters a key = Some ch \<longrightarrow> ka_waiters b key = Some ch \<or> unregistered ch b \<and> length (ka_chans b ch) = 1)
     \<and> (\<forall>ch. unregistered ch a \<longrightarrow> unregistered ch b \<and> ka_chans b ch = ka_chans a ch)"

lemma resolves_refl: "kv_inv a \<Longrightarrow> resolves a a"
  by (simp add: resolves_def)

lemma resolves_inv: "resolves a b \<Longrightarrow> kv_inv b"
  by (simp add: resolves_def)

lemma resolves_trans: "resolves a b \<Longrightarrow> resolves b c \<Longrightarrow> resolves a c"
  unfolding resolves_def by metis

lemma resolves_sm: "kv_inv a \<Longrightarrow> resolves a (a\<lparr>ka_sm := sm\<rparr>)"
  by (simp add: resolves_def kv_inv_sm unregistered_def)

lemma resolves_fulfill:
  assumes "kv_inv a" "enumerates ts"
  shows "resolves a (fulfill ts i t r a)"
  unfolding resolves_def
proof (intro conjI allI impI)
  note eff = fulfill_effect [OF assms]
  show "kv_inv (fulfill ts i t r a)" by (rule eff(1))
  have inj: "inj_on (ka_waiters a) (dom (ka_waiters a))" using assms(1) by (simp add: kv_inv_def)
  show "ka_waiters (fulfill ts i t r a) key = Some ch
      \<or> unregistered ch (fulfill ts i t r a) \<and> length (ka_chans (fulfill ts i t r a) ch) = 1"
    if key: "ka_waiters a key = Some ch" for key ch
  proof (cases "fst key = i")
    case True
    then have "key = (i, snd key)" by (cases key) simp
    then have "\<exists>t'. ka_waiters a (i, t') = Some ch" using key by metis
    moreover have "unregistered ch (fulfill ts i t r a)"
      unfolding unregistered_def
    proof
      fix k
      have "ka_waiters a k = Some ch \<Longrightarrow> k = key" using inj_onD [OF inj, of k key] key by (auto simp: domIff)
      then show "ka_waiters (fulfill ts i t r a) k \<noteq> Some ch" using True by (auto simp: eff(2) restrict_map_def)
    qed
    ultimately show ?thesis by (simp add: eff(3))
  qed (use key in \<open>simp add: eff(2)\<close>)
  fix ch
  assume "unregistered ch a"
  then show "unregistered ch (fulfill ts i t r a)" "ka_chans (fulfill ts i t r a) ch = ka_chans a ch"
    by (auto simp: unregistered_def eff restrict_map_def)
qed

lemma resolves_apply_all:
  assumes "enumerates order"
  shows "kv_inv a \<Longrightarrow> apply_all (KVApplier_Apply sm_apply order) es (Some a) = (ao, err) \<Longrightarrow> \<exists>b. ao = Some b \<and> resolves a b"
proof (induction es arbitrary: a)
  case (Cons e es)
  obtain sm res where A: "sm_apply e (ka_sm a) = (sm, res)" by fastforce
  show ?case
  proof (cases res)
    case (Inl x)
    with A Cons.prems show ?thesis by (auto simp: KVApplier_Apply_def resolves_sm)
  next
    case (Inr r)
    let ?b = "fulfill order (e_Index e) (e_Term e) r (a\<lparr>ka_sm := sm\<rparr>)"
    have "resolves a ?b"
      using Cons.prems(1) assms by (intro resolves_trans [OF resolves_sm resolves_fulfill]) (simp_all add: kv_inv_sm)
    moreover have "apply_all (KVApplier_Apply sm_apply order) es (Some ?b) = (ao, err)"
      using Cons.prems(2) A Inr by (simp add: KVApplier_Apply_effect)
    ultimately show ?thesis using Cons.IH [of ?b] by (blast intro: resolves_trans dest: resolves_inv)
  qed
qed (auto simp: resolves_refl)

text \<open>C4. Waiters get their own result, once. In every reachable state of the applier each channel
  holds at most one outcome, so a send never blocks, and a registered request has none yet. When the
  entry of index i and term t' is applied, the request waiting at (i, t) gets the result if t = t'
  and is told its proposal was lost otherwise; requests waiting at other indices keep waiting.\<close>

theorem waiter_outcome_exact:
  assumes "kv_step\<^sup>*\<^sup>* (NewKVApplier sm) a" "ka_waiters a (i, t) = Some ch" "enumerates order"
  shows "(\<forall>c. length (ka_chans a c) \<le> 1) \<and> ka_chans a ch = []
    \<and> (let b = fulfill order j t' r a
       in if i = j then ka_waiters b (i, t) = None \<and> ka_chans b ch = [if t = t' then outcome_result r else outcome_stale]
          else ka_waiters b (i, t) = Some ch \<and> ka_chans b ch = [])"
proof -
  have inv: "kv_inv a" by (rule kv_reachable_inv [OF assms(1)])
  have inj: "inj_on (ka_waiters a) (dom (ka_waiters a))" using inv by (simp add: kv_inv_def)
  have same: "ka_waiters a key = Some ch \<longleftrightarrow> key = (i, t)" for key
    using inj_onD [OF inj, of key "(i, t)"] assms(2) by (auto simp: domIff)
  have "\<forall>c. length (ka_chans a c) \<le> 1" using inv by (simp add: kv_inv_def)
  then show ?thesis
    using kv_inv_waiter [OF inv assms(2)] fulfill_effect [OF inv assms(3)] assms(2)
    by (auto simp: Let_def same restrict_map_def)
qed

definition two_waiters :: "(unit, string) KVApplier" where
  "two_waiters = fst (register 5 4 (fst (register 5 3 (NewKVApplier ()))))"

lemma two_waiters_reachable: "kv_step\<^sup>*\<^sup>* (NewKVApplier ()) two_waiters"
proof -
  have "kv_step (NewKVApplier ()) (fst (register 5 3 (NewKVApplier () :: (unit, string) KVApplier)))"
    by (rule kv_step.Register) (simp add: NewKVApplier_def)
  moreover have "kv_step (fst (register 5 3 (NewKVApplier ()))) two_waiters"
    unfolding two_waiters_def by (rule kv_step.Register) (simp add: NewKVApplier_def register_def)
  ultimately show ?thesis by simp
qed

theorem waiter_outcome_exact_witness:
  "ka_chans (fulfill sorted_list_of_set 5 4 empty_result two_waiters) 0 = [outcome_stale]
   \<and> ka_chans (fulfill sorted_list_of_set 5 4 empty_result two_waiters) 1 = [outcome_result empty_result]"
proof -
  have w: "ka_waiters two_waiters = [(5, 3) \<mapsto> 0, (5, 4) \<mapsto> 1]"
    by (simp add: two_waiters_def register_def NewKVApplier_def Let_def)
  have three: "ka_waiters two_waiters (5, 3) = Some 0" and four: "ka_waiters two_waiters (5, 4) = Some 1" by (simp_all add: w)
  show ?thesis
    using waiter_outcome_exact [OF two_waiters_reachable three enumerates_sorted, of 5 4 empty_result]
      waiter_outcome_exact [OF two_waiters_reachable four enumerates_sorted, of 5 4 empty_result]
    by (simp add: Let_def)
qed

text \<open>C5. A host that stops strands nobody. When processing a Ready fails, in storage or in the state
  machine, the host is stopped with that error, no request stays registered, and every request that
  was waiting has exactly one outcome in its channel.\<close>

theorem fail_stop_drains_waiters:
  assumes "enumerates order" "enumerates korder"
    and "hp_applier (h_parts h) = Some a" "kv_inv a"
    and "processReadyLocked save (KVApplier_Apply sm_apply order)
           (Some (FailStop korder)) h = (h', Some err)"
  shows "h_stopped h' = Some err \<and> (\<exists>b. hp_applier (h_parts h') = Some b \<and> ka_waiters b = Map.empty
    \<and> (\<forall>key ch. ka_waiters a key = Some ch \<longrightarrow> length (ka_chans b ch) = 1))"
proof -
  from assms(5) obtain p where P: "processReady save (KVApplier_Apply sm_apply order) (h_parts h) = (p, Some err)"
    and h': "h' = h\<lparr>h_parts := p\<lparr>hp_applier := map_option (FailStop korder err) (hp_applier p)\<rparr>,
      h_stopped := Some err\<rparr>"
    by (auto simp: processReadyLocked_def split: prod.splits option.splits)
  have "\<exists>b. hp_applier p = Some b \<and> resolves a b"
    using P assms(3) resolves_refl [OF assms(4)] resolves_apply_all [OF assms(1,4)]
    by (auto simp: processReady_eq Let_def split: prod.splits option.splits)
  then obtain b where b: "hp_applier p = Some b" "resolves a b" by blast
  let ?c = "FailStop korder err b"
  have inv: "kv_inv b" using b(2) by (simp add: resolves_def)
  have "ka_waiters ?c = Map.empty" by (rule FailStop_effect(2) [OF inv assms(2)])
  moreover have "length (ka_chans ?c ch) = 1" if "ka_waiters a key = Some ch" for key ch
  proof -
    from that b(2) have "ka_waiters b key = Some ch \<or> unregistered ch b \<and> length (ka_chans b ch) = 1"
      unfolding resolves_def by blast
    then show ?thesis by (auto simp: FailStop_effect(3) [OF inv assms(2)] unregistered_def simp del: split_paired_All split_paired_Ex)
  qed
  ultimately show ?thesis by (auto simp: h' b(1))
qed

definition failing_host :: "(unit, (unit, string host_error) KVApplier, string) Host" where
  "failing_host = \<lparr>h_parts = \<lparr>hp_node = NewNode
       \<lparr>c_ID = 1, c_Peers = [1], c_ElectionTickMin = 1, c_ElectionTickMax = 2, c_HeartbeatTicks = 1\<rparr>
       \<lparr>is_HardState = \<lparr>hs_Term = 0, hs_VotedFor = 0\<rparr>, is_Entries = [], is_Snapshot = \<lparr>sm_Index = 0, sm_Term = 0\<rparr>\<rparr> None,
     hp_storage = (), hp_sent = [], hp_applier = Some (fst (register 1 1 (NewKVApplier ())))\<rparr>,
     h_SelfID = 1, h_stopped = None, h_leaderHint = 0\<rparr>"

theorem fail_stop_drains_waiters_witness:
  "\<exists>h' err b. processReadyLocked (\<lambda>_ _ s. (s, Some ''disk'')) (KVApplier_Apply (\<lambda>_ sm. (sm, Inr empty_result)) sorted_list_of_set)
      (Some (FailStop sorted_list_of_set)) failing_host = (h', Some err)
    \<and> hp_applier (h_parts h') = Some b \<and> ka_waiters b = Map.empty \<and> length (ka_chans b 0) = 1"
proof -
  let ?a = "fst (register 1 1 (NewKVApplier ())) :: (unit, string host_error) KVApplier"
  have a: "hp_applier (h_parts failing_host) = Some ?a" by (simp add: failing_host_def)
  have inv: "kv_inv ?a"
    by (rule kv_step_inv [OF kv_step.Register kv_inv_New]) (simp add: NewKVApplier_def)
  have w: "ka_waiters ?a (1, 1) = Some 0" by (simp add: register_def NewKVApplier_def)
  obtain h' where P: "processReadyLocked (\<lambda>_ _ s. (s, Some ''disk'')) (KVApplier_Apply (\<lambda>_ sm. (sm, Inr empty_result)) sorted_list_of_set)
      (Some (FailStop sorted_list_of_set)) failing_host = (h', Some (SaveError ''disk''))"
    by (simp add: processReadyLocked_def processReady_eq Let_def)
  from fail_stop_drains_waiters [OF enumerates_sorted enumerates_sorted a inv P] w P show ?thesis by (auto simp del: split_paired_All)
qed

end
