(* ===== verification/Lsm_Bloom.thy ===== *)
theory Lsm_Bloom
  imports Std_Bytes
begin

text \<open>
  The Bloom filter of \<open>internal/lsm/bloom.go\<close>, on a 64-bit target: sizing, the double hashing of
  seven probes, insertion, query and the on-disk encoding. A nil filter is \<open>None\<close>; \<open>Add\<close> and
  \<open>MayContain\<close> give \<open>None\<close> where indexing the bit array would panic. The lemmas: a filter that
  \<open>NewBloomFilter\<close> or a successful decoding made never panics, has no false negatives and
  survives encoding.
\<close>

section \<open>Sizes\<close>

definition bloomBitsPerKey :: nat where
  "bloomBitsPerKey = 10"

definition bloomHashCount :: nat where
  "bloomHashCount = 7"

definition bloomVersion :: byte where
  "bloomVersion = 1"

definition bloomHeaderSize :: nat where
  "bloomHeaderSize = 10"

definition max_int :: nat where
  "max_int = 2 ^ 63 - 1"

record BloomFilter =
  bf_bits :: bytes
  bf_m :: u64

definition bloomByteLen :: "u64 \<Rightarrow> nat option" where
  "bloomByteLen bits =
     (let b = bits div 8;
          b = (if bits mod 8 \<noteq> 0 then b + 1 else b)
      in if unat b > max_int then None else Some (unat b))"

definition bloomSize :: "int \<Rightarrow> (u64 \<times> nat) option" where
  "bloomSize expectedKeys =
     (let keys = word_of_int (max 0 expectedKeys) :: u64
      in if keys > max_u64 div of_nat bloomBitsPerKey then None
         else let bits = keys * of_nat bloomBitsPerKey;
                  bits = (if bits < 8 then 8 else bits)
              in case bloomByteLen bits of None \<Rightarrow> None | Some n \<Rightarrow> Some (bits, n))"

definition NewBloomFilter :: "int \<Rightarrow> BloomFilter option" where
  "NewBloomFilter expectedKeys =
     (case bloomSize expectedKeys of
        None \<Rightarrow> None
      | Some (bits, n) \<Rightarrow> Some \<lparr>bf_bits = replicate n 0, bf_m = bits\<rparr>)"

section \<open>Probes\<close>

definition fnv1a64 :: "bytes \<Rightarrow> u64 \<Rightarrow> u64" where
  "fnv1a64 data seed = foldl (\<lambda>h b. (h XOR ucast b) * 0x100000001b3) seed data"

definition bloomHashPair :: "bytes \<Rightarrow> u64 \<times> u64" where
  "bloomHashPair key =
     (let h1 = fnv1a64 key 0xcbf29ce484222325;
          h2 = fnv1a64 key 0x84222325cbf29ce4;
          h2 = h2 XOR drop_bit 33 h2;
          h2 = h2 * 0xff51afd7ed558ccd;
          h2 = h2 XOR drop_bit 33 h2
      in (h1, if h2 = 0 then 0x9e3779b97f4a7c15 else h2))"

text \<open>The bit a probe looks at.\<close>

definition probe :: "u64 \<Rightarrow> bytes \<Rightarrow> nat \<Rightarrow> u64" where
  "probe m key i = (let (h1, h2) = bloomHashPair key in (h1 + of_nat i * h2) mod m)"

fun add_probes :: "u64 \<Rightarrow> bytes \<Rightarrow> nat list \<Rightarrow> bytes \<Rightarrow> bytes option" where
  "add_probes m key [] bits = Some bits"
| "add_probes m key (i # is) bits =
     (let b = probe m key i; j = unat (b div 8)
      in if j < length bits then add_probes m key is (bits[j := bits ! j OR push_bit (unat (b mod 8)) 1]) else None)"

definition bloom_Add :: "bytes \<Rightarrow> BloomFilter option \<Rightarrow> BloomFilter option option" where
  "bloom_Add key fo =
     (case fo of
        None \<Rightarrow> Some None
      | Some f \<Rightarrow>
          if bf_m f = 0 then Some (Some f)
          else case add_probes (bf_m f) key [0..<bloomHashCount] (bf_bits f) of
                 None \<Rightarrow> None
               | Some bits \<Rightarrow> Some (Some (f\<lparr>bf_bits := bits\<rparr>)))"

fun test_probes :: "u64 \<Rightarrow> bytes \<Rightarrow> nat list \<Rightarrow> bytes \<Rightarrow> bool option" where
  "test_probes m key [] bits = Some True"
| "test_probes m key (i # is) bits =
     (let b = probe m key i; j = unat (b div 8)
      in if j < length bits
         then (if bits ! j AND push_bit (unat (b mod 8)) 1 = 0 then Some False else test_probes m key is bits)
         else None)"

definition MayContain :: "bytes \<Rightarrow> BloomFilter option \<Rightarrow> bool option" where
  "MayContain key fo =
     (case fo of
        None \<Rightarrow> Some False
      | Some f \<Rightarrow> if bf_m f = 0 then Some False else test_probes (bf_m f) key [0..<bloomHashCount] (bf_bits f))"

section \<open>Encoding\<close>

definition bloom_MarshalBinary :: "BloomFilter option \<Rightarrow> bytes option" where
  "bloom_MarshalBinary fo =
     (case fo of
        None \<Rightarrow> None
      | Some f \<Rightarrow>
          if bf_m f = 0 then None
          else case bloomByteLen (bf_m f) of
                 None \<Rightarrow> None
               | Some byteLen \<Rightarrow>
                   if length (bf_bits f) \<noteq> byteLen \<or> byteLen > max_int - bloomHeaderSize then None
                   else Some ([bloomVersion, of_nat bloomHashCount] @ PutUint64 (bf_m f) @ bf_bits f))"

definition UnmarshalBloomFilter :: "bytes \<Rightarrow> BloomFilter option" where
  "UnmarshalBloomFilter data =
     (if length data < bloomHeaderSize + 1 \<or> data ! 0 \<noteq> bloomVersion \<or> data ! 1 \<noteq> of_nat bloomHashCount then None
      else let m = of_nat (get_le (take 8 (drop 2 data)))
           in case bloomByteLen m of
                None \<Rightarrow> None
              | Some byteLen \<Rightarrow>
                  if m = 0 \<or> length data - bloomHeaderSize \<noteq> byteLen then None
                  else Some \<lparr>bf_bits = drop bloomHeaderSize data, bf_m = m\<rparr>)"

section \<open>Well formed filters\<close>

definition bloom_ok :: "BloomFilter \<Rightarrow> bool" where
  "bloom_ok f \<longleftrightarrow> bf_m f \<noteq> 0 \<and> bloomByteLen (bf_m f) = Some (length (bf_bits f))"

lemma unat_div8: "unat (m div 8 :: u64) = unat m div 8" "unat (m mod 8 :: u64) = unat m mod 8"
  by (simp_all add: unat_div_distrib unat_mod_distrib)

lemma ceil_div8: "((n::nat) + 7) div 8 = (if n mod 8 = 0 then n div 8 else n div 8 + 1)"
proof -
  have "n + 7 = n mod 8 + 7 + 8 * (n div 8)" by simp
  then have "(n + 7) div 8 = (n mod 8 + 7) div 8 + n div 8" by (metis div_mult_self2 add.commute zero_neq_numeral)
  moreover have "(n mod 8 + 7) div 8 = (if n mod 8 = 0 then 0 else 1)"
    using mod_less_divisor [of 8 n] by (auto intro!: div_nat_eqI)
  ultimately show ?thesis by simp
qed

lemma bloomByteLen_value:
  assumes "bloomByteLen m = Some n"
  shows "n = (unat m + 7) div 8"
proof -
  have "unat m < 2 ^ 64" by (rule unat_u64_bound)
  then have "unat (m div 8 + 1) = unat m div 8 + 1"
    by (subst unat_u64_Suc) (simp_all add: unat_div8)
  moreover have "(m mod 8 \<noteq> 0) = (unat m mod 8 \<noteq> 0)" by (metis unat_div8(2) unat_eq_zero)
  ultimately show ?thesis using assms unfolding ceil_div8
    by (simp add: bloomByteLen_def Let_def unat_div8 split: if_splits)
qed

lemma probe_less: "m \<noteq> 0 \<Longrightarrow> unat (probe m key i) < unat m"
  unfolding probe_def by (simp add: unat_mod_distrib unat_gt_0 split: prod.split)

lemma probe_byte: "bloom_ok f \<Longrightarrow> unat (probe (bf_m f) key i div 8) < length (bf_bits f)"
  using probe_less [of "bf_m f" key i] bloomByteLen_value [of "bf_m f" "length (bf_bits f)"]
  by (auto simp: bloom_ok_def unat_div8)

lemma NewBloomFilter_ok: "NewBloomFilter n = Some f \<Longrightarrow> bloom_ok f"
  by (auto simp: NewBloomFilter_def bloomSize_def bloom_ok_def Let_def split: option.splits if_splits)

lemma unat_of_nat_ten: "unat (10 :: u64) = 10"
  by simp

lemma NewBloomFilter_total:
  assumes "0 \<le> n" "n < 2 ^ 60"
  shows "\<exists>f. NewBloomFilter n = Some f"
proof -
  have n: "unat (word_of_int n :: u64) = nat n"
    using assms by (simp add: unsigned_of_int take_bit_int_eq_self)
  have le: "\<not> (word_of_int n :: u64) > max_u64 div 10"
    using assms by (simp add: word_less_nat_alt unat_div_distrib unat_max_u64 n)
  have bits: "unat (word_of_int n * 10 :: u64) = nat n * 10"
    using assms by (simp add: unat_mult_lem [THEN iffD1] n)
  have "\<exists>k. bloomByteLen b = Some k" if "unat b \<le> 10 * 2 ^ 60" for b
  proof -
    have "unat (b div 8 + 1) = unat b div 8 + 1"
      using that by (subst unat_u64_Suc) (simp_all add: unat_div8)
    then show ?thesis using that by (auto simp: bloomByteLen_def Let_def unat_div8 max_int_def)
  qed
  moreover have "unat (word_of_int n * 10 :: u64) \<le> 10 * 2 ^ 60" unfolding bits using assms by simp
  ultimately have ex: "\<exists>k. bloomByteLen (word_of_int n * 10) = Some k" "\<exists>k. bloomByteLen 8 = Some k"
    by auto
  show ?thesis
    using ex le assms(1) by (auto simp: NewBloomFilter_def bloomSize_def bloomBitsPerKey_def Let_def max_def)
qed

section \<open>No false negatives\<close>

definition bit_set :: "bytes \<Rightarrow> u64 \<Rightarrow> bool" where
  "bit_set bits b \<longleftrightarrow> bit (bits ! unat (b div 8)) (unat (b mod 8))"

lemma and_push_bit: "(x :: byte) AND 2 ^ n = 0 \<longleftrightarrow> \<not> bit x n"
  using bit_iff_and_push_bit_not_eq_0 [of x n] by simp

lemma mod8_less: "unat (b mod 8 :: u64) < 8"
  by (simp add: unat_div8)

lemma bit_set_or:
  assumes "unat (b div 8) < length bits"
  shows "bit_set (bits[unat (c div 8) := bits ! unat (c div 8) OR push_bit (unat (c mod 8)) 1]) b \<longleftrightarrow> bit_set bits b \<or> b = c"
proof (cases "unat (b div 8) = unat (c div 8)")
  case True
  have "b = c \<longleftrightarrow> unat (b mod 8) = unat (c mod 8)"
    using True unfolding unat_div8 word_unat_eq_iff [of b c] by (metis div_mult_mod_eq)
  with True assms mod8_less [of b] mod8_less [of c] show ?thesis
    by (auto simp: bit_set_def bit_or_iff bit_exp_iff)
next
  case False
  then show ?thesis using assms by (auto simp: bit_set_def)
qed

lemma add_probes_ok:
  assumes "\<forall>i. unat (probe m key i div 8) < length bits"
  shows "\<exists>bits'. add_probes m key is bits = Some bits' \<and> length bits' = length bits
    \<and> (\<forall>b. unat (b div 8) < length bits \<longrightarrow> (bit_set bits' b \<longleftrightarrow> bit_set bits b \<or> b \<in> probe m key ` set is))"
  using assms
proof (induction "is" arbitrary: bits)
  case (Cons i "is")
  let ?b = "probe m key i"
  let ?bits = "bits[unat (?b div 8) := bits ! unat (?b div 8) OR push_bit (unat (?b mod 8)) 1]"
  have "\<forall>i. unat (probe m key i div 8) < length ?bits" using Cons.prems by simp
  from Cons.IH [OF this] obtain bits' where
    IH: "add_probes m key is ?bits = Some bits'" "length bits' = length bits"
      "\<And>b. unat (b div 8) < length bits \<Longrightarrow> bit_set bits' b \<longleftrightarrow> bit_set ?bits b \<or> b \<in> probe m key ` set is"
    by auto
  have "bit_set bits' b \<longleftrightarrow> bit_set bits b \<or> b \<in> probe m key ` set (i # is)" if "unat (b div 8) < length bits" for b
    using IH(3) [OF that] bit_set_or [OF that, of ?b] by auto
  with IH(1,2) Cons.prems show ?case by (auto simp: Let_def)
qed simp

lemma test_probes_iff:
  assumes "\<forall>i. unat (probe m key i div 8) < length bits"
  shows "test_probes m key is bits = Some (\<forall>i \<in> set is. bit_set bits (probe m key i))"
  using assms by (induction "is") (auto simp: Let_def and_push_bit bit_set_def)

lemma MayContain_iff:
  assumes "bloom_ok f"
  shows "MayContain key (Some f) = Some (\<forall>i < bloomHashCount. bit_set (bf_bits f) (probe (bf_m f) key i))"
  using assms test_probes_iff [of "bf_m f" key "bf_bits f"] probe_byte [OF assms]
  by (auto simp: MayContain_def bloom_ok_def)

lemma bloom_Add_ok:
  assumes "bloom_ok f"
  shows "\<exists>f'. bloom_Add key (Some f) = Some (Some f') \<and> bloom_ok f' \<and> MayContain key (Some f') = Some True
    \<and> (\<forall>k. MayContain k (Some f) = Some True \<longrightarrow> MayContain k (Some f') = Some True)"
proof -
  have byte: "\<forall>i. unat (probe (bf_m f) k i div 8) < length (bf_bits f)" for k
    using probe_byte [OF assms] by simp
  from add_probes_ok [OF byte, of key "[0..<bloomHashCount]"] obtain bits' where
    A: "add_probes (bf_m f) key [0..<bloomHashCount] (bf_bits f) = Some bits'" "length bits' = length (bf_bits f)"
      "\<And>b. unat (b div 8) < length (bf_bits f) \<Longrightarrow>
         bit_set bits' b \<longleftrightarrow> bit_set (bf_bits f) b \<or> b \<in> probe (bf_m f) key ` set [0..<bloomHashCount]" by auto
  have ok: "bloom_ok (f\<lparr>bf_bits := bits'\<rparr>)" using assms A(2) by (simp add: bloom_ok_def)
  have "MayContain k (Some (f\<lparr>bf_bits := bits'\<rparr>)) = Some True"
    if "k = key \<or> MayContain k (Some f) = Some True" for k
    using that A(3) byte [of k] unfolding MayContain_iff [OF ok] MayContain_iff [OF assms] by auto
  then show ?thesis using A(1) ok assms by (auto simp: bloom_Add_def bloom_ok_def)
qed

text \<open>Adding a list of keys, the loop of the table writer.\<close>

fun add_keys :: "bytes list \<Rightarrow> BloomFilter option \<Rightarrow> BloomFilter option option" where
  "add_keys [] fo = Some fo"
| "add_keys (k # ks) fo = (case bloom_Add k fo of None \<Rightarrow> None | Some fo' \<Rightarrow> add_keys ks fo')"

lemma add_keys_ok:
  assumes "bloom_ok f"
  shows "\<exists>f'. add_keys ks (Some f) = Some (Some f') \<and> bloom_ok f' \<and> (\<forall>k \<in> set ks. MayContain k (Some f') = Some True)
    \<and> (\<forall>k. MayContain k (Some f) = Some True \<longrightarrow> MayContain k (Some f') = Some True)"
  using assms
proof (induction ks arbitrary: f)
  case (Cons k ks)
  from bloom_Add_ok [OF Cons.prems, of k] obtain f1 where
    1: "bloom_Add k (Some f) = Some (Some f1)" "bloom_ok f1" "MayContain k (Some f1) = Some True"
      "\<And>x. MayContain x (Some f) = Some True \<Longrightarrow> MayContain x (Some f1) = Some True" by blast
  from Cons.IH [OF 1(2)] obtain f2 where "add_keys ks (Some f1) = Some (Some f2)" "bloom_ok f2"
    "\<forall>x \<in> set ks. MayContain x (Some f2) = Some True"
    "\<And>x. MayContain x (Some f1) = Some True \<Longrightarrow> MayContain x (Some f2) = Some True" by blast
  with 1 show ?case by auto
qed simp

lemma bloom_Add_m: "bloom_Add k fo = Some fo' \<Longrightarrow> map_option bf_m fo' = map_option bf_m fo"
  by (auto simp: bloom_Add_def split: option.splits if_splits)

lemma add_keys_m: "add_keys ks fo = Some fo' \<Longrightarrow> map_option bf_m fo' = map_option bf_m fo"
  by (induction ks arbitrary: fo) (auto split: option.splits dest!: bloom_Add_m)

section \<open>Encoding round trip\<close>

lemma bloom_marshal_ok:
  assumes "bloom_ok f" "length (bf_bits f) \<le> max_int - bloomHeaderSize"
  shows "bloom_MarshalBinary (Some f) = Some ([bloomVersion, of_nat bloomHashCount] @ PutUint64 (bf_m f) @ bf_bits f)"
  using assms by (auto simp: bloom_MarshalBinary_def bloom_ok_def)

lemma bloom_round_trip:
  assumes "bloom_MarshalBinary fo = Some data"
  shows "UnmarshalBloomFilter data = fo"
proof -
  from assms obtain f where f: "fo = Some f" "bf_m f \<noteq> 0" "bloomByteLen (bf_m f) = Some (length (bf_bits f))"
    and data: "data = [bloomVersion, of_nat bloomHashCount] @ PutUint64 (bf_m f) @ bf_bits f"
    by (auto simp: bloom_MarshalBinary_def split: option.splits if_splits)
  have "unat (bf_m f) \<noteq> 0" using f(2) by (simp add: unat_eq_zero)
  then have "bf_bits f \<noteq> []" using bloomByteLen_value [OF f(3)] by (auto simp: div_eq_0_iff)
  moreover have "take 8 (drop 2 data) = PutUint64 (bf_m f)" "drop bloomHeaderSize data = bf_bits f"
    by (simp_all add: data bloomHeaderSize_def)
  ultimately show ?thesis
    using f by (auto simp: UnmarshalBloomFilter_def Let_def data bloomHeaderSize_def)
qed

lemma UnmarshalBloomFilter_ok: "UnmarshalBloomFilter data = Some f \<Longrightarrow> bloom_ok f"
  by (auto simp: UnmarshalBloomFilter_def bloom_ok_def Let_def split: if_splits option.splits)

section \<open>Claims\<close>

text \<open>C9. The filter has no false negatives: a key that was added to a filter made by NewBloomFilter
  is reported as possibly present, also after the filter was written to disk and read back.\<close>

theorem bloom_no_false_negatives:
  assumes "NewBloomFilter n = Some f0" "k \<in> set ks"
  shows "\<exists>f. add_keys ks (Some f0) = Some (Some f) \<and> MayContain k (Some f) = Some True
    \<and> (\<forall>data. bloom_MarshalBinary (Some f) = Some data \<longrightarrow> MayContain k (UnmarshalBloomFilter data) = Some True)"
  using add_keys_ok [OF NewBloomFilter_ok [OF assms(1)], of ks] assms(2) bloom_round_trip by metis

theorem bloom_no_false_negatives_witness:
  "\<exists>f0 f. NewBloomFilter 2 = Some f0 \<and> add_keys [[97], [98]] (Some f0) = Some (Some f) \<and> MayContain [98] (Some f) = Some True"
proof -
  obtain f0 where f0: "NewBloomFilter 2 = Some f0" using NewBloomFilter_total [of 2] by auto
  from bloom_no_false_negatives [OF f0, of "[98]" "[[97], [98]]"] f0 show ?thesis by auto
qed

end
