(* ===== verification/Lsm_Sstable.thy ===== *)
theory Lsm_Sstable
  imports Lsm_Bloom
begin

text \<open>
  The sorted table format of \<open>internal/lsm/sstable.go\<close>: the writer, which cuts sorted records into
  checksummed blocks followed by an index, a Bloom filter and a footer, and the reader, which
  validates them. Offsets and lengths in the file are 64-bit words, buffers in memory lists.
  \<open>io.ReaderAt\<close> is a function from offset and length to the bytes read and an error; the target of
  the writer is a state with a \<open>Write\<close> argument. The messages of errors are left out.
  A nil writer and a writer without target give the same error and are both a missing target.
\<close>

section \<open>Records\<close>

record TableEntry =
  te_Key :: bytes
  te_Seq :: u64
  te_Value :: bytes
  te_Tombstone :: bool

datatype sst_error = ErrCorrupt | NilWriter | AfterFinish | NotSorted | TooLarge | InvalidBloom | WriteError | ErrShortWrite | NilInput

definition dataBlockTarget :: nat where
  "dataBlockTarget = 4096"

definition max_u32 :: nat where
  "max_u32 = 2 ^ 32 - 1"

definition validSSTableRecordOrder :: "bytes \<Rightarrow> u64 \<Rightarrow> bytes \<Rightarrow> u64 \<Rightarrow> bool" where
  "validSSTableRecordOrder previousKey previousSeq key seq \<longleftrightarrow> previousKey < key \<or> key = previousKey \<and> seq < previousSeq"

definition encodeRecord :: "TableEntry \<Rightarrow> sst_error + bytes" where
  "encodeRecord e =
     (if length (te_Key e) > max_u32 \<or> length (te_Value e) > max_u32 then Inl TooLarge
      else let out = PutUvarint (length (te_Key e)) @ te_Key e @ PutUint64 (te_Seq e)
           in if te_Tombstone e then Inr (out @ [1] @ PutUvarint 0)
              else Inr (out @ [0] @ PutUvarint (length (te_Value e)) @ te_Value e))"

text \<open>One iteration of \<open>decodeRecords\<close>: the record at the front and the data after it.\<close>

definition decode_value :: "bytes \<Rightarrow> u64 \<Rightarrow> byte \<Rightarrow> bytes \<Rightarrow> (TableEntry \<times> bytes) option" where
  "decode_value key seq tombstone data =
     (case Uvarint data of
        UvOk valueLen n \<Rightarrow>
          if valueLen > length data - n then None
          else let data = drop n data
               in if valueLen > length data \<or> (tombstone = 1 \<and> valueLen \<noteq> 0) then None
                  else Some (\<lparr>te_Key = key, te_Seq = seq,
                              te_Value = (if tombstone = 1 then [] else take valueLen data), te_Tombstone = (tombstone = 1)\<rparr>,
                             drop valueLen data)
      | _ \<Rightarrow> None)"

definition decode_record :: "bytes \<Rightarrow> (TableEntry \<times> bytes) option" where
  "decode_record data =
     (case Uvarint data of
        UvOk keyLen n \<Rightarrow>
          let data = drop n data
          in if keyLen > length data \<or> length data - keyLen < 9 then None
             else let key = take keyLen data;
                      data = drop keyLen data;
                      seq = of_nat (get_le (take 8 data));
                      tombstone = data ! 8
                  in if tombstone > 1 then None else decode_value key seq tombstone (drop 9 data)
      | _ \<Rightarrow> None)"

lemma Uvarint_from_consumes: "Uvarint_from i acc data = UvOk v n \<Longrightarrow> i < n \<and> n \<le> i + length data"
  by (induction data arbitrary: i acc) (fastforce split: if_splits)+

lemma Uvarint_consumes: "Uvarint data = UvOk v n \<Longrightarrow> 0 < n \<and> n \<le> length data"
  using Uvarint_from_consumes unfolding Uvarint_def by fastforce

lemma decode_record_shorter: "decode_record data = Some (e, rest) \<Longrightarrow> length rest < length data"
  by (auto simp: decode_record_def decode_value_def Let_def split: uvarint_result.splits if_splits dest!: Uvarint_consumes)

function decodeRecords :: "TableEntry list \<Rightarrow> bytes \<Rightarrow> sst_error + TableEntry list" where
  "decodeRecords entries data =
     (if data = [] then Inr entries
      else case decode_record data of
             None \<Rightarrow> Inl ErrCorrupt
           | Some (e, rest) \<Rightarrow>
               if entries \<noteq> [] \<and> \<not> validSSTableRecordOrder (te_Key (last entries)) (te_Seq (last entries)) (te_Key e) (te_Seq e)
               then Inl ErrCorrupt
               else decodeRecords (entries @ [e]) rest)"
  by pat_completeness auto
termination
  by (relation "measure (\<lambda>(entries, data). length data)") (auto dest: decode_record_shorter)

declare decodeRecords.simps [simp del]

section \<open>Index, blocks, footer\<close>

record indexEntry =
  ix_firstKey :: bytes
  ix_offset :: u64
  ix_length :: u64

fun encode_index_entries :: "indexEntry list \<Rightarrow> sst_error + bytes" where
  "encode_index_entries [] = Inr []"
| "encode_index_entries (e # es) =
     (if length (ix_firstKey e) > max_u32 then Inl TooLarge
      else case encode_index_entries es of
             Inl err \<Rightarrow> Inl err
           | Inr out \<Rightarrow> Inr (PutUvarint (length (ix_firstKey e)) @ ix_firstKey e @ PutUint64 (ix_offset e) @ PutUint64 (ix_length e) @ out))"

definition encodeIndex :: "indexEntry list \<Rightarrow> sst_error + bytes" where
  "encodeIndex index =
     (case encode_index_entries index of Inl err \<Rightarrow> Inl err | Inr out \<Rightarrow> Inr (PutUvarint (length index) @ out))"

definition decode_index_entry :: "bytes \<Rightarrow> (indexEntry \<times> bytes) option" where
  "decode_index_entry data =
     (case Uvarint data of
        UvOk keyLen n \<Rightarrow>
          let data = drop n data
          in if keyLen > length data \<or> length data - keyLen < 16 then None
             else let key = take keyLen data; data = drop keyLen data
                  in Some (\<lparr>ix_firstKey = key, ix_offset = of_nat (get_le (take 8 data)),
                            ix_length = of_nat (get_le (take 8 (drop 8 data)))\<rparr>, drop 16 data)
      | _ \<Rightarrow> None)"

fun decode_index_loop :: "nat \<Rightarrow> indexEntry list \<Rightarrow> bytes \<Rightarrow> sst_error + indexEntry list" where
  "decode_index_loop 0 index data = (if data \<noteq> [] then Inl ErrCorrupt else Inr index)"
| "decode_index_loop (Suc k) index data =
     (case decode_index_entry data of
        None \<Rightarrow> Inl ErrCorrupt
      | Some (e, rest) \<Rightarrow>
          if ix_length e < 4 \<or> (index \<noteq> [] \<and> ix_firstKey e \<le> ix_firstKey (last index)) then Inl ErrCorrupt
          else decode_index_loop k (index @ [e]) rest)"

definition decodeIndex :: "bytes \<Rightarrow> sst_error + indexEntry list" where
  "decodeIndex data =
     (case Uvarint data of
        UvOk count n \<Rightarrow> if count > length data then Inl ErrCorrupt else decode_index_loop count [] (drop n data)
      | _ \<Rightarrow> Inl ErrCorrupt)"

definition appendBlock :: "bytes \<Rightarrow> bytes \<Rightarrow> sst_error + bytes" where
  "appendBlock dst payload =
     (if length payload > max_u32 then Inl TooLarge else Inr (dst @ payload @ PutUint32 (crc32c payload)))"

definition footerMagic :: bytes where
  "footerMagic = [77, 81, 83, 83, 84, 66, 48, 49]"

definition footerTrailer :: nat where
  "footerTrailer = 16"

definition footer_metadata :: "u64 \<Rightarrow> u64 \<Rightarrow> u64 \<Rightarrow> u64 \<Rightarrow> u64 \<Rightarrow> bytes \<Rightarrow> bytes \<Rightarrow> bytes" where
  "footer_metadata indexOffset indexLength bloomOffset bloomLength count minKey maxKey =
     PutUint64 indexOffset @ PutUint64 indexLength @ PutUint64 bloomOffset @ PutUint64 bloomLength @ PutUint64 count
     @ PutUint32 (of_nat (length minKey)) @ PutUint32 (of_nat (length maxKey)) @ minKey @ maxKey"

definition encodeFooter :: "u64 \<Rightarrow> u64 \<Rightarrow> u64 \<Rightarrow> u64 \<Rightarrow> u64 \<Rightarrow> bytes \<Rightarrow> bytes \<Rightarrow> sst_error + bytes" where
  "encodeFooter indexOffset indexLength bloomOffset bloomLength count minKey maxKey =
     (if length minKey > max_u32 \<or> length maxKey > max_u32 then Inl TooLarge
      else let metadata = footer_metadata indexOffset indexLength bloomOffset bloomLength count minKey maxKey
           in if length metadata > max_u32 then Inl TooLarge
              else Inr (metadata @ PutUint32 (crc32c metadata) @ PutUint32 (of_nat (length metadata)) @ footerMagic))"

section \<open>Writer\<close>

record 'f SSTableWriter =
  sw_w :: "'f option"
  sw_entries :: "TableEntry list"
  sw_lastKey :: bytes
  sw_size :: nat
  sw_closed :: bool

definition NewSSTableWriter :: "'f option \<Rightarrow> 'f SSTableWriter" where
  "NewSSTableWriter w = \<lparr>sw_w = w, sw_entries = [], sw_lastKey = [], sw_size = 0, sw_closed = False\<rparr>"

definition copy_entry :: "TableEntry \<Rightarrow> TableEntry" where
  "copy_entry e = \<lparr>te_Key = te_Key e, te_Seq = te_Seq e, te_Value = (if te_Tombstone e then [] else te_Value e), te_Tombstone = te_Tombstone e\<rparr>"

definition writer_Add :: "TableEntry \<Rightarrow> 'f SSTableWriter \<Rightarrow> sst_error + 'f SSTableWriter" where
  "writer_Add e w =
     (if sw_w w = None then Inl NilWriter
      else if sw_closed w then Inl AfterFinish
      else if sw_entries w \<noteq> [] \<and> \<not> validSSTableRecordOrder (sw_lastKey w) (te_Seq (last (sw_entries w))) (te_Key e) (te_Seq e)
      then Inl NotSorted
      else Inr (w\<lparr>sw_entries := sw_entries w @ [copy_entry e], sw_lastKey := te_Key (copy_entry e)\<rparr>))"

record builtBlock =
  bb_firstKey :: bytes
  bb_data :: bytes

text \<open>The inner loop of \<open>buildDataBlocks\<close>; \<open>previous\<close> is the record before, in the same block.\<close>

fun fill_block :: "bytes \<Rightarrow> TableEntry option \<Rightarrow> TableEntry list \<Rightarrow> sst_error + bytes \<times> TableEntry list" where
  "fill_block data previous [] = Inr (data, [])"
| "fill_block data previous (e # es) =
     (case encodeRecord e of
        Inl err \<Rightarrow> Inl err
      | Inr rec \<Rightarrow>
          if (case previous of None \<Rightarrow> False | Some p \<Rightarrow> length data + length rec > dataBlockTarget \<and> te_Key e \<noteq> te_Key p)
          then Inr (data, e # es)
          else fill_block (data @ rec) (Some e) es)"

lemma fill_block_shorter: "fill_block data previous es = Inr (data', rest) \<Longrightarrow> length rest \<le> length es"
  by (induction data previous es arbitrary: data' rest rule: fill_block.induct) (force split: sum.splits if_splits)+

lemma fill_block_progress: "es \<noteq> [] \<Longrightarrow> fill_block data None es = Inr (data', rest) \<Longrightarrow> length rest < length es"
  by (cases es) (auto split: sum.splits dest: fill_block_shorter)

function buildDataBlocks :: "TableEntry list \<Rightarrow> sst_error + builtBlock list" where
  "buildDataBlocks es =
     (if es = [] then Inr []
      else case fill_block [] None es of
             Inl err \<Rightarrow> Inl err
           | Inr (data, rest) \<Rightarrow>
               (case buildDataBlocks rest of
                  Inl err \<Rightarrow> Inl err
                | Inr blocks \<Rightarrow> Inr (\<lparr>bb_firstKey = te_Key (hd es), bb_data = data\<rparr> # blocks)))"
  by pat_completeness auto
termination
  by (relation "measure length") (auto dest: fill_block_progress)

declare buildDataBlocks.simps [simp del]

text \<open>The loop of \<open>Finish\<close> over the blocks: the table so far and the index.\<close>

fun write_blocks :: "builtBlock list \<Rightarrow> bytes \<Rightarrow> indexEntry list \<Rightarrow> sst_error + bytes \<times> indexEntry list" where
  "write_blocks [] table index = Inr (table, index)"
| "write_blocks (b # bs) table index =
     (case appendBlock table (bb_data b) of
        Inl err \<Rightarrow> Inl err
      | Inr table' \<Rightarrow>
          write_blocks bs table' (index @ [\<lparr>ix_firstKey = bb_firstKey b, ix_offset = of_nat (length table),
            ix_length = of_nat (length table') - of_nat (length table)\<rparr>]))"

text \<open>The bytes \<open>Finish\<close> writes; \<open>None\<close> is a panic of the Bloom filter.\<close>

definition table_bytes :: "TableEntry list \<Rightarrow> (sst_error + bytes) option" where
  "table_bytes entries =
     (case buildDataBlocks entries of
        Inl err \<Rightarrow> Some (Inl err)
      | Inr blocks \<Rightarrow>
     (case write_blocks blocks [] [] of
        Inl err \<Rightarrow> Some (Inl err)
      | Inr (table, index) \<Rightarrow>
     (case encodeIndex index of
        Inl err \<Rightarrow> Some (Inl err)
      | Inr indexData \<Rightarrow>
     (case appendBlock table indexData of
        Inl err \<Rightarrow> Some (Inl err)
      | Inr table1 \<Rightarrow>
     (case add_keys (map te_Key entries) (NewBloomFilter (int (length entries))) of
        None \<Rightarrow> None
      | Some bloom \<Rightarrow>
     (case bloom_MarshalBinary bloom of
        None \<Rightarrow> Some (Inl InvalidBloom)
      | Some bloomData \<Rightarrow>
     (case appendBlock table1 bloomData of
        Inl err \<Rightarrow> Some (Inl err)
      | Inr table2 \<Rightarrow>
     (case encodeFooter (of_nat (length table)) (of_nat (length table1) - of_nat (length table))
             (of_nat (length table1)) (of_nat (length table2) - of_nat (length table1)) (of_nat (length entries))
             (if entries \<noteq> [] then te_Key (hd entries) else []) (if entries \<noteq> [] then te_Key (last entries) else []) of
        Inl err \<Rightarrow> Some (Inl err)
      | Inr footer \<Rightarrow> Some (Inr (table2 @ footer))))))))))"

text \<open>\<open>write\<close> is the \<open>Write\<close> of the target: the new target, the bytes written, and whether it failed.\<close>

definition Finish :: "(bytes \<Rightarrow> 'f \<Rightarrow> 'f \<times> nat \<times> bool) \<Rightarrow> 'f SSTableWriter \<Rightarrow> ('f SSTableWriter \<times> sst_error option) option" where
  "Finish write w =
     (case sw_w w of
        None \<Rightarrow> Some (w, Some NilWriter)
      | Some f \<Rightarrow>
          if sw_closed w then Some (w, Some AfterFinish)
          else let w = w\<lparr>sw_closed := True\<rparr>
               in case table_bytes (sw_entries w) of
                    None \<Rightarrow> None
                  | Some (Inl err) \<Rightarrow> Some (w, Some err)
                  | Some (Inr table) \<Rightarrow>
                      (case write table f of
                         (f', n, failed) \<Rightarrow>
                           let w = w\<lparr>sw_w := Some f'\<rparr>
                           in if failed then Some (w, Some WriteError)
                              else if n \<noteq> length table then Some (w, Some ErrShortWrite)
                              else Some (w\<lparr>sw_size := n\<rparr>, None)))"

section \<open>Reader\<close>

datatype read_error = EOF | ReadFailed

type_synonym reader_at = "nat \<Rightarrow> nat \<Rightarrow> bytes \<times> read_error option"

text \<open>\<open>ReadAt\<close> of a file with the given content.\<close>

definition file_ReadAt :: "bytes \<Rightarrow> reader_at" where
  "file_ReadAt content offset n =
     (let d = take n (drop offset content) in (d, if length d < n then Some EOF else None))"

definition readAtFull :: "reader_at \<Rightarrow> nat \<Rightarrow> nat \<Rightarrow> bytes option" where
  "readAtFull r n offset =
     (case r offset n of
        (d, err) \<Rightarrow> if length d \<noteq> n then None else if err = Some ReadFailed then None else Some d)"

definition uint64ToInt :: "u64 \<Rightarrow> nat option" where
  "uint64ToInt v = (if unat v > max_int then None else Some (unat v))"

definition readBlock :: "reader_at \<Rightarrow> u64 \<Rightarrow> u64 \<Rightarrow> sst_error + bytes" where
  "readBlock r offset len =
     (if len < 4 \<or> unat offset > max_int \<or> unat len > max_int \<or> offset + len < offset \<or> unat (offset + len) > max_int
      then Inl ErrCorrupt
      else case uint64ToInt len of
             None \<Rightarrow> Inl ErrCorrupt
           | Some blockLength \<Rightarrow>
               (case readAtFull r blockLength (unat offset) of
                  None \<Rightarrow> Inl ErrCorrupt
                | Some block \<Rightarrow>
                    let payload = take (length block - 4) block;
                        stored = get_le (drop (length block - 4) block)
                    in if unat (crc32c payload) \<noteq> stored then Inl ErrCorrupt else Inr payload))"

record SSTableReader =
  sr_r :: reader_at
  sr_size :: nat
  sr_index :: "indexEntry list"
  sr_bloom :: "BloomFilter option"
  sr_entryCount :: u64
  sr_minKey :: bytes
  sr_maxKey :: bytes

fun data_block_bounds :: "u64 \<Rightarrow> indexEntry option \<Rightarrow> indexEntry list \<Rightarrow> bool" where
  "data_block_bounds indexOffset previous [] = True"
| "data_block_bounds indexOffset previous (e # es) =
     (\<not> (ix_offset e \<ge> indexOffset \<or> ix_length e > indexOffset - ix_offset e
         \<or> (case previous of None \<Rightarrow> False | Some p \<Rightarrow> ix_offset e < ix_offset p + ix_length p))
      \<and> data_block_bounds indexOffset (Some e) es)"

abbreviation get_u64 :: "bytes \<Rightarrow> nat \<Rightarrow> u64" where
  "get_u64 data offset \<equiv> of_nat (get_le (take 8 (drop offset data)))"

abbreviation get_u32 :: "bytes \<Rightarrow> nat \<Rightarrow> nat" where
  "get_u32 data offset \<equiv> get_le (take 4 (drop offset data))"

text \<open>The part of \<open>OpenSSTable\<close> after the footer was read and its checksum verified.\<close>

definition open_blocks :: "reader_at \<Rightarrow> nat \<Rightarrow> bytes \<Rightarrow> sst_error + SSTableReader" where
  "open_blocks r fsize metadata =
     (let indexOffset = get_u64 metadata 0; indexLength = get_u64 metadata 8;
          bloomOffset = get_u64 metadata 16; bloomLength = get_u64 metadata 24;
          entryCount = get_u64 metadata 32; minLen = get_u32 metadata 40; maxLen = get_u32 metadata 44;
          footerStart = of_nat (fsize - footerTrailer - length metadata) :: u64
      in if length metadata - 48 \<noteq> minLen + maxLen \<or> indexLength < 4 \<or> bloomLength < 4 then Inl ErrCorrupt
         else if indexOffset > footerStart \<or> indexLength > footerStart - indexOffset \<or> bloomOffset > footerStart
              \<or> bloomLength > footerStart - bloomOffset \<or> indexOffset + indexLength > bloomOffset then Inl ErrCorrupt
         else (case readBlock r indexOffset indexLength of
                 Inl err \<Rightarrow> Inl err
               | Inr indexData \<Rightarrow>
              (case decodeIndex indexData of
                 Inl err \<Rightarrow> Inl err
               | Inr index \<Rightarrow>
                   if (entryCount = 0) \<noteq> (index = []) then Inl ErrCorrupt
                   else if \<not> data_block_bounds indexOffset None index then Inl ErrCorrupt
                   else (case readBlock r bloomOffset bloomLength of
                           Inl err \<Rightarrow> Inl err
                         | Inr bloomData \<Rightarrow>
                        (case UnmarshalBloomFilter bloomData of
                           None \<Rightarrow> Inl ErrCorrupt
                         | Some bloom \<Rightarrow>
                             (let minKey = take minLen (drop 48 metadata); maxKey = drop (48 + minLen) metadata
                              in if entryCount > 0 \<and> minKey > maxKey then Inl ErrCorrupt
                                 else Inr \<lparr>sr_r = r, sr_size = fsize, sr_index = index, sr_bloom = Some bloom,
                                            sr_entryCount = entryCount, sr_minKey = minKey, sr_maxKey = maxKey\<rparr>))))))"

definition OpenSSTable :: "reader_at option \<Rightarrow> int \<Rightarrow> sst_error + SSTableReader" where
  "OpenSSTable ro fsize =
     (case ro of
        None \<Rightarrow> Inl ErrCorrupt
      | Some r \<Rightarrow>
          if fsize < int footerTrailer then Inl ErrCorrupt
          else (case readAtFull r footerTrailer (nat fsize - footerTrailer) of
                  None \<Rightarrow> Inl ErrCorrupt
                | Some trailer \<Rightarrow>
                    if drop 8 trailer \<noteq> footerMagic then Inl ErrCorrupt
                    else (let metadataLen = get_u32 trailer 4
                          in if metadataLen < 48 \<or> metadataLen > nat fsize - footerTrailer then Inl ErrCorrupt
                             else (case readAtFull r metadataLen (nat fsize - footerTrailer - metadataLen) of
                                     None \<Rightarrow> Inl ErrCorrupt
                                   | Some metadata \<Rightarrow>
                                       if get_u32 trailer 0 \<noteq> unat (crc32c metadata) then Inl ErrCorrupt
                                       else open_blocks r (nat fsize) metadata))))"

text \<open>The scan of a decoded block: it ends at the first record past the key.\<close>

fun scan_block :: "bytes \<Rightarrow> TableEntry list \<Rightarrow> TableEntry option" where
  "scan_block key [] = None"
| "scan_block key (e # es) = (if te_Key e = key then Some e else if te_Key e > key then None else scan_block key es)"

text \<open>Reads give \<open>None\<close> for a panic of the Bloom filter.\<close>

definition reader_get :: "SSTableReader \<Rightarrow> bytes \<Rightarrow> bool \<Rightarrow> (sst_error + TableEntry option) option" where
  "reader_get r key checkBloom =
     (if sr_entryCount r = 0 then Some (Inr None)
      else case (if checkBloom then MayContain key (sr_bloom r) else Some True) of
             None \<Rightarrow> None
           | Some may \<Rightarrow>
               if \<not> may \<or> key < sr_minKey r \<or> key > sr_maxKey r then Some (Inr None)
               else let i = sort_Search (length (sr_index r)) (\<lambda>i. ix_firstKey (sr_index r ! i) > key)
                    in if i = 0 then Some (Inr None)
                       else let ix = sr_index r ! (i - 1)
                            in case readBlock (sr_r r) (ix_offset ix) (ix_length ix) of
                                 Inl err \<Rightarrow> Some (Inl err)
                               | Inr data \<Rightarrow>
                                   (case decodeRecords [] data of
                                      Inl err \<Rightarrow> Some (Inl err)
                                    | Inr entries \<Rightarrow>
                                        if entries = [] \<or> te_Key (hd entries) \<noteq> ix_firstKey ix then Some (Inl ErrCorrupt)
                                        else Some (Inr (scan_block key entries))))"

definition reader_Get :: "SSTableReader \<Rightarrow> bytes \<Rightarrow> (sst_error + TableEntry option) option" where
  "reader_Get r key = reader_get r key True"

definition BloomMayContain :: "SSTableReader \<Rightarrow> bytes \<Rightarrow> bool option" where
  "BloomMayContain r key = MayContain key (sr_bloom r)"

definition BloomBitCount :: "SSTableReader \<Rightarrow> u64" where
  "BloomBitCount r = (case sr_bloom r of None \<Rightarrow> 0 | Some f \<Rightarrow> bf_m f)"

definition EntryCount :: "SSTableReader \<Rightarrow> u64" where
  "EntryCount r = sr_entryCount r"

fun bloom_covers :: "BloomFilter option \<Rightarrow> TableEntry list \<Rightarrow> bool option" where
  "bloom_covers bloom [] = Some True"
| "bloom_covers bloom (e # es) =
     (case MayContain (te_Key e) bloom of None \<Rightarrow> None | Some False \<Rightarrow> Some False | Some True \<Rightarrow> bloom_covers bloom es)"

definition clone_entry :: "TableEntry \<Rightarrow> TableEntry" where
  "clone_entry e = \<lparr>te_Key = te_Key e, te_Seq = te_Seq e, te_Value = te_Value e, te_Tombstone = te_Tombstone e\<rparr>"

fun read_blocks :: "SSTableReader \<Rightarrow> indexEntry list \<Rightarrow> TableEntry list \<Rightarrow> (sst_error + TableEntry list) option" where
  "read_blocks r [] entries = Some (Inr entries)"
| "read_blocks r (ix # ixs) entries =
     (case readBlock (sr_r r) (ix_offset ix) (ix_length ix) of
        Inl err \<Rightarrow> Some (Inl err)
      | Inr data \<Rightarrow>
          (case decodeRecords [] data of
             Inl err \<Rightarrow> Some (Inl err)
           | Inr decoded \<Rightarrow>
               if decoded = [] \<or> te_Key (hd decoded) \<noteq> ix_firstKey ix then Some (Inl ErrCorrupt)
               else if entries \<noteq> [] \<and> te_Key (hd decoded) \<le> te_Key (last entries) then Some (Inl ErrCorrupt)
               else case bloom_covers (sr_bloom r) decoded of
                      None \<Rightarrow> None
                    | Some False \<Rightarrow> Some (Inl ErrCorrupt)
                    | Some True \<Rightarrow> read_blocks r ixs (entries @ map clone_entry decoded)))"

definition AllEntries :: "SSTableReader \<Rightarrow> (sst_error + TableEntry list) option" where
  "AllEntries r =
     (case read_blocks r (sr_index r) [] of
        None \<Rightarrow> None
      | Some (Inl err) \<Rightarrow> Some (Inl err)
      | Some (Inr entries) \<Rightarrow>
          if of_nat (length entries) \<noteq> sr_entryCount r then Some (Inl ErrCorrupt)
          else if entries \<noteq> [] \<and> (te_Key (hd entries) \<noteq> sr_minKey r \<or> te_Key (last entries) \<noteq> sr_maxKey r) then Some (Inl ErrCorrupt)
          else Some (Inr entries))"

end
