(* ===== verification/Lsm_Sstable_Props.thy ===== *)
theory Lsm_Sstable_Props
  imports Lsm_Sstable
begin

text \<open>
  What the table format guarantees: records, index and footer survive encoding, the writer cuts
  its sorted records into groups that no key crosses, and a written file opens again. \<open>reads_table\<close>
  relates a reader to the records of its file; under it every read gives the answer of the plain
  list function \<open>newest\<close>.
\<close>

section \<open>Records\<close>

definition entry_less :: "TableEntry \<Rightarrow> TableEntry \<Rightarrow> bool" where
  "entry_less a b \<longleftrightarrow> te_Key a < te_Key b \<or> te_Key b = te_Key a \<and> te_Seq b < te_Seq a"

abbreviation sorted_entries :: "TableEntry list \<Rightarrow> bool" where
  "sorted_entries es \<equiv> sorted_wrt entry_less es"

definition normal_entry :: "TableEntry \<Rightarrow> bool" where
  "normal_entry e \<longleftrightarrow> (te_Tombstone e \<longrightarrow> te_Value e = [])"

lemma order_entry_less: "validSSTableRecordOrder (te_Key a) (te_Seq a) (te_Key b) (te_Seq b) = entry_less a b"
  by (auto simp: validSSTableRecordOrder_def entry_less_def)

lemma entry_less_trans: "entry_less a b \<Longrightarrow> entry_less b c \<Longrightarrow> entry_less a c"
  by (auto simp: entry_less_def)

lemma entry_less_key: "entry_less a b \<Longrightarrow> te_Key a \<le> te_Key b"
  by (auto simp: entry_less_def)

lemma copy_entry_normal [simp]: "normal_entry (copy_entry e)" "te_Key (copy_entry e) = te_Key e" "te_Seq (copy_entry e) = te_Seq e"
  by (simp_all add: copy_entry_def normal_entry_def)

lemma copy_normal: "normal_entry e \<Longrightarrow> copy_entry e = e"
  by (cases e) (auto simp: copy_entry_def normal_entry_def)

lemma clone_entry_id [simp]: "clone_entry e = e"
  by (simp add: clone_entry_def)

lemma field_lt_u64: "n \<le> max_u32 \<Longrightarrow> n < 2 ^ 64"
  by (simp add: max_u32_def)

lemma decode_encode_record:
  assumes "encodeRecord e = Inr enc" "normal_entry e"
  shows "decode_record (enc @ rest) = Some (e, rest)"
proof -
  have len: "length (te_Key e) < 2 ^ 64" "length (te_Value e) < 2 ^ 64"
    using assms(1) field_lt_u64 by (auto simp: encodeRecord_def split: if_splits)
  define tail where "tail = (if te_Tombstone e then [1] @ PutUvarint 0 else [0] @ PutUvarint (length (te_Value e)) @ te_Value e)"
  have enc: "enc = PutUvarint (length (te_Key e)) @ te_Key e @ PutUint64 (te_Seq e) @ tail"
    using assms(1) by (auto simp: encodeRecord_def tail_def Let_def split: if_splits)
  have tl: "length tail \<ge> 1" by (simp add: tail_def)
  have val: "decode_value (te_Key e) (te_Seq e) (tail ! 0) (drop 1 tail @ rest) = Some (e, rest)"
    using assms(2) len Uvarint_Put [of 0 rest] Uvarint_Put [OF len(2), of "te_Value e @ rest"]
    by (cases e) (auto simp: tail_def decode_value_def normal_entry_def Let_def)
  have "tail ! 0 \<le> 1" by (simp add: tail_def)
  then show ?thesis
    using val tl unfolding enc decode_record_def
    by (simp add: Uvarint_Put [OF len(1)] Let_def nth_append not_less [symmetric])
qed

lemma decodeRecords_encoded:
  assumes "list_all2 (\<lambda>e enc. encodeRecord e = Inr enc) es encs" "\<forall>e \<in> set es. normal_entry e" "sorted_entries (acc @ es)"
  shows "decodeRecords acc (concat encs) = Inr (acc @ es)"
  using assms
proof (induction es encs arbitrary: acc rule: list_all2_induct)
  case (Cons e es enc encs)
  have dec: "decode_record (enc @ concat encs) = Some (e, concat encs)"
    using Cons by (intro decode_encode_record) auto
  have "enc \<noteq> []" using Cons(1) length_PutUvarint_pos by (auto simp: encodeRecord_def Let_def split: if_splits)
  moreover have "acc = [] \<or> entry_less (last acc) e"
    using Cons.prems(2) by (cases acc rule: rev_cases) (auto simp: sorted_wrt_append)
  moreover have "decodeRecords (acc @ [e]) (concat encs) = Inr ((acc @ [e]) @ es)" using Cons by (intro Cons.IH) auto
  ultimately show ?case by (subst decodeRecords.simps) (simp add: dec order_entry_less)
qed (simp add: decodeRecords.simps)

section \<open>Blocks\<close>

text \<open>A block holds the group \<open>g\<close> of records.\<close>

definition block_of :: "builtBlock \<Rightarrow> TableEntry list \<Rightarrow> bool" where
  "block_of b g \<longleftrightarrow> g \<noteq> [] \<and> bb_firstKey b = te_Key (hd g)
     \<and> (\<exists>encs. list_all2 (\<lambda>e enc. encodeRecord e = Inr enc) g encs \<and> bb_data b = concat encs)"

lemma fill_block_group:
  "fill_block data previous es = Inr (data', rest) \<Longrightarrow>
     \<exists>g encs. es = g @ rest \<and> list_all2 (\<lambda>e enc. encodeRecord e = Inr enc) g encs \<and> data' = data @ concat encs
       \<and> (previous = None \<longrightarrow> es \<noteq> [] \<longrightarrow> g \<noteq> [])
       \<and> (rest \<noteq> [] \<longrightarrow> g \<noteq> [] \<longrightarrow> te_Key (hd rest) \<noteq> te_Key (last g))
       \<and> (rest \<noteq> [] \<longrightarrow> g = [] \<longrightarrow> (\<exists>p. previous = Some p \<and> te_Key (hd rest) \<noteq> te_Key p))"
proof (induction data previous es arbitrary: data' rest rule: fill_block.induct)
  case (1 data previous)
  then show ?case by (intro exI [of _ "[]"]) auto
next
  case (2 data previous e es)
  then obtain enc where enc: "encodeRecord e = Inr enc" by (auto split: sum.splits)
  show ?case
  proof (cases "(case previous of None \<Rightarrow> False | Some p \<Rightarrow> length data + length enc > dataBlockTarget \<and> te_Key e \<noteq> te_Key p)")
    case True
    with "2.prems" enc have "rest = e # es" "data' = data" by auto
    with True show ?thesis by (intro exI [of _ "[]"]) (auto split: option.splits)
  next
    case False
    with "2.prems" enc have "fill_block (data @ enc) (Some e) es = Inr (data', rest)" by auto
    from "2.IH" [OF enc False this] obtain g encs where
      g: "es = g @ rest" "list_all2 (\<lambda>e enc. encodeRecord e = Inr enc) g encs" "data' = (data @ enc) @ concat encs"
        "rest \<noteq> [] \<longrightarrow> g \<noteq> [] \<longrightarrow> te_Key (hd rest) \<noteq> te_Key (last g)"
        "rest \<noteq> [] \<longrightarrow> g = [] \<longrightarrow> te_Key (hd rest) \<noteq> te_Key e" by auto
    then show ?thesis using enc by (intro exI [of _ "e # g"] exI [of _ "enc # encs"]) auto
  qed
qed

lemma buildDataBlocks_groups:
  "buildDataBlocks es = Inr blocks \<Longrightarrow>
     \<exists>gs. concat gs = es \<and> list_all2 block_of blocks gs \<and> successively (\<lambda>g h. te_Key (last g) \<noteq> te_Key (hd h)) gs"
proof (induction es arbitrary: blocks rule: buildDataBlocks.induct)
  case (1 es)
  show ?case
  proof (cases "es = []")
    case True
    with "1.prems" show ?thesis by (intro exI [of _ "[]"]) (simp add: buildDataBlocks.simps)
  next
    case False
    with "1.prems" obtain data rest bs where
      fb: "fill_block [] None es = Inr (data, rest)" and bs: "buildDataBlocks rest = Inr bs"
      and blocks: "blocks = \<lparr>bb_firstKey = te_Key (hd es), bb_data = data\<rparr> # bs"
      by (subst (asm) buildDataBlocks.simps) (auto split: sum.splits prod.splits)
    from fill_block_group [OF fb] False obtain g encs where
      g: "es = g @ rest" "list_all2 (\<lambda>e enc. encodeRecord e = Inr enc) g encs" "data = concat encs" "g \<noteq> []"
        "rest \<noteq> [] \<longrightarrow> te_Key (hd rest) \<noteq> te_Key (last g)" by auto
    from "1.IH" [OF False fb refl bs] obtain gs where
      gs: "concat gs = rest" "list_all2 block_of bs gs" "successively (\<lambda>g h. te_Key (last g) \<noteq> te_Key (hd h)) gs" by blast
    have "successively (\<lambda>g h. te_Key (last g) \<noteq> te_Key (hd h)) (g # gs)"
    proof (cases gs)
      case (Cons h hs)
      then have "h \<noteq> []" using gs(2) by (cases bs) (auto simp: block_of_def)
      with Cons gs g show ?thesis by (auto simp: hd_append)
    qed simp
    moreover have "block_of \<lparr>bb_firstKey = te_Key (hd es), bb_data = data\<rparr> g"
      using g by (auto simp: block_of_def hd_append)
    ultimately show ?thesis using g gs blocks by (intro exI [of _ "g # gs"]) auto
  qed
qed

text \<open>Consecutive groups of sorted records are separated by their keys.\<close>

lemma groups_separated:
  assumes "sorted_entries (concat gs)" "\<forall>g \<in> set gs. g \<noteq> []" "successively (\<lambda>g h. te_Key (last g) \<noteq> te_Key (hd h)) gs"
  shows "sorted_wrt (\<lambda>g h. \<forall>a \<in> set g. \<forall>b \<in> set h. te_Key a < te_Key b) gs"
  using assms
proof (induction gs)
  case (Cons g gs)
  have sep: "sorted_wrt (\<lambda>g h. \<forall>a \<in> set g. \<forall>b \<in> set h. te_Key a < te_Key b) gs"
    using Cons by (intro Cons.IH) (auto simp: sorted_wrt_append successively_Cons)
  have "te_Key a < te_Key b" if h: "h \<in> set gs" and ab: "a \<in> set g" "b \<in> set h" for h a b
  proof -
    from h have ne: "gs \<noteq> []" by auto
    then have hd: "hd gs \<noteq> []" "g \<noteq> []" using Cons.prems(2) by auto
    have sg: "sorted_entries g" and ss: "sorted_entries (concat gs)"
      and cross: "\<forall>x \<in> set g. \<forall>y \<in> set (concat gs). entry_less x y"
      using Cons.prems(1) by (auto simp: sorted_wrt_append)
    have "te_Key a \<le> te_Key (last g)"
    proof (cases "a = last g")
      case False
      then obtain xs ys where "g = xs @ a # ys" "ys \<noteq> []" using ab(1) by (metis split_list last_snoc append_Nil2)
      then show ?thesis using sg by (auto simp: sorted_wrt_append intro: entry_less_key)
    qed simp
    also have "te_Key (last g) < te_Key (hd (hd gs))"
    proof -
      have "te_Key (last g) \<noteq> te_Key (hd (hd gs))" using Cons.prems(3) ne by (cases gs) auto
      moreover have "entry_less (last g) (hd (hd gs))" using cross hd ne by (cases gs) (auto simp: hd_in_set)
      ultimately show ?thesis by (auto simp: entry_less_def)
    qed
    also have "te_Key (hd (hd gs)) \<le> te_Key b"
    proof -
      have eq: "concat gs = hd (hd gs) # tl (concat gs)" using hd ne by (cases gs; cases "hd gs") auto
      have "b \<in> set (concat gs)" using h ab by auto
      then have "b = hd (hd gs) \<or> b \<in> set (tl (concat gs))" by (subst (asm) eq) auto
      moreover have "\<forall>y \<in> set (tl (concat gs)). entry_less (hd (hd gs)) y" using ss by (subst (asm) eq) auto
      ultimately show ?thesis by (auto intro: entry_less_key)
    qed
    finally show ?thesis .
  qed
  with sep show ?case by auto
qed simp

section \<open>Blocks in the file\<close>

abbreviation sealed :: "bytes \<Rightarrow> bytes" where
  "sealed payload \<equiv> payload @ PutUint32 (crc32c payload)"

definition block_at :: "bytes \<Rightarrow> u64 \<Rightarrow> u64 \<Rightarrow> bytes \<Rightarrow> bool" where
  "block_at content offset len payload \<longleftrightarrow> (\<exists>pre post. content = pre @ sealed payload @ post
     \<and> offset = of_nat (length pre) \<and> len = of_nat (length payload + 4))"

lemma block_atI: "block_at (pre @ sealed payload @ post) (of_nat (length pre)) (of_nat (length payload + 4)) payload"
  unfolding block_at_def by blast

lemma block_at_append: "block_at content offset len payload \<Longrightarrow> block_at (content @ extra) offset len payload"
  unfolding block_at_def by fastforce

lemma unat_small: "n \<le> max_int \<Longrightarrow> unat (of_nat n :: u64) = n"
  by (rule unat_of_nat_u64) (simp add: max_int_def)

lemma readAtFull_file:
  assumes "offset + n \<le> length content"
  shows "readAtFull (file_ReadAt content) n offset = Some (take n (drop offset content))"
  using assms by (simp add: readAtFull_def file_ReadAt_def Let_def)

lemma readBlock_at:
  assumes "block_at content offset len payload" "length content \<le> max_int"
  shows "readBlock (file_ReadAt content) offset len = Inr payload"
proof -
  from assms(1) obtain pre post where c: "content = pre @ sealed payload @ post"
    and o: "offset = of_nat (length pre)" and l: "len = of_nat (length payload + 4)"
    unfolding block_at_def by blast
  have b: "length pre + (length payload + 4) \<le> max_int" using assms(2) c by simp
  have uo: "unat offset = length pre" unfolding o by (rule unat_small) (use b in simp)
  have ul: "unat len = length payload + 4" unfolding l by (rule unat_small) (use b in simp)
  have us: "unat (offset + len) = length pre + (length payload + 4)"
    using unat_small [OF b] unfolding o l by simp
  have small: "\<not> (len < 4 \<or> unat offset > max_int \<or> unat len > max_int \<or> offset + len < offset \<or> unat (offset + len) > max_int)"
    unfolding word_less_nat_alt us uo ul using b by simp
  have rd: "readAtFull (file_ReadAt content) (length payload + 4) (length pre) = Some (sealed payload)"
    by (subst readAtFull_file) (simp_all add: c)
  have int: "uint64ToInt len = Some (length payload + 4)" using b by (simp add: uint64ToInt_def ul)
  show ?thesis unfolding readBlock_def if_not_P [OF small] int by (simp add: uo rd Let_def)
qed

text \<open>The blocks a loop of the writer adds, and the index entries it makes for them.\<close>

definition index_of :: "bytes \<Rightarrow> indexEntry \<Rightarrow> builtBlock \<Rightarrow> bool" where
  "index_of content ix b \<longleftrightarrow> ix_firstKey ix = bb_firstKey b \<and> block_at content (ix_offset ix) (ix_length ix) (bb_data b)"

fun next_offset :: "nat \<Rightarrow> indexEntry list \<Rightarrow> nat \<Rightarrow> bool" where
  "next_offset start [] end = (start = end)"
| "next_offset start (ix # ixs) end =
     (unat (ix_offset ix) = start \<and> unat (ix_length ix) \<ge> 4 \<and> next_offset (start + unat (ix_length ix)) ixs end)"

lemma appendBlock_ok: "appendBlock dst payload = Inr t \<longleftrightarrow> length payload \<le> max_u32 \<and> t = dst @ sealed payload"
  by (auto simp: appendBlock_def)

lemma write_blocks_ok:
  assumes "write_blocks blocks table index = Inr (table', index')" "length table' \<le> max_int"
  shows "\<exists>ixs extra. index' = index @ ixs \<and> table' = table @ extra \<and> list_all2 (index_of table') ixs blocks
    \<and> next_offset (length table) ixs (length table')"
  using assms
proof (induction blocks table index rule: write_blocks.induct)
  case (2 b bs table index)
  let ?t = "table @ sealed (bb_data b)"
  let ?ix = "\<lparr>ix_firstKey = bb_firstKey b, ix_offset = of_nat (length table), ix_length = of_nat (length ?t) - of_nat (length table)\<rparr>"
  from "2.prems"(1) have ab: "appendBlock table (bb_data b) = Inr ?t"
    by (auto simp: appendBlock_ok split: sum.splits)
  with "2.prems"(1) have W: "write_blocks bs ?t (index @ [?ix]) = Inr (table', index')" by simp
  from "2.IH" [OF ab] W "2.prems"(2) obtain ixs extra where
    IH: "index' = (index @ [?ix]) @ ixs" "table' = ?t @ extra" "list_all2 (index_of table') ixs bs"
      "next_offset (length ?t) ixs (length table')" by auto
  have len: "ix_length ?ix = of_nat (length (bb_data b) + 4)" by simp
  have "index_of table' ?ix b"
    unfolding index_of_def len using block_atI [of table "bb_data b" extra] by (simp add: IH(2))
  moreover have "unat (ix_offset ?ix) = length table"
    unfolding indexEntry.select_convs by (rule unat_small) (use "2.prems"(2) IH(2) in simp)
  moreover have "unat (ix_length ?ix) = length (bb_data b) + 4"
    unfolding len by (rule unat_small) (use "2.prems"(2) IH(2) in simp)
  ultimately show ?case using IH by (intro exI [of _ "?ix # ixs"] exI [of _ "sealed (bb_data b) @ extra"]) (auto simp: add.commute)
qed auto

lemma next_offset_bounds:
  assumes "next_offset start ixs end" "end \<le> max_int" "\<forall>p. previous = Some p \<longrightarrow> unat (ix_offset p) + unat (ix_length p) = start"
  shows "data_block_bounds (of_nat end) previous ixs"
  using assms
proof (induction ixs arbitrary: start previous)
  case (Cons ix ixs)
  have le: "next_offset s xs e \<Longrightarrow> s \<le> e" for s xs e by (induction s xs e rule: next_offset.induct) auto
  have e: "unat (of_nat end :: u64) = end" using Cons.prems(2) by (rule unat_small)
  have ix: "unat (ix_offset ix) = start" "unat (ix_length ix) \<ge> 4" "start + unat (ix_length ix) \<le> end"
    using Cons.prems(1) le by auto
  have lt: "ix_offset ix < of_nat end" using ix by (simp add: word_less_nat_alt e)
  then have "unat (of_nat end - ix_offset ix) = end - start" using ix by (simp add: unat_u64_diff e)
  then have len: "\<not> ix_length ix > of_nat end - ix_offset ix" using ix by (simp add: word_less_nat_alt)
  have prev: "\<not> ix_offset ix < ix_offset p + ix_length p" if "previous = Some p" for p
  proof -
    have "unat (ix_offset p) + unat (ix_length p) = start" using Cons.prems(3) that by blast
    moreover from this have "unat (ix_offset p + ix_length p) = start"
      using ix Cons.prems(2) by (simp add: unat_word_ariths max_int_def)
    ultimately show ?thesis by (simp add: word_less_nat_alt ix)
  qed
  have "data_block_bounds (of_nat end) (Some ix) ixs"
    using Cons.prems ix(1) by (intro Cons.IH) auto
  with lt len prev show ?case by (auto split: option.splits)
qed simp

section \<open>Index and footer\<close>

lemma decode_index_entry_ok:
  assumes "length (ix_firstKey e) \<le> max_u32"
  shows "decode_index_entry (PutUvarint (length (ix_firstKey e)) @ ix_firstKey e @ PutUint64 (ix_offset e) @ PutUint64 (ix_length e) @ rest)
    = Some (e, rest)"
  unfolding decode_index_entry_def by (simp add: Uvarint_Put [OF field_lt_u64 [OF assms]] Let_def)

lemma decode_index_loop_ok:
  assumes "encode_index_entries es = Inr out" "sorted_wrt (\<lambda>a b. ix_firstKey a < ix_firstKey b) (acc @ es)" "\<forall>e \<in> set es. \<not> ix_length e < 4"
  shows "decode_index_loop (length es) acc out = Inr (acc @ es)"
  using assms
proof (induction es arbitrary: acc out)
  case (Cons e es)
  then obtain out' where out': "encode_index_entries es = Inr out'" "length (ix_firstKey e) \<le> max_u32"
    "out = PutUvarint (length (ix_firstKey e)) @ ix_firstKey e @ PutUint64 (ix_offset e) @ PutUint64 (ix_length e) @ out'"
    by (auto split: sum.splits if_splits)
  have "acc = [] \<or> ix_firstKey (last acc) < ix_firstKey e"
    using Cons.prems(2) by (cases acc rule: rev_cases) (auto simp: sorted_wrt_append)
  moreover have "decode_index_loop (length es) (acc @ [e]) out' = Inr ((acc @ [e]) @ es)"
    using Cons.prems out'(1) by (intro Cons.IH) auto
  ultimately show ?case using Cons.prems(3) by (auto simp: out'(3) decode_index_entry_ok [OF out'(2)])
qed simp

lemma encode_index_length: "encode_index_entries es = Inr out \<Longrightarrow> length es \<le> length out"
  by (induction es arbitrary: out) (fastforce split: sum.splits if_splits)+

lemma decodeIndex_ok:
  assumes "encodeIndex es = Inr out" "sorted_wrt (\<lambda>a b. ix_firstKey a < ix_firstKey b) es" "\<forall>e \<in> set es. \<not> ix_length e < 4"
    and "length out \<le> max_u32"
  shows "decodeIndex out = Inr es"
proof -
  from assms(1) obtain out' where o: "encode_index_entries es = Inr out'" "out = PutUvarint (length es) @ out'"
    by (auto simp: encodeIndex_def split: sum.splits)
  have "length es \<le> length out" "length es < 2 ^ 64"
    using encode_index_length [OF o(1)] o(2) field_lt_u64 [OF assms(4)] by auto
  then show ?thesis
    using decode_index_loop_ok [OF o(1), of "[]"] assms(2,3) by (simp add: decodeIndex_def o(2) Uvarint_Put)
qed

section \<open>Opening a written table\<close>

text \<open>\<open>r\<close> reads the table with the records \<open>es\<close>, in the groups \<open>gs\<close>, from the file \<open>content\<close>.\<close>

definition reads_table :: "bytes \<Rightarrow> TableEntry list list \<Rightarrow> TableEntry list \<Rightarrow> SSTableReader \<Rightarrow> bool" where
  "reads_table content gs es r \<longleftrightarrow>
     concat gs = es \<and> sorted_entries es \<and> (\<forall>e \<in> set es. normal_entry e) \<and> length es \<le> max_int
   \<and> sorted_wrt (\<lambda>g h. \<forall>a \<in> set g. \<forall>b \<in> set h. te_Key a < te_Key b) gs
   \<and> (\<exists>blocks. list_all2 block_of blocks gs \<and> list_all2 (index_of content) (sr_index r) blocks)
   \<and> sr_r r = file_ReadAt content \<and> length content \<le> max_int
   \<and> (\<exists>f. sr_bloom r = Some f \<and> bloom_ok f) \<and> (\<forall>e \<in> set es. MayContain (te_Key e) (sr_bloom r) = Some True)
   \<and> sr_entryCount r = of_nat (length es)
   \<and> (es \<noteq> [] \<longrightarrow> sr_minKey r = te_Key (hd es) \<and> sr_maxKey r = te_Key (last es))"

lemma add_keys_None [simp]: "add_keys ks None = Some None"
  by (induction ks) (simp_all add: bloom_Add_def)

lemma added_bloom:
  assumes "add_keys ks (NewBloomFilter n) = Some fo" "bloom_MarshalBinary fo = Some data"
  shows "\<exists>f. UnmarshalBloomFilter data = Some f \<and> bloom_ok f \<and> (\<forall>k \<in> set ks. MayContain k (Some f) = Some True)"
proof -
  obtain f0 where f0: "NewBloomFilter n = Some f0"
    using assms by (cases "NewBloomFilter n") (auto simp: bloom_MarshalBinary_def)
  with add_keys_ok [OF NewBloomFilter_ok [OF f0], of ks] assms bloom_round_trip [OF assms(2)] show ?thesis by auto
qed

lemma get_put_length: "k \<le> max_u32 \<Longrightarrow> unat (of_nat k :: u32) = k" "k \<le> max_u32 \<Longrightarrow> get_le (put_le 4 k) = k"
  by (simp_all add: unat_of_nat max_u32_def get_put_le)

lemma footer_fields:
  fixes io il bo bl n :: u64
  assumes "m = footer_metadata io il bo bl n mn mx" "length mn \<le> max_u32" "length mx \<le> max_u32"
  shows "get_u64 m 0 = io" "get_u64 m 8 = il" "get_u64 m 16 = bo" "get_u64 m 24 = bl" "get_u64 m 32 = n"
    "get_u32 m 40 = length mn" "get_u32 m 44 = length mx" "length m = 48 + length mn + length mx"
    "take (length mn) (drop 48 m) = mn" "drop (48 + length mn) m = mx"
proof -
  show "get_u64 m 0 = io" "get_u64 m 8 = il" "get_u64 m 16 = bo" "get_u64 m 24 = bl" "get_u64 m 32 = n"
    by (simp_all add: assms(1) footer_metadata_def)
  show "get_u32 m 40 = length mn" "get_u32 m 44 = length mx"
    by (simp_all add: assms footer_metadata_def get_put_length)
  show "length m = 48 + length mn + length mx" "take (length mn) (drop 48 m) = mn" "drop (48 + length mn) m = mx"
    by (simp_all add: assms(1) footer_metadata_def)
qed

lemma OpenSSTable_footer:
  assumes "content = body @ m @ PutUint32 (crc32c m) @ PutUint32 (of_nat (length m)) @ footerMagic"
    and "48 \<le> length m" "length m \<le> max_u32"
  shows "OpenSSTable (Some (file_ReadAt content)) (int (length content)) = open_blocks (file_ReadAt content) (length content) m"
proof -
  let ?trailer = "PutUint32 (crc32c m) @ PutUint32 (of_nat (length m)) @ footerMagic"
  have len: "length content = length body + length m + 16" by (simp add: assms(1) footerMagic_def)
  have mag: "length footerMagic = 8" by (simp add: footerMagic_def)
  have t: "readAtFull (file_ReadAt content) footerTrailer (length content - footerTrailer) = Some ?trailer"
    by (subst readAtFull_file) (simp_all add: assms(1) footerTrailer_def mag)
  have md: "readAtFull (file_ReadAt content) (length m) (length content - footerTrailer - length m) = Some m"
    by (subst readAtFull_file) (simp_all add: assms(1) footerTrailer_def mag)
  show ?thesis
    unfolding OpenSSTable_def option.case nat_int t
    using assms(2) len md by (simp add: get_put_length [OF assms(3)] Let_def footerTrailer_def)
qed

lemma first_keys_sorted:
  assumes "list_all2 block_of blocks gs" "list_all2 (index_of content) ixs blocks"
    and "sorted_wrt (\<lambda>g h. \<forall>a \<in> set g. \<forall>b \<in> set h. te_Key a < te_Key b) gs"
  shows "map ix_firstKey ixs = map (te_Key \<circ> hd) gs" "sorted_wrt (\<lambda>a b. ix_firstKey a < ix_firstKey b) ixs"
proof -
  have ne: "\<forall>g \<in> set gs. g \<noteq> []" using assms(1) by (induction rule: list_all2_induct) (auto simp: block_of_def)
  have "list_all2 (\<lambda>ix g. ix_firstKey ix = te_Key (hd g)) ixs gs"
    by (rule list_all2_trans [OF _ assms(2,1)]) (auto simp: index_of_def block_of_def)
  then show eq: "map ix_firstKey ixs = map (te_Key \<circ> hd) gs" by (induction rule: list_all2_induct) auto
  have "sorted_wrt (<) (map (te_Key \<circ> hd) gs)"
    unfolding sorted_wrt_map using sorted_wrt_mono_rel [OF _ assms(3)] ne by (auto simp: hd_in_set)
  then show "sorted_wrt (\<lambda>a b. ix_firstKey a < ix_firstKey b) ixs" unfolding eq [symmetric] sorted_wrt_map .
qed

lemma encodeFooter_ok:
  "encodeFooter io il bo bl n mn mx = Inr footer \<longleftrightarrow>
     length mn \<le> max_u32 \<and> length mx \<le> max_u32 \<and> length (footer_metadata io il bo bl n mn mx) \<le> max_u32
     \<and> footer = footer_metadata io il bo bl n mn mx @ PutUint32 (crc32c (footer_metadata io il bo bl n mn mx))
         @ PutUint32 (of_nat (length (footer_metadata io il bo bl n mn mx))) @ footerMagic"
  by (auto simp: encodeFooter_def Let_def)

lemma table_bytes_parts:
  assumes "table_bytes es = Some (Inr content)"
  obtains blocks T index indexData bloom bloomData m where
    "buildDataBlocks es = Inr blocks" "write_blocks blocks [] [] = Inr (T, index)" "encodeIndex index = Inr indexData"
    "length indexData \<le> max_u32" "length bloomData \<le> max_u32"
    "add_keys (map te_Key es) (NewBloomFilter (int (length es))) = Some bloom" "bloom_MarshalBinary bloom = Some bloomData"
    "m = footer_metadata (of_nat (length T)) (of_nat (length indexData + 4)) (of_nat (length T + length indexData + 4))
           (of_nat (length bloomData + 4)) (of_nat (length es))
           (if es \<noteq> [] then te_Key (hd es) else []) (if es \<noteq> [] then te_Key (last es) else [])"
    "length m \<le> max_u32" "length (if es \<noteq> [] then te_Key (hd es) else []) \<le> max_u32"
    "length (if es \<noteq> [] then te_Key (last es) else []) \<le> max_u32"
    "content = T @ sealed indexData @ sealed bloomData @ m @ PutUint32 (crc32c m) @ PutUint32 (of_nat (length m)) @ footerMagic"
proof -
  from assms obtain blocks T index indexData table1 bloom bloomData table2 footer where
    1: "buildDataBlocks es = Inr blocks" "write_blocks blocks [] [] = Inr (T, index)" "encodeIndex index = Inr indexData"
      "appendBlock T indexData = Inr table1" "add_keys (map te_Key es) (NewBloomFilter (int (length es))) = Some bloom"
      "bloom_MarshalBinary bloom = Some bloomData" "appendBlock table1 bloomData = Inr table2"
    and F: "encodeFooter (of_nat (length T)) (of_nat (length table1) - of_nat (length T))
             (of_nat (length table1)) (of_nat (length table2) - of_nat (length table1)) (of_nat (length es))
             (if es \<noteq> [] then te_Key (hd es) else []) (if es \<noteq> [] then te_Key (last es) else []) = Inr footer"
    and c: "content = table2 @ footer"
    unfolding table_bytes_def by (auto split: sum.splits option.splits prod.splits)
  have t: "table1 = T @ sealed indexData" "table2 = T @ sealed indexData @ sealed bloomData"
    "length indexData \<le> max_u32" "length bloomData \<le> max_u32"
    using 1(4,7) by (auto simp: appendBlock_ok)
  have d: "of_nat (length table1) - of_nat (length T) = (of_nat (length indexData + 4) :: u64)"
    "of_nat (length table2) - of_nat (length table1) = (of_nat (length bloomData + 4) :: u64)"
    "length table1 = length T + length indexData + 4"
    by (simp_all add: t)
  note F' = F [unfolded d(1,2), unfolded d(3)]
  show ?thesis
    by (rule that [OF 1(1-3) t(3,4) 1(5,6) refl])
      (use F' [unfolded encodeFooter_ok] in \<open>simp_all only: c t(2) append.assoc\<close>)
qed

lemma written_groups:
  assumes "buildDataBlocks es = Inr blocks" "write_blocks blocks [] [] = Inr (T, index)" "length T \<le> max_int" "sorted_entries es"
  obtains gs where "concat gs = es" "list_all2 block_of blocks gs" "list_all2 (index_of T) index blocks"
    "sorted_wrt (\<lambda>g h. \<forall>a \<in> set g. \<forall>b \<in> set h. te_Key a < te_Key b) gs"
    "data_block_bounds (of_nat (length T)) None index" "\<forall>e \<in> set index. \<not> ix_length e < 4" "(es = []) = (index = [])"
proof -
  obtain gs where gs: "concat gs = es" "list_all2 block_of blocks gs" "successively (\<lambda>g h. te_Key (last g) \<noteq> te_Key (hd h)) gs"
    using buildDataBlocks_groups [OF assms(1)] by blast
  have ne: "\<forall>g \<in> set gs. g \<noteq> []" using gs(2) by (induction rule: list_all2_induct) (auto simp: block_of_def)
  have sep: "sorted_wrt (\<lambda>g h. \<forall>a \<in> set g. \<forall>b \<in> set h. te_Key a < te_Key b) gs"
    using groups_separated [OF _ ne gs(3)] gs(1) assms(4) by simp
  from write_blocks_ok [OF assms(2,3)] have ix: "list_all2 (index_of T) index blocks" and off: "next_offset 0 index (length T)"
    by auto
  have four: "next_offset a is b \<Longrightarrow> \<forall>e \<in> set is. \<not> ix_length e < 4" for a b "is"
    by (induction a "is" b rule: next_offset.induct) (auto simp: word_less_nat_alt)
  have "(es = []) = (gs = [])" using gs(1) ne by (cases gs) auto
  also have "\<dots> \<longleftrightarrow> index = []"
    using list_all2_lengthD [OF gs(2)] list_all2_lengthD [OF ix] by (metis length_0_conv)
  finally have empty: "(es = []) = (index = [])" .
  show ?thesis
    by (rule that [OF gs(1,2) ix sep next_offset_bounds [OF off assms(3)] four [OF off] empty]) simp
qed

lemma open_blocks_ok:
  assumes m: "m = footer_metadata (of_nat (length T)) (of_nat (length indexData + 4)) (of_nat (length T + length indexData + 4))
       (of_nat (length bloomData + 4)) n mn mx"
    and lens: "length mn \<le> max_u32" "length mx \<le> max_u32"
    and c: "content = T @ sealed indexData @ sealed bloomData @ m @ trailer" "length trailer = footerTrailer" "length content \<le> max_int"
    and dec: "decodeIndex indexData = Inr index" "data_block_bounds (of_nat (length T)) None index" "(n = 0) = (index = [])"
    and bl: "UnmarshalBloomFilter bloomData = Some f" and ord: "mn \<le> mx"
  shows "open_blocks (file_ReadAt content) (length content) m =
    Inr \<lparr>sr_r = file_ReadAt content, sr_size = length content, sr_index = index, sr_bloom = Some f,
      sr_entryCount = n, sr_minKey = mn, sr_maxKey = mx\<rparr>"
proof -
  let ?io = "of_nat (length T) :: u64" and ?il = "of_nat (length indexData + 4) :: u64"
    and ?bo = "of_nat (length T + length indexData + 4) :: u64" and ?bl = "of_nat (length bloomData + 4) :: u64"
    and ?fs = "of_nat (length content - footerTrailer - length m) :: u64"
  note F = footer_fields [OF m lens]
  have rI: "readBlock (file_ReadAt content) ?io ?il = Inr indexData"
    using block_atI [of T indexData] by (intro readBlock_at [OF _ c(3)]) (simp only: c(1))
  have rB: "readBlock (file_ReadAt content) ?bo ?bl = Inr bloomData"
    using block_atI [of "T @ sealed indexData" bloomData "m @ trailer"]
    by (intro readBlock_at [OF _ c(3)]) (simp only: c(1) append.assoc length_append length_put_le add.assoc)
  have fs: "length content - footerTrailer - length m = length T + length indexData + 4 + length bloomData + 4"
    by (simp add: c(1,2))
  have tot: "length T + length indexData + 4 + length bloomData + 4 \<le> max_int" using c by simp
  have U: "unat ?io = length T" "unat ?il = length indexData + 4" "unat ?bo = length T + length indexData + 4"
    "unat ?bl = length bloomData + 4" "unat ?fs = length T + length indexData + 4 + length bloomData + 4"
    "unat (of_nat 4 :: u64) = 4"
    unfolding fs by (rule unat_small; use tot in simp)+
  have sum: "?io + ?il = ?bo" by simp
  have c1: "\<not> (length m - 48 \<noteq> length mn + length mx \<or> ?il < 4 \<or> ?bl < 4)"
    using F(8) U(2,4) by (simp add: word_less_nat_alt del: of_nat_add)
  have le: "?io \<le> ?fs" "?bo \<le> ?fs" unfolding word_le_nat_alt U by simp_all
  have d: "unat (?fs - ?io) = length indexData + 4 + length bloomData + 4" "unat (?fs - ?bo) = length bloomData + 4"
    unfolding unat_u64_diff [OF le(1)] unat_u64_diff [OF le(2)] U by simp_all
  have c2: "\<not> (?io > ?fs \<or> ?il > ?fs - ?io \<or> ?bo > ?fs \<or> ?bl > ?fs - ?bo \<or> ?io + ?il > ?bo)"
    unfolding sum word_less_nat_alt U d by simp
  show ?thesis
    unfolding open_blocks_def Let_def F(1-7) if_not_P [OF c1] if_not_P [OF c2] rI rB
    using dec bl ord F(9,10) by (simp add: not_less)
qed

lemma OpenSSTable_written:
  assumes "table_bytes es = Some (Inr content)" "sorted_entries es" "\<forall>e \<in> set es. normal_entry e"
    and "length es \<le> max_int" "length content \<le> max_int"
  shows "\<exists>r gs. OpenSSTable (Some (file_ReadAt content)) (int (length content)) = Inr r \<and> reads_table content gs es r"
proof -
  let ?mn = "if es \<noteq> [] then te_Key (hd es) else []" and ?mx = "if es \<noteq> [] then te_Key (last es) else []"
  obtain blocks T index indexData bloom bloomData m where p:
    "buildDataBlocks es = Inr blocks" "write_blocks blocks [] [] = Inr (T, index)" "encodeIndex index = Inr indexData"
    "length indexData \<le> max_u32"
    "add_keys (map te_Key es) (NewBloomFilter (int (length es))) = Some bloom" "bloom_MarshalBinary bloom = Some bloomData"
    and m: "m = footer_metadata (of_nat (length T)) (of_nat (length indexData + 4)) (of_nat (length T + length indexData + 4))
           (of_nat (length bloomData + 4)) (of_nat (length es)) ?mn ?mx"
    and lens: "length m \<le> max_u32" "length ?mn \<le> max_u32" "length ?mx \<le> max_u32"
    and c: "content = T @ sealed indexData @ sealed bloomData @ m @ PutUint32 (crc32c m) @ PutUint32 (of_nat (length m)) @ footerMagic"
    by (rule table_bytes_parts [OF assms(1)])
  have T: "length T \<le> max_int" using assms(5) c by simp
  obtain gs where gs: "concat gs = es" "list_all2 block_of blocks gs" and ixT: "list_all2 (index_of T) index blocks"
    and sep: "sorted_wrt (\<lambda>g h. \<forall>a \<in> set g. \<forall>b \<in> set h. te_Key a < te_Key b) gs"
    and bounds: "data_block_bounds (of_nat (length T)) None index" "\<forall>e \<in> set index. \<not> ix_length e < 4" "(es = []) = (index = [])"
    by (rule written_groups [OF p(1,2) T assms(2)])
  have ix: "list_all2 (index_of content) index blocks"
    using ixT by (rule list_all2_mono) (auto simp: index_of_def c intro: block_at_append)
  have dec: "decodeIndex indexData = Inr index"
    by (rule decodeIndex_ok [OF p(3) first_keys_sorted(2) [OF gs(2) ix sep] bounds(2) p(4)])
  from added_bloom [OF p(5,6)] obtain f where f: "UnmarshalBloomFilter bloomData = Some f" "bloom_ok f"
    "\<forall>k \<in> set (map te_Key es). MayContain k (Some f) = Some True" by blast
  have empty: "((of_nat (length es) :: u64) = 0) = (index = [])"
    unfolding unat_eq_zero [symmetric] unat_small [OF assms(4)] using bounds(3) by simp
  have ord: "?mn \<le> ?mx" using assms(2) by (cases es) (auto intro: entry_less_key)
  have op: "OpenSSTable (Some (file_ReadAt content)) (int (length content)) = open_blocks (file_ReadAt content) (length content) m"
    by (rule OpenSSTable_footer [of _ "T @ sealed indexData @ sealed bloomData"])
      (simp_all only: c append.assoc lens(1), simp add: footer_fields(8) [OF m lens(2,3)])
  note ob = open_blocks_ok [OF m lens(2,3) c _ assms(5) dec bounds(1) empty f(1) ord]
  show ?thesis unfolding op
    by (subst ob, simp add: footerTrailer_def footerMagic_def, intro exI [of _ gs] exI conjI, rule refl)
      (use gs sep ix f assms in \<open>auto simp: reads_table_def\<close>)
qed

section \<open>Reading a table\<close>

lemma block_records:
  assumes "block_of b g" "index_of content ix b" "length content \<le> max_int" "\<forall>e \<in> set g. normal_entry e" "sorted_entries g"
  shows "\<exists>data. readBlock (file_ReadAt content) (ix_offset ix) (ix_length ix) = Inr data \<and> decodeRecords [] data = Inr g
    \<and> g \<noteq> [] \<and> ix_firstKey ix = te_Key (hd g)"
proof -
  from assms(1) obtain encs where "list_all2 (\<lambda>e enc. encodeRecord e = Inr enc) g encs" "bb_data b = concat encs"
    unfolding block_of_def by blast
  then have "decodeRecords [] (bb_data b) = Inr g" using decodeRecords_encoded [of g encs "[]"] assms(4,5) by simp
  moreover have "readBlock (file_ReadAt content) (ix_offset ix) (ix_length ix) = Inr (bb_data b)"
    using assms(2,3) by (intro readBlock_at) (simp_all add: index_of_def)
  ultimately show ?thesis using assms(1,2) by (auto simp: block_of_def index_of_def)
qed

lemma bloom_covers_all: "\<forall>e \<in> set es. MayContain (te_Key e) bloom = Some True \<Longrightarrow> bloom_covers bloom es = Some True"
  by (induction es) auto

lemma read_blocks_ok:
  assumes "list_all2 block_of blocks gs" "list_all2 (index_of content) ixs blocks" "length content \<le> max_int" "sr_r r = file_ReadAt content"
    and "sorted_wrt (\<lambda>g h. \<forall>a \<in> set g. \<forall>b \<in> set h. te_Key a < te_Key b) gs" "sorted_entries (concat gs)"
    and "\<forall>e \<in> set (concat gs). normal_entry e \<and> MayContain (te_Key e) (sr_bloom r) = Some True"
    and "\<forall>a \<in> set acc. \<forall>b \<in> set (concat gs). te_Key a < te_Key b"
  shows "read_blocks r ixs acc = Some (Inr (acc @ concat gs))"
  using assms(2,1,5-8)
proof (induction ixs blocks arbitrary: gs acc rule: list_all2_induct)
  case (Cons ix ixs b bs)
  then obtain g gs' where gs: "gs = g # gs'" "block_of b g" "list_all2 block_of bs gs'" by (auto simp: list_all2_Cons1)
  have "sorted_entries g" "\<forall>e \<in> set g. normal_entry e" using Cons.prems gs(1) by (auto simp: sorted_wrt_append)
  with block_records [OF gs(2) Cons.hyps(1) assms(3)] obtain data where
    d: "readBlock (file_ReadAt content) (ix_offset ix) (ix_length ix) = Inr data" "decodeRecords [] data = Inr g"
      "g \<noteq> []" "ix_firstKey ix = te_Key (hd g)" by blast
  have "acc = [] \<or> te_Key (last acc) < te_Key (hd g)"
    using Cons.prems(5) gs(1) d(3) by (cases acc rule: rev_cases) auto
  moreover have "bloom_covers (sr_bloom r) g = Some True" using Cons.prems(4) gs(1) by (intro bloom_covers_all) auto
  moreover have "read_blocks r ixs (acc @ g) = Some (Inr ((acc @ g) @ concat gs'))"
    using Cons.prems gs by (intro Cons.IH) (auto simp: sorted_wrt_append)
  ultimately show ?case using d gs(1) assms(4) by (auto simp: not_le map_idI)
qed simp

lemma AllEntries_ok:
  assumes "reads_table content gs es r"
  shows "AllEntries r = Some (Inr es)"
proof -
  from assms obtain blocks where b: "list_all2 block_of blocks gs" "list_all2 (index_of content) (sr_index r) blocks"
    unfolding reads_table_def by blast
  have "read_blocks r (sr_index r) [] = Some (Inr ([] @ concat gs))"
    using assms by (intro read_blocks_ok [OF b]) (auto simp: reads_table_def)
  then show ?thesis using assms by (auto simp: AllEntries_def reads_table_def)
qed

text \<open>The specification of a point read: the first, i.e. newest, record of the key.\<close>

definition newest :: "bytes \<Rightarrow> TableEntry list \<Rightarrow> TableEntry option" where
  "newest key es = find (\<lambda>e. te_Key e = key) es"

lemma newest_None: "newest key es = None \<longleftrightarrow> key \<notin> te_Key ` set es"
  by (auto simp: newest_def find_None_iff)

lemma scan_block_newest: "sorted_entries es \<Longrightarrow> scan_block key es = newest key es"
proof (induction es)
  case (Cons e es)
  have "newest key es = None" if "key < te_Key e"
    using Cons.prems that unfolding newest_None by (auto dest!: entry_less_key)
  with Cons show ?case by (auto simp: newest_def)
qed (simp add: newest_def)

lemma newest_append: "newest key (xs @ ys) = (case newest key xs of None \<Rightarrow> newest key ys | Some e \<Rightarrow> Some e)"
  unfolding newest_def by (induction xs) auto

lemma newest_group:
  assumes "sorted_wrt (\<lambda>g h. \<forall>a \<in> set g. \<forall>b \<in> set h. te_Key a < te_Key b) gs" "\<forall>g \<in> set gs. g \<noteq> []"
    and "j < length gs" "te_Key (hd (gs ! j)) \<le> key" "j + 1 < length gs \<Longrightarrow> key < te_Key (hd (gs ! (j + 1)))"
    and "sorted_entries (concat gs)"
  shows "newest key (concat gs) = newest key (gs ! j)"
proof -
  have split: "concat gs = concat (take j gs) @ gs ! j @ concat (drop (Suc j) gs)"
    using id_take_nth_drop [OF assms(3)] by (metis concat.simps(2) concat_append)
  have hd: "hd (gs ! k) \<in> set (gs ! k)" if "k < length gs" for k using assms(2) that by (auto intro: hd_in_set)
  have before: "newest key (concat (take j gs)) = None"
    unfolding newest_None
  proof
    assume "key \<in> te_Key ` set (concat (take j gs))"
    then obtain g e where e: "g \<in> set (take j gs)" "e \<in> set g" "te_Key e = key" by auto
    then obtain i where i: "i < j" "g = gs ! i" using assms(3) by (auto simp: in_set_conv_nth)
    have "te_Key e < te_Key (hd (gs ! j))"
      using sorted_wrt_nth_less [OF assms(1) i(1) assms(3)] e(2) i(2) hd [OF assms(3)] by blast
    then show False using e(3) assms(4) by simp
  qed
  have after: "newest key (concat (drop (Suc j) gs)) = None"
    unfolding newest_None
  proof
    assume "key \<in> te_Key ` set (concat (drop (Suc j) gs))"
    then obtain g e where e: "g \<in> set (drop (Suc j) gs)" "e \<in> set g" "te_Key e = key" by auto
    then obtain i where i: "i < length gs - Suc j" "g = gs ! (Suc j + i)" by (auto simp: in_set_conv_nth)
    then have l: "Suc j < length gs" by simp
    have "te_Key (hd (gs ! (j + 1))) \<le> te_Key e"
    proof (cases i)
      case 0
      obtain x xs where x: "gs ! Suc j = x # xs" using assms(2) l by (metis list.exhaust nth_mem)
      have "sorted_entries (gs ! Suc j)"
        using assms(6) nth_mem [OF l] by (metis concat_append concat.simps(2) in_set_conv_decomp sorted_wrt_append)
      then show ?thesis using e(2) i(2) 0 x by (auto intro: entry_less_key)
    next
      case (Suc k)
      then show ?thesis using sorted_wrt_nth_less [OF assms(1), of "Suc j" "Suc j + i"] i e(2) hd [OF l] by fastforce
    qed
    then show False using e(3) assms(5) l by simp
  qed
  show ?thesis unfolding split newest_append before after by (simp split: option.split)
qed

lemma newest_outside:
  assumes "sorted_entries es" "es \<noteq> []" "key < te_Key (hd es) \<or> te_Key (last es) < key"
  shows "newest key es = None"
proof -
  have "te_Key (hd es) \<le> te_Key e \<and> te_Key e \<le> te_Key (last es)" if "e \<in> set es" for e
  proof -
    obtain xs ys where es: "es = xs @ e # ys" using split_list [OF \<open>e \<in> set es\<close>] by blast
    have "xs = [] \<or> entry_less (hd xs) e" using assms(1) es by (cases xs) auto
    moreover have "ys = [] \<or> entry_less e (last ys)" using assms(1) es by (cases ys rule: rev_cases) (auto simp: sorted_wrt_append)
    ultimately show ?thesis by (auto simp: es hd_append dest: entry_less_key)
  qed
  then show ?thesis using assms(3) unfolding newest_None by fastforce
qed

text \<open>Binary search in the index finds the only group that can hold the key.\<close>

lemma index_search:
  assumes "map ix_firstKey ixs = map (te_Key \<circ> hd) gs" "sorted_wrt (\<lambda>a b. ix_firstKey a < ix_firstKey b) ixs"
    and "gs \<noteq> []" "te_Key (hd (gs ! 0)) \<le> key"
    and i: "i = sort_Search (length ixs) (\<lambda>i. ix_firstKey (ixs ! i) > key)"
  shows "i \<noteq> 0" "i - 1 < length gs" "te_Key (hd (gs ! (i - 1))) \<le> key"
    "i - 1 + 1 < length gs \<Longrightarrow> key < te_Key (hd (gs ! (i - 1 + 1)))"
proof -
  let ?P = "\<lambda>i. ix_firstKey (ixs ! i) > key"
  have len: "length ixs = length gs" using assms(1) by (metis length_map)
  have fk: "ix_firstKey (ixs ! j) = te_Key (hd (gs ! j))" if "j < length gs" for j
    using assms(1) that len by (metis comp_apply nth_map)
  have mono: "\<forall>a b. a \<le> b \<longrightarrow> b < length ixs \<longrightarrow> ?P a \<longrightarrow> ?P b"
    using sorted_wrt_nth_less [OF assms(2)] by (metis le_neq_implies_less less_trans)
  note S = sort_Search_correct [OF mono, folded i]
  have "\<not> ?P 0" using assms(3,4) fk [of 0] by auto
  then show i0: "i \<noteq> 0" using S(3) [of 0] len assms(3) by auto
  then have "i - 1 < length gs" "\<not> ?P (i - 1)" using S(1,2) len by (auto simp: less_diff_conv)
  then show "i - 1 < length gs" "te_Key (hd (gs ! (i - 1))) \<le> key" using fk [of "i - 1"] by auto
  show "key < te_Key (hd (gs ! (i - 1 + 1)))" if "i - 1 + 1 < length gs" using S(3) [of i] that i0 len fk [of i] by auto
qed

lemma reader_get_ok:
  assumes R: "reads_table content gs es r"
  shows "reader_get r key checkBloom = Some (Inr (newest key es))"
proof -
  from R obtain blocks f where b: "list_all2 block_of blocks gs" "list_all2 (index_of content) (sr_index r) blocks"
    and f: "sr_bloom r = Some f" "bloom_ok f"
    unfolding reads_table_def by blast
  have sep: "sorted_wrt (\<lambda>g h. \<forall>a \<in> set g. \<forall>b \<in> set h. te_Key a < te_Key b) gs" and sorted: "sorted_entries es"
    and es: "concat gs = es" and len: "length content \<le> max_int" "length es \<le> max_int" "sr_entryCount r = of_nat (length es)"
    and rd: "sr_r r = file_ReadAt content" and norm: "\<forall>e \<in> set es. normal_entry e"
    and mm: "es \<noteq> [] \<Longrightarrow> sr_minKey r = te_Key (hd es) \<and> sr_maxKey r = te_Key (last es)"
    using R by (auto simp: reads_table_def)
  have ne: "\<forall>g \<in> set gs. g \<noteq> []" using b(1) by (induction rule: list_all2_induct) (auto simp: block_of_def)
  obtain may where may: "(if checkBloom then MayContain key (sr_bloom r) else Some True) = Some may"
    using MayContain_iff [OF f(2), of key] f(1) by (cases checkBloom) auto
  have not_may: "newest key es = None" if "\<not> may"
    using that may R unfolding newest_None by (auto simp: reads_table_def split: if_splits)
  have E: "sr_entryCount r = 0 \<longleftrightarrow> es = []"
    unfolding len(3) unat_eq_zero [symmetric] unat_small [OF len(2)] by simp
  show ?thesis
  proof (cases "es = [] \<or> \<not> may \<or> key < sr_minKey r \<or> key > sr_maxKey r")
    case True
    have "newest key es = None"
      using mm True not_may newest_outside [OF sorted, of key] by (cases "es = []") (auto simp: newest_def)
    then show ?thesis using True may E by (auto simp: reader_get_def newest_def split: option.splits)
  next
    case False
    define i where "i = sort_Search (length (sr_index r)) (\<lambda>i. ix_firstKey (sr_index r ! i) > key)"
    have gsne: "gs \<noteq> []" and "te_Key (hd (gs ! 0)) \<le> key" using es ne mm False by (cases gs; auto)+
    note I = index_search [OF first_keys_sorted [OF b sep] this i_def]
    let ?g = "gs ! (i - 1)" and ?ix = "sr_index r ! (i - 1)"
    have bl: "block_of (blocks ! (i - 1)) ?g" "index_of content ?ix (blocks ! (i - 1))"
      using b I(2) by (auto simp: list_all2_conv_all_nth)
    have sub: "set ?g \<subseteq> set es" "sorted_entries ?g"
      using es sorted nth_mem [OF I(2)] by (auto, metis concat_append concat.simps(2) in_set_conv_decomp sorted_wrt_append)
    from block_records [OF bl len(1) _ sub(2)] norm sub(1) obtain data where
      d: "readBlock (file_ReadAt content) (ix_offset ?ix) (ix_length ?ix) = Inr data" "decodeRecords [] data = Inr ?g"
        "?g \<noteq> []" "ix_firstKey ?ix = te_Key (hd ?g)" by blast
    have "newest key es = newest key ?g"
      using newest_group [OF sep ne I(2,3,4)] es sorted by auto
    then show ?thesis
      using False may E I(1) d rd scan_block_newest [OF sub(2)] by (auto simp: reader_get_def Let_def i_def [symmetric])
  qed
qed

section \<open>The writer\<close>

fun add_entries :: "TableEntry list \<Rightarrow> 'f SSTableWriter \<Rightarrow> sst_error + 'f SSTableWriter" where
  "add_entries [] w = Inr w"
| "add_entries (e # es) w = (case writer_Add e w of Inl err \<Rightarrow> Inl err | Inr w' \<Rightarrow> add_entries es w')"

definition writer_inv :: "'f SSTableWriter \<Rightarrow> bool" where
  "writer_inv w \<longleftrightarrow> sorted_entries (sw_entries w) \<and> (\<forall>e \<in> set (sw_entries w). normal_entry e)
     \<and> (sw_entries w \<noteq> [] \<longrightarrow> sw_lastKey w = te_Key (last (sw_entries w)))"

lemma sorted_snoc: "sorted_entries (es @ [e]) \<longleftrightarrow> sorted_entries es \<and> (es = [] \<or> entry_less (last es) e)"
proof (cases es rule: rev_cases)
  case (snoc xs x)
  then show ?thesis by (auto simp: sorted_wrt_append intro: entry_less_trans)
qed simp

lemma writer_Add_ok:
  assumes "writer_inv w" "writer_Add e w = Inr w'"
  shows "writer_inv w'" "sw_entries w' = sw_entries w @ [copy_entry e]" "sw_w w' = sw_w w" "sw_closed w' = sw_closed w"
proof -
  have w': "w' = w\<lparr>sw_entries := sw_entries w @ [copy_entry e], sw_lastKey := te_Key e\<rparr>"
    and ord: "sw_entries w = [] \<or> validSSTableRecordOrder (sw_lastKey w) (te_Seq (last (sw_entries w))) (te_Key e) (te_Seq e)"
    using assms(2) by (auto simp: writer_Add_def split: if_splits)
  have "sw_entries w = [] \<or> entry_less (last (sw_entries w)) (copy_entry e)"
    using ord assms(1) order_entry_less [of "last (sw_entries w)" "copy_entry e"] by (auto simp: writer_inv_def)
  then show "writer_inv w'" using assms(1) unfolding writer_inv_def w' by (auto simp: sorted_snoc)
  show "sw_entries w' = sw_entries w @ [copy_entry e]" "sw_w w' = sw_w w" "sw_closed w' = sw_closed w" by (simp_all add: w')
qed

lemma add_entries_ok:
  "writer_inv w \<Longrightarrow> add_entries es w = Inr w' \<Longrightarrow>
     writer_inv w' \<and> sw_entries w' = sw_entries w @ map copy_entry es \<and> sw_w w' = sw_w w \<and> sw_closed w' = sw_closed w"
proof (induction es arbitrary: w)
  case (Cons e es)
  then obtain x where x: "writer_Add e w = Inr x" "add_entries es x = Inr w'" by (auto split: sum.splits)
  from Cons.IH [OF _ x(2)] writer_Add_ok [OF Cons.prems(1) x(1)] show ?case by simp
qed simp

lemma writer_inv_New: "writer_inv (NewSSTableWriter f)"
  by (simp add: writer_inv_def NewSSTableWriter_def)

text \<open>\<open>Write\<close> on a file that takes all bytes.\<close>

definition append_write :: "bytes \<Rightarrow> bytes \<Rightarrow> bytes \<times> nat \<times> bool" where
  "append_write b f = (f @ b, length b, False)"

section \<open>Newest versions\<close>

text \<open>\<open>v\<close> is the version of \<open>key\<close> with the highest sequence number among \<open>W\<close>, if there is any.\<close>

definition is_newest :: "TableEntry set \<Rightarrow> bytes \<Rightarrow> TableEntry option \<Rightarrow> bool" where
  "is_newest W key v \<longleftrightarrow> (case v of
     None \<Rightarrow> \<forall>w \<in> W. te_Key w \<noteq> key
   | Some e \<Rightarrow> e \<in> W \<and> te_Key e = key \<and> (\<forall>w \<in> W. te_Key w = key \<longrightarrow> te_Seq w \<le> te_Seq e))"

lemma find_split: "find P es = Some e \<Longrightarrow> \<exists>xs ys. es = xs @ e # ys \<and> P e \<and> (\<forall>x \<in> set xs. \<not> P x)"
proof (induction es)
  case (Cons a es)
  show ?case
  proof (cases "P a")
    case False
    then obtain xs ys where "es = xs @ e # ys" "P e" "\<forall>x \<in> set xs. \<not> P x" using Cons by auto
    with False show ?thesis by (intro exI [of _ "a # xs"] exI [of _ ys]) simp
  qed (use Cons.prems in \<open>auto intro: exI [of _ "[]"]\<close>)
qed simp

lemma newest_sorted:
  assumes "sorted_entries es"
  shows "is_newest (set es) key (newest key es)"
proof (cases "newest key es")
  case None
  moreover from None have "key \<notin> te_Key ` set es" by (simp add: newest_None)
  ultimately show ?thesis by (auto simp: is_newest_def)
next
  case (Some e)
  then obtain xs ys where es: "es = xs @ e # ys" "te_Key e = key" "\<forall>x \<in> set xs. te_Key x \<noteq> key"
    unfolding newest_def by (blast dest: find_split)
  have "te_Seq w \<le> te_Seq e" if "w \<in> set ys" "te_Key w = key" for w
    using assms that es(1,2) by (auto simp: sorted_wrt_append entry_less_def)
  with es Some show ?thesis by (auto simp: is_newest_def)
qed

section \<open>Claims\<close>

text \<open>C8. Table round trip. Records added to a writer and written by Finish can be opened again:
  OpenSSTable accepts the file, AllEntries returns exactly the records in order, and a point read,
  with or without the Bloom filter, returns the record of the key with the highest sequence number,
  or nothing if there is none. No read of such a table reports corruption.\<close>

theorem sstable_round_trip:
  assumes "add_entries es (NewSSTableWriter (Some [])) = Inr w" "Finish append_write w = Some (w', None)"
    and "sw_w w' = Some content" "length es \<le> max_int" "length content \<le> max_int"
  shows "\<exists>r. OpenSSTable (Some (file_ReadAt content)) (int (length content)) = Inr r
    \<and> AllEntries r = Some (Inr (map copy_entry es))
    \<and> (\<forall>key checkBloom. \<exists>v. reader_get r key checkBloom = Some (Inr v) \<and> is_newest (set (map copy_entry es)) key v)"
proof -
  from add_entries_ok [OF writer_inv_New assms(1)] have w: "writer_inv w" "sw_entries w = map copy_entry es" "sw_w w = Some []" "\<not> sw_closed w"
    by (simp_all add: NewSSTableWriter_def)
  have "table_bytes (sw_entries w) = Some (Inr content)"
    using assms(2,3) w(3,4) by (auto simp: Finish_def Let_def append_write_def split: option.splits sum.splits if_splits)
  from OpenSSTable_written [OF this] w(1,2) assms(4,5) obtain r gs where
    "OpenSSTable (Some (file_ReadAt content)) (int (length content)) = Inr r" "reads_table content gs (sw_entries w) r"
    by (auto simp: writer_inv_def)
  moreover have "is_newest (set (map copy_entry es)) key (newest key (map copy_entry es))" for key
    using newest_sorted [of "map copy_entry es"] w(1,2) by (simp add: writer_inv_def)
  ultimately show ?thesis using AllEntries_ok reader_get_ok w(2) by metis
qed

text \<open>Two versions of one key, the newer one first.\<close>

definition sample_entry :: TableEntry where
  "sample_entry = \<lparr>te_Key = [97], te_Seq = 3, te_Value = [1, 2], te_Tombstone = False\<rparr>"

definition sample_newer :: TableEntry where
  "sample_newer = \<lparr>te_Key = [97], te_Seq = 5, te_Value = [], te_Tombstone = True\<rparr>"

lemma sample_bloom:
  "\<exists>f. add_keys [[97], [97]] (NewBloomFilter 2) = Some (Some f) \<and> bloom_MarshalBinary (Some f) \<noteq> None
     \<and> length (the (bloom_MarshalBinary (Some f))) = 13"
proof -
  have N: "NewBloomFilter 2 = Some \<lparr>bf_bits = replicate 3 0, bf_m = 20\<rparr>"
    by (simp add: NewBloomFilter_def bloomSize_def bloomByteLen_def bloomBitsPerKey_def max_int_def Let_def)
  from add_keys_ok [OF NewBloomFilter_ok [OF N], of "[[97], [97]]"] obtain f where
    f: "add_keys [[97], [97]] (NewBloomFilter 2) = Some (Some f)" "bloom_ok f" unfolding N by blast
  from add_keys_m [OF f(1)] have m: "bf_m f = 20" by (simp add: N)
  have "length (bf_bits f) = 3" using bloomByteLen_value [of "bf_m f"] f(2) by (auto simp: bloom_ok_def m)
  with f bloom_marshal_ok [OF f(2)] show ?thesis by (simp add: max_int_def bloomHeaderSize_def)
qed

lemma sample_table: "\<exists>content. table_bytes [sample_newer, sample_entry] = Some (Inr content) \<and> length content \<le> max_int"
proof -
  obtain f where f: "add_keys [[97], [97]] (NewBloomFilter 2) = Some (Some f)" "bloom_MarshalBinary (Some f) \<noteq> None"
    "length (the (bloom_MarshalBinary (Some f))) = 13" using sample_bloom by blast
  then obtain d where d: "bloom_MarshalBinary (Some f) = Some d" "length d = 13" by auto
  have "\<exists>enc. encodeRecord sample_entry = Inr enc \<and> length enc = 14" "\<exists>enc. encodeRecord sample_newer = Inr enc \<and> length enc = 12"
    by (simp_all add: encodeRecord_def sample_entry_def sample_newer_def max_u32_def Let_def PutUvarint.simps)
  then obtain enc enc' where enc: "encodeRecord sample_entry = Inr enc" "length enc = 14" "encodeRecord sample_newer = Inr enc'" "length enc' = 12" by blast
  show ?thesis
    using f(1) d enc
    by (simp add: table_bytes_def buildDataBlocks.simps appendBlock_def max_u32_def encodeIndex_def encodeFooter_ok
        footer_metadata_def sample_entry_def sample_newer_def encodeFooter_def Let_def PutUvarint.simps footerMagic_def max_int_def)
qed

theorem sstable_round_trip_witness:
  "\<exists>w w' content r. add_entries [sample_newer, sample_entry] (NewSSTableWriter (Some [])) = Inr w \<and> Finish append_write w = Some (w', None)
    \<and> sw_w w' = Some content \<and> OpenSSTable (Some (file_ReadAt content)) (int (length content)) = Inr r
    \<and> reader_get r [97] True = Some (Inr (Some sample_newer))"
proof -
  obtain content where c: "table_bytes [sample_newer, sample_entry] = Some (Inr content)" "length content \<le> max_int" using sample_table by blast
  define w where "w = \<lparr>sw_w = Some ([] :: bytes), sw_entries = [sample_newer, sample_entry], sw_lastKey = [97], sw_size = 0, sw_closed = False\<rparr>"
  define w' where "w' = w\<lparr>sw_closed := True, sw_w := Some content, sw_size := length content\<rparr>"
  have copy: "copy_entry sample_entry = sample_entry" "copy_entry sample_newer = sample_newer"
    by (simp_all add: copy_entry_def sample_entry_def sample_newer_def)
  have A: "add_entries [sample_newer, sample_entry] (NewSSTableWriter (Some [])) = Inr w"
    by (simp add: writer_Add_def NewSSTableWriter_def w_def copy) (simp add: sample_entry_def sample_newer_def validSSTableRecordOrder_def)
  have F: "Finish append_write w = Some (w', None)" and w': "sw_w w' = Some content"
    using c(1) by (simp_all add: Finish_def w_def w'_def append_write_def Let_def)
  from sstable_round_trip [OF A F w' _ c(2)] obtain r where
    r: "OpenSSTable (Some (file_ReadAt content)) (int (length content)) = Inr r"
      "\<forall>key checkBloom. \<exists>v. reader_get r key checkBloom = Some (Inr v) \<and> is_newest {sample_newer, sample_entry} key v"
    by (auto simp: max_int_def copy)
  from r(2) obtain v where v: "reader_get r [97] True = Some (Inr v)" "is_newest {sample_newer, sample_entry} [97] v" by blast
  from v(2) have "v = Some sample_newer" by (auto simp: is_newest_def sample_newer_def sample_entry_def split: option.splits)
  with v(1) r(1) A F w' show ?thesis by auto
qed

end
