(* ===== verification/Lsm_Skiplist.thy ===== *)
theory Lsm_Skiplist
  imports Lsm_Sstable_Props
begin

text \<open>
  The memtable of \<open>internal/lsm/skiplist.go\<close>: a skip list with explicit pointers. Nodes live in a
  store, a list in which a node's address is its position; the head has address 0, a pointer is an
  \<open>nat option\<close> and \<open>put\<close> updates towers in place. A nil dereference or an index out of range is
  \<open>None\<close>, and so is a walk that never ends. The random source is a function from the number of the
  draw and the bound to the value. The invariant says that every level is a sublist of the sorted
  bottom level; under it all operations return and agree with a sorted association list.
\<close>

section \<open>Data\<close>

definition maxHeight :: nat where
  "maxHeight = 16"

definition towerInverseP :: nat where
  "towerInverseP = 4"

type_synonym Rand = "nat \<Rightarrow> nat \<Rightarrow> nat"

record skipNode =
  sn_key :: bytes
  sn_value :: bytes
  sn_tombstone :: bool
  sn_seq :: u64
  sn_forward :: "nat option list"

record skipList =
  sl_nodes :: "skipNode list"
  sl_level :: nat
  sl_draws :: nat

definition newSkipList :: "nat \<Rightarrow> skipList" where
  "newSkipList draws = \<lparr>sl_nodes = [\<lparr>sn_key = [], sn_value = [], sn_tombstone = False, sn_seq = 0,
     sn_forward = replicate maxHeight None\<rparr>], sl_level = 1, sl_draws = draws\<rparr>"

section \<open>Operations\<close>

function height_loop :: "Rand \<Rightarrow> nat \<Rightarrow> nat \<Rightarrow> nat \<Rightarrow> nat \<Rightarrow> nat \<times> nat" where
  "height_loop rnd maxH inverseP height draws =
     (if height < maxH
      then (if rnd draws inverseP = 0 then height_loop rnd maxH inverseP (height + 1) (draws + 1) else (height, draws + 1))
      else (height, draws))"
  by pat_completeness auto
termination
  by (relation "measure (\<lambda>(rnd, maxH, inverseP, height, draws). maxH - height)") auto

declare height_loop.simps [simp del]

definition randomHeight :: "Rand \<Rightarrow> nat \<Rightarrow> nat \<Rightarrow> nat \<Rightarrow> nat \<times> nat" where
  "randomHeight rnd maxH inverseP draws = height_loop rnd maxH inverseP 1 draws"

definition forward :: "skipNode list \<Rightarrow> nat \<Rightarrow> nat \<Rightarrow> nat option option" where
  "forward nodes x i =
     (if x < length nodes \<and> i < length (sn_forward (nodes ! x)) then Some (sn_forward (nodes ! x) ! i) else None)"

text \<open>The inner loop of a search: along level \<open>i\<close> while the next key is smaller.\<close>

partial_function (option) walk :: "skipNode list \<Rightarrow> nat \<Rightarrow> bytes \<Rightarrow> nat \<Rightarrow> nat option" where
  "walk nodes i key x =
     (case forward nodes x i of
        None \<Rightarrow> None
      | Some None \<Rightarrow> Some x
      | Some (Some y) \<Rightarrow>
          if y < length nodes
          then (if sn_key (nodes ! y) < key then walk nodes i key y else Some x)
          else None)"

text \<open>The outer loop, from the highest level in use down; it collects the last node of each level.\<close>

primrec descend :: "skipNode list \<Rightarrow> bytes \<Rightarrow> nat \<Rightarrow> nat \<Rightarrow> nat list \<Rightarrow> (nat \<times> nat list) option" where
  "descend nodes key 0 x update = Some (x, update)"
| "descend nodes key (Suc i) x update =
     (case walk nodes i key x of None \<Rightarrow> None | Some x' \<Rightarrow> descend nodes key i x' (x' # update))"

text \<open>The loop that links the tower of the new node \<open>a\<close> into its levels.\<close>

fun link :: "nat list \<Rightarrow> nat \<Rightarrow> nat list \<Rightarrow> skipNode list \<Rightarrow> skipNode list option" where
  "link [] a update nodes = Some nodes"
| "link (i # is) a update nodes =
     (if i < length update
      then (case forward nodes (update ! i) i of
              None \<Rightarrow> None
            | Some nx \<Rightarrow>
                (let nodes = nodes[a := (nodes ! a)\<lparr>sn_forward := (sn_forward (nodes ! a))[i := nx]\<rparr>];
                     u = update ! i;
                     nodes = nodes[u := (nodes ! u)\<lparr>sn_forward := (sn_forward (nodes ! u))[i := Some a]\<rparr>]
                 in link is a update nodes))
      else None)"

definition sl_put :: "Rand \<Rightarrow> bytes \<Rightarrow> bytes \<Rightarrow> bool \<Rightarrow> u64 \<Rightarrow> skipList \<Rightarrow> (skipList \<times> bool) option" where
  "sl_put rnd key v tombstone seq s =
     (case descend (sl_nodes s) key (sl_level s) 0 [] of
        None \<Rightarrow> None
      | Some (x, update) \<Rightarrow>
          (case forward (sl_nodes s) x 0 of
             None \<Rightarrow> None
           | Some nx \<Rightarrow>
               (case (case nx of None \<Rightarrow> None | Some y \<Rightarrow> if sn_key (sl_nodes s ! y) = key then Some y else None) of
                  Some y \<Rightarrow>
                    if seq \<le> sn_seq (sl_nodes s ! y) then Some (s, False)
                    else Some (s\<lparr>sl_nodes := (sl_nodes s)[y := (sl_nodes s ! y)\<lparr>sn_value := v, sn_tombstone := tombstone, sn_seq := seq\<rparr>]\<rparr>, True)
                | None \<Rightarrow>
                    (let (height, draws) = randomHeight rnd maxHeight towerInverseP (sl_draws s);
                         update = (if height > sl_level s then update @ replicate (height - sl_level s) 0 else update);
                         level = (if height > sl_level s then height else sl_level s);
                         node = \<lparr>sn_key = key, sn_value = v, sn_tombstone = tombstone, sn_seq = seq, sn_forward = replicate height None\<rparr>
                     in case link [0..<height] (length (sl_nodes s)) update (sl_nodes s @ [node]) of
                          None \<Rightarrow> None
                        | Some nodes \<Rightarrow> Some (\<lparr>sl_nodes = nodes, sl_level = level, sl_draws = draws\<rparr>, True)))))"

definition sl_get :: "bytes \<Rightarrow> skipList \<Rightarrow> (bytes \<times> bool \<times> u64) option option" where
  "sl_get key s =
     (case descend (sl_nodes s) key (sl_level s) 0 [] of
        None \<Rightarrow> None
      | Some (x, _) \<Rightarrow>
          (case forward (sl_nodes s) x 0 of
             None \<Rightarrow> None
           | Some nx \<Rightarrow>
               Some (case nx of
                       None \<Rightarrow> None
                     | Some y \<Rightarrow>
                         let n = sl_nodes s ! y
                         in if sn_key n = key then Some (sn_value n, sn_tombstone n, sn_seq n) else None)))"

text \<open>\<open>fn\<close> acts on a state of its own and says whether to go on.\<close>

partial_function (option) forEach_from ::
  "skipNode list \<Rightarrow> (bytes \<Rightarrow> bytes \<Rightarrow> bool \<Rightarrow> u64 \<Rightarrow> 's \<Rightarrow> 's \<times> bool) \<Rightarrow> nat option \<Rightarrow> 's \<Rightarrow> 's option" where
  "forEach_from nodes fn xo st =
     (case xo of
        None \<Rightarrow> Some st
      | Some x \<Rightarrow>
          (case forward nodes x 0 of
             None \<Rightarrow> None
           | Some nx \<Rightarrow>
               (case fn (sn_key (nodes ! x)) (sn_value (nodes ! x)) (sn_tombstone (nodes ! x)) (sn_seq (nodes ! x)) st of
                  (st', go) \<Rightarrow> if go then forEach_from nodes fn nx st' else Some st')))"

definition forEach :: "(bytes \<Rightarrow> bytes \<Rightarrow> bool \<Rightarrow> u64 \<Rightarrow> 's \<Rightarrow> 's \<times> bool) \<Rightarrow> skipList \<Rightarrow> 's \<Rightarrow> 's option" where
  "forEach fn s st = (case forward (sl_nodes s) 0 0 of None \<Rightarrow> None | Some nx \<Rightarrow> forEach_from (sl_nodes s) fn nx st)"

section \<open>The levels\<close>

abbreviation tower :: "skipNode list \<Rightarrow> nat \<Rightarrow> nat" where
  "tower nodes n \<equiv> length (sn_forward (nodes ! n))"

abbreviation nkey :: "skipNode list \<Rightarrow> nat \<Rightarrow> bytes" where
  "nkey nodes n \<equiv> sn_key (nodes ! n)"

fun linked :: "skipNode list \<Rightarrow> nat \<Rightarrow> nat \<Rightarrow> nat list \<Rightarrow> bool" where
  "linked nodes i x [] \<longleftrightarrow> forward nodes x i = Some None"
| "linked nodes i x (y # ys) \<longleftrightarrow> forward nodes x i = Some (Some y) \<and> linked nodes i y ys"

definition level_nodes :: "skipNode list \<Rightarrow> nat list \<Rightarrow> nat \<Rightarrow> nat list" where
  "level_nodes nodes ns i = filter (\<lambda>n. i < tower nodes n) ns"

text \<open>\<open>ns\<close> are the addresses of the nodes after the head, in key order.\<close>

definition sk_inv :: "skipList \<Rightarrow> nat list \<Rightarrow> bool" where
  "sk_inv s ns \<longleftrightarrow>
     (let nodes = sl_nodes s
      in distinct (0 # ns) \<and> set (0 # ns) \<subseteq> {..<length nodes} \<and> length ns + 1 = length nodes
       \<and> sorted_wrt (\<lambda>a b. nkey nodes a < nkey nodes b) ns
       \<and> tower nodes 0 = maxHeight \<and> 1 \<le> sl_level s \<and> sl_level s \<le> maxHeight
       \<and> (\<forall>n \<in> set ns. 1 \<le> tower nodes n \<and> tower nodes n \<le> sl_level s)
       \<and> (\<forall>i < maxHeight. linked nodes i 0 (level_nodes nodes ns i)))"

lemma sk_inv_new: "sk_inv (newSkipList d) []"
  by (simp add: sk_inv_def newSkipList_def level_nodes_def forward_def maxHeight_def)

lemma height_loop_bounds: "height \<le> maxH \<Longrightarrow> height \<le> fst (height_loop rnd maxH p height draws) \<and> fst (height_loop rnd maxH p height draws) \<le> maxH"
proof (induction rnd maxH p height draws rule: height_loop.induct)
  case (1 rnd maxH p height draws)
  then show ?case by (subst (1 2) height_loop.simps) fastforce
qed

lemma randomHeight_bounds: "1 \<le> maxH \<Longrightarrow> 1 \<le> fst (randomHeight rnd maxH p draws) \<and> fst (randomHeight rnd maxH p draws) \<le> maxH"
  using height_loop_bounds by (simp add: randomHeight_def)

lemma linked_forward: "linked nodes i x ys \<Longrightarrow> y \<in> set (x # ys) \<Longrightarrow> y < length nodes"
  by (induction ys arbitrary: x) (auto simp: forward_def split: if_splits)

lemma linked_suffix: "linked nodes i x (ys @ y # zs) \<Longrightarrow> linked nodes i y zs"
  by (induction ys arbitrary: x) auto

section \<open>Searching\<close>

lemma walk_linked:
  assumes "linked nodes i x ys"
  shows "walk nodes i key x = Some (last (x # takeWhile (\<lambda>n. nkey nodes n < key) ys))"
  using assms
proof (induction ys arbitrary: x)
  case Nil
  then show ?case by (subst walk.simps) simp
next
  case (Cons y ys)
  then have "y < length nodes" using linked_forward [of nodes i x "y # ys" y] by simp
  with Cons show ?case by (subst walk.simps) auto
qed

lemma sorted_cut:
  fixes f :: "'a \<Rightarrow> 'k::linorder"
  assumes "sorted_wrt (\<lambda>a b. f a < f b) l"
  shows "takeWhile (\<lambda>n. f n < k) l = filter (\<lambda>n. f n < k) l" "dropWhile (\<lambda>n. f n < k) l = filter (\<lambda>n. \<not> f n < k) l"
proof -
  have "takeWhile (\<lambda>n. f n < k) l = filter (\<lambda>n. f n < k) l \<and> dropWhile (\<lambda>n. f n < k) l = filter (\<lambda>n. \<not> f n < k) l"
    using assms
  proof (induction l)
    case (Cons a l)
    show ?case
    proof (cases "f a < k")
      case False
      with Cons.prems have "\<forall>x \<in> set l. \<not> f x < k" by (auto dest: less_trans)
      with False show ?thesis by (simp add: filter_False)
    qed (use Cons in simp)
  qed simp
  then show "takeWhile (\<lambda>n. f n < k) l = filter (\<lambda>n. f n < k) l" "dropWhile (\<lambda>n. f n < k) l = filter (\<lambda>n. \<not> f n < k) l"
    by simp_all
qed

lemmas takeWhile_sorted = sorted_cut(1) [of "\<lambda>n. nkey nodes n" for nodes]

text \<open>The last node of level \<open>i\<close> with a smaller key, the head if there is none.\<close>

definition before :: "skipNode list \<Rightarrow> nat list \<Rightarrow> bytes \<Rightarrow> nat \<Rightarrow> nat" where
  "before nodes ns key i = last (0 # filter (\<lambda>n. nkey nodes n < key) (level_nodes nodes ns i))"

lemma sorted_level: "sorted_wrt P ns \<Longrightarrow> sorted_wrt P (level_nodes nodes ns i)"
  unfolding level_nodes_def by (rule sorted_wrt_filter)

lemma walk_level:
  assumes "linked nodes i 0 (level_nodes nodes ns i)" "sorted_wrt (\<lambda>a b. nkey nodes a < nkey nodes b) ns"
    and "x \<in> set (0 # filter (\<lambda>n. nkey nodes n < key) (level_nodes nodes ns i))"
  shows "walk nodes i key x = Some (before nodes ns key i)"
proof -
  let ?l = "level_nodes nodes ns i" and ?P = "\<lambda>n. nkey nodes n < key"
  have sorted: "sorted_wrt (\<lambda>a b. nkey nodes a < nkey nodes b) ?l" by (rule sorted_level [OF assms(2)])
  show ?thesis
  proof (cases "x = 0")
    case True
    then show ?thesis using walk_linked [OF assms(1), of key] takeWhile_sorted [OF sorted] by (simp add: before_def)
  next
    case False
    then have x: "x \<in> set ?l" "?P x" using assms(3) by auto
    then obtain as bs where l: "?l = as @ x # bs" by (meson split_list)
    have sb: "sorted_wrt (\<lambda>a b. nkey nodes a < nkey nodes b) bs" using sorted l by (simp add: sorted_wrt_append)
    have "linked nodes i x bs" using assms(1) l linked_suffix by metis
    then show ?thesis using walk_linked [of nodes i x bs key] takeWhile_sorted [OF sb] x(2) by (simp add: before_def l)
  qed
qed

lemma before_lower:
  "before nodes ns key (Suc i) \<in> set (0 # filter (\<lambda>n. nkey nodes n < key) (level_nodes nodes ns i))"
proof -
  have "before nodes ns key (Suc i) \<in> set (0 # filter (\<lambda>n. nkey nodes n < key) (level_nodes nodes ns (Suc i)))"
    unfolding before_def by (metis last_in_set list.discI)
  then show ?thesis by (auto simp: level_nodes_def)
qed

lemma descend_levels:
  assumes "\<forall>i < l. linked nodes i 0 (level_nodes nodes ns i)" "sorted_wrt (\<lambda>a b. nkey nodes a < nkey nodes b) ns"
    and "l > 0 \<Longrightarrow> x \<in> set (0 # filter (\<lambda>n. nkey nodes n < key) (level_nodes nodes ns (l - 1)))"
  shows "descend nodes key l x upd = Some (if l = 0 then x else before nodes ns key 0, map (before nodes ns key) [0..<l] @ upd)"
  using assms
proof (induction l arbitrary: x upd)
  case (Suc l)
  have w: "walk nodes l key x = Some (before nodes ns key l)" using Suc.prems by (intro walk_level) auto
  have "l > 0 \<Longrightarrow> before nodes ns key l \<in> set (0 # filter (\<lambda>n. nkey nodes n < key) (level_nodes nodes ns (l - 1)))"
    using before_lower [of nodes ns key "l - 1"] by simp
  from Suc.IH [OF _ Suc.prems(2) this] Suc.prems(1) w show ?case by auto
qed simp

lemma sk_inv_descend:
  assumes "sk_inv s ns"
  shows "descend (sl_nodes s) key (sl_level s) 0 []
    = Some (before (sl_nodes s) ns key 0, map (before (sl_nodes s) ns key) [0..<sl_level s])"
  using assms descend_levels [of "sl_level s" "sl_nodes s" ns 0 key "[]"] by (auto simp: sk_inv_def Let_def)

text \<open>The node after \<open>before\<close> is the first one with a key that is not smaller.\<close>

lemma linked_before:
  assumes "linked nodes i 0 l" "sorted_wrt (\<lambda>a b. nkey nodes a < nkey nodes b) l"
  shows "forward nodes (last (0 # filter (\<lambda>n. nkey nodes n < key) l)) i
    = Some (case filter (\<lambda>n. \<not> nkey nodes n < key) l of [] \<Rightarrow> None | n # _ \<Rightarrow> Some n)"
proof -
  have split: "l = filter (\<lambda>n. nkey nodes n < key) l @ filter (\<lambda>n. \<not> nkey nodes n < key) l"
    using sorted_cut [OF assms(2), of key] takeWhile_dropWhile_id by metis
  have "forward nodes (last (x # as)) i = Some (case bs of [] \<Rightarrow> None | n # _ \<Rightarrow> Some n)" if "linked nodes i x (as @ bs)" for x as bs
    using that by (induction as arbitrary: x) (auto split: list.split)
  then show ?thesis using assms(1) split by metis
qed

section \<open>The memtable as a sorted list\<close>

definition node_entry :: "skipNode \<Rightarrow> TableEntry" where
  "node_entry n = \<lparr>te_Key = sn_key n, te_Seq = sn_seq n, te_Value = sn_value n, te_Tombstone = sn_tombstone n\<rparr>"

lemma node_entry_key: "te_Key (node_entry n) = sn_key n"
  by (simp add: node_entry_def)

definition sk_entries :: "skipList \<Rightarrow> nat list \<Rightarrow> TableEntry list" where
  "sk_entries s ns = map (\<lambda>n. node_entry (sl_nodes s ! n)) ns"

text \<open>The specification of a write: the record takes the place of the one with its key.\<close>

definition upsert :: "TableEntry \<Rightarrow> TableEntry list \<Rightarrow> TableEntry list" where
  "upsert e es = filter (\<lambda>x. te_Key x < te_Key e) es @ e # filter (\<lambda>x. te_Key e < te_Key x) es"

abbreviation sorted_keys :: "TableEntry list \<Rightarrow> bool" where
  "sorted_keys es \<equiv> sorted_wrt (\<lambda>a b. te_Key a < te_Key b) es"

lemma sorted_keys_upsert: "sorted_keys es \<Longrightarrow> sorted_keys (upsert e es)"
  by (auto simp: upsert_def sorted_wrt_append sorted_wrt_filter dest: less_trans)

lemma newest_upsert: "newest key (upsert e es) = (if key = te_Key e then Some e else newest key es)"
proof (cases "key = te_Key e")
  case True
  then have "newest key (filter (\<lambda>x. te_Key x < te_Key e) es) = None" by (auto simp: newest_None)
  then show ?thesis using True by (simp add: upsert_def newest_append) (simp add: newest_def)
next
  case False
  have sub: "newest key (filter P es) = newest key es" if "\<And>x. te_Key x = key \<Longrightarrow> P x" for P
    using that by (induction es) (auto simp: newest_def)
  have e: "newest key (e # xs) = newest key xs" for xs using False by (simp add: newest_def)
  consider "key < te_Key e" | "te_Key e < key" using False by (meson linorder_neqE)
  then show ?thesis
  proof cases
    case 1
    then have "newest key (filter (\<lambda>x. te_Key e < te_Key x) es) = None" by (auto simp: newest_None)
    then show ?thesis using sub [of "\<lambda>x. te_Key x < te_Key e"] 1 False by (simp add: upsert_def newest_append e split: option.split)
  next
    case 2
    then have "newest key (filter (\<lambda>x. te_Key x < te_Key e) es) = None" by (auto simp: newest_None)
    then show ?thesis using sub [of "\<lambda>x. te_Key e < te_Key x"] 2 False by (simp add: upsert_def newest_append e)
  qed
qed

lemma level_zero: "sk_inv s ns \<Longrightarrow> level_nodes (sl_nodes s) ns 0 = ns"
  by (auto simp: sk_inv_def level_nodes_def Let_def filter_id_conv)

lemma sk_inv_linked:
  assumes "sk_inv s ns"
  shows "linked (sl_nodes s) 0 0 ns"
proof -
  have "linked (sl_nodes s) 0 0 (level_nodes (sl_nodes s) ns 0)" using assms by (simp add: sk_inv_def Let_def maxHeight_def)
  then show ?thesis by (simp add: level_zero [OF assms])
qed

lemma sk_inv_sorted: "sk_inv s ns \<Longrightarrow> sorted_keys (sk_entries s ns)"
  by (auto simp: sk_inv_def sk_entries_def node_entry_def sorted_wrt_map Let_def)

lemma sk_search:
  assumes "sk_inv s ns"
  shows "forward (sl_nodes s) (before (sl_nodes s) ns key 0) 0
    = Some (case filter (\<lambda>n. \<not> nkey (sl_nodes s) n < key) ns of [] \<Rightarrow> None | n # _ \<Rightarrow> Some n)"
proof -
  have "sorted_wrt (\<lambda>a b. nkey (sl_nodes s) a < nkey (sl_nodes s) b) ns" using assms by (simp add: sk_inv_def Let_def)
  from linked_before [OF sk_inv_linked [OF assms] this] show ?thesis by (simp add: before_def level_zero [OF assms])
qed

lemma newest_search:
  assumes "sk_inv s ns"
  shows "newest key (sk_entries s ns) =
    (case filter (\<lambda>n. \<not> nkey (sl_nodes s) n < key) ns of
       [] \<Rightarrow> None | n # _ \<Rightarrow> if nkey (sl_nodes s) n = key then Some (node_entry (sl_nodes s ! n)) else None)"
proof -
  have "sorted_wrt (\<lambda>a b. nkey (sl_nodes s) a < nkey (sl_nodes s) b) ns" using assms by (simp add: sk_inv_def Let_def)
  then show ?thesis
  proof (induction ns)
    case (Cons n ns)
    show ?case
    proof (cases "nkey (sl_nodes s) n < key")
      case False
      have "newest key (sk_entries s ns) = None" if "nkey (sl_nodes s) n \<noteq> key"
        using Cons.prems that False by (auto simp: newest_None sk_entries_def node_entry_def)
      with False show ?thesis by (auto simp: sk_entries_def newest_def node_entry_def)
    next
      case True
      then show ?thesis using Cons by (auto simp: sk_entries_def newest_def node_entry_def)
    qed
  qed (simp add: sk_entries_def newest_def)
qed

lemma sl_get_ok:
  assumes "sk_inv s ns"
  shows "sl_get key s = Some (map_option (\<lambda>e. (te_Value e, te_Tombstone e, te_Seq e)) (newest key (sk_entries s ns)))"
  unfolding sl_get_def sk_inv_descend [OF assms] newest_search [OF assms]
  by (auto simp: sk_search [OF assms] node_entry_def Let_def split: list.split)

section \<open>Iteration\<close>

fun each_entry :: "(bytes \<Rightarrow> bytes \<Rightarrow> bool \<Rightarrow> u64 \<Rightarrow> 's \<Rightarrow> 's \<times> bool) \<Rightarrow> TableEntry list \<Rightarrow> 's \<Rightarrow> 's" where
  "each_entry fn [] st = st"
| "each_entry fn (e # es) st =
     (case fn (te_Key e) (te_Value e) (te_Tombstone e) (te_Seq e) st of (st', go) \<Rightarrow> if go then each_entry fn es st' else st')"

lemma forEach_from_None: "forEach_from nodes fn None st = Some st"
  by (subst forEach_from.simps) simp

lemma forEach_from_ok:
  "linked nodes 0 x ys \<Longrightarrow> forEach_from nodes fn (Some x) st
     = Some (each_entry fn (map (\<lambda>n. node_entry (nodes ! n)) (x # ys)) st)"
proof (induction ys arbitrary: x st)
  case Nil
  then show ?case by (subst forEach_from.simps) (auto simp: node_entry_def forEach_from_None split: prod.split)
next
  case (Cons y ys)
  then show ?case by (subst forEach_from.simps) (auto simp: node_entry_def split: prod.split)
qed

lemma forEach_ok:
  assumes "sk_inv s ns"
  shows "forEach fn s st = Some (each_entry fn (sk_entries s ns) st)"
proof -
  show ?thesis
    using sk_inv_linked [OF assms] by (cases ns) (auto simp: forEach_def sk_entries_def forEach_from_ok forEach_from_None)
qed

section \<open>Writing\<close>

lemma forward_append: "x < length nodes \<Longrightarrow> forward (nodes @ extra) x i = forward nodes x i"
  by (simp add: forward_def nth_append)

lemma linked_cong:
  assumes "\<And>y. y \<in> set (x # ys) \<Longrightarrow> forward nodes' y i = forward nodes y i"
  shows "linked nodes' i x ys = linked nodes i x ys"
  using assms by (induction ys arbitrary: x) auto

lemma linked_insert:
  assumes "linked nodes i x (as @ bs)" "distinct (x # as @ bs)" "a \<notin> set (x # as @ bs)"
    and "\<And>y. y \<noteq> a \<Longrightarrow> y \<noteq> last (x # as) \<Longrightarrow> forward nodes' y i = forward nodes y i"
    and "forward nodes' (last (x # as)) i = Some (Some a)" "forward nodes' a i = forward nodes (last (x # as)) i"
  shows "linked nodes' i x (as @ a # bs)"
  using assms
proof (induction as arbitrary: x)
  case Nil
  have "linked nodes' i a bs"
  proof (cases bs)
    case (Cons b bs')
    have "linked nodes' i b bs' = linked nodes i b bs'"
    proof (rule linked_cong)
      fix y
      assume "y \<in> set (b # bs')"
      then have "y \<noteq> a" "y \<noteq> x" using Nil.prems(2,3) Cons by auto
      then show "forward nodes' y i = forward nodes y i" using Nil.prems(4) by simp
    qed
    then show ?thesis using Nil.prems Cons by simp
  qed (use Nil.prems in simp)
  then show ?case using Nil.prems by simp
next
  case (Cons c as)
  have "x \<noteq> last (c # as)" using Cons.prems(2) by (metis distinct.simps(2) append_Cons in_set_conv_decomp last_in_set list.discI set_append Un_iff)
  moreover have "x \<noteq> a" using Cons.prems(3) by auto
  ultimately have "forward nodes' x i = forward nodes x i" using Cons.prems(4) [of x] by simp
  moreover have "linked nodes' i c (as @ a # bs)" using Cons.prems by (intro Cons.IH) auto
  ultimately show ?case using Cons.prems(1) by simp
qed

text \<open>What linking a tower does: the listed levels of the new node and of its predecessors change.\<close>

lemma link_ok:
  assumes "a < length nodes" "distinct is"
    and "\<And>i. i \<in> set is \<Longrightarrow> i < length U \<and> i < tower nodes a \<and> U ! i \<noteq> a \<and> U ! i < length nodes \<and> i < tower nodes (U ! i)"
  shows "\<exists>nodes'. link is a U nodes = Some nodes' \<and> length nodes' = length nodes
    \<and> (\<forall>x < length nodes. node_entry (nodes' ! x) = node_entry (nodes ! x) \<and> tower nodes' x = tower nodes x)
    \<and> (\<forall>x i. forward nodes' x i =
         (if i \<in> set is \<and> x = a then forward nodes (U ! i) i else if i \<in> set is \<and> x = U ! i then Some (Some a) else forward nodes x i))"
  using assms
proof (induction "is" arbitrary: nodes)
  case (Cons i "is")
  let ?u = "U ! i"
  have i: "i < length U" "i < tower nodes a" "?u \<noteq> a" "?u < length nodes" "i < tower nodes ?u" using Cons.prems(3) [of i] by auto
  define nx where "nx = sn_forward (nodes ! ?u) ! i"
  have nx: "forward nodes ?u i = Some nx" using i by (simp add: forward_def nx_def)
  define n1 where "n1 = nodes[a := (nodes ! a)\<lparr>sn_forward := (sn_forward (nodes ! a))[i := nx]\<rparr>]"
  define n2 where "n2 = n1[?u := (n1 ! ?u)\<lparr>sn_forward := (sn_forward (n1 ! ?u))[i := Some a]\<rparr>]"
  have len: "length n2 = length nodes" by (simp add: n2_def n1_def)
  have ent: "node_entry (n2 ! x) = node_entry (nodes ! x)" "tower n2 x = tower nodes x" if "x < length nodes" for x
    using that Cons.prems(1) i by (auto simp: n2_def n1_def node_entry_def nth_list_update)
  have fwd: "forward n2 x j = (if j = i \<and> x = a then Some nx else if j = i \<and> x = ?u then Some (Some a) else forward nodes x j)" for x j
    using Cons.prems(1) i by (auto simp: forward_def n2_def n1_def nth_list_update)
  have "\<exists>nodes'. link is a U n2 = Some nodes' \<and> length nodes' = length n2
    \<and> (\<forall>x < length n2. node_entry (nodes' ! x) = node_entry (n2 ! x) \<and> tower nodes' x = tower n2 x)
    \<and> (\<forall>x j. forward nodes' x j =
         (if j \<in> set is \<and> x = a then forward n2 (U ! j) j else if j \<in> set is \<and> x = U ! j then Some (Some a) else forward n2 x j))"
    by (rule Cons.IH) (use Cons.prems ent len in \<open>auto\<close>)
  moreover have "link (i # is) a U nodes = link is a U n2" using i nx by (simp add: n1_def n2_def Let_def)
  moreover have "i \<notin> set is" using Cons.prems(2) by simp
  ultimately show ?case using ent len nx by (auto simp: fwd)
qed simp

lemma before_at:
  assumes "sk_inv s ns" "i < maxHeight"
  shows "before (sl_nodes s) ns key i < length (sl_nodes s)" "i < tower (sl_nodes s) (before (sl_nodes s) ns key i)"
    "i \<ge> sl_level s \<Longrightarrow> before (sl_nodes s) ns key i = 0"
proof -
  have "before (sl_nodes s) ns key i \<in> set (0 # filter (\<lambda>n. nkey (sl_nodes s) n < key) (level_nodes (sl_nodes s) ns i))"
    unfolding before_def by (metis last_in_set list.discI)
  then have "before (sl_nodes s) ns key i = 0 \<or> before (sl_nodes s) ns key i \<in> set (level_nodes (sl_nodes s) ns i)" by auto
  then show "before (sl_nodes s) ns key i < length (sl_nodes s)" "i < tower (sl_nodes s) (before (sl_nodes s) ns key i)"
    using assms by (auto simp: sk_inv_def Let_def level_nodes_def)
  assume "i \<ge> sl_level s"
  then have "level_nodes (sl_nodes s) ns i = []" using assms by (fastforce simp: sk_inv_def Let_def level_nodes_def filter_empty_conv)
  then show "before (sl_nodes s) ns key i = 0" by (simp add: before_def)
qed

text \<open>Inserting a new tower keeps every level linked.\<close>

lemma linked_levels:
  assumes I: "sk_inv s ns" and a: "a = length (sl_nodes s)"
    and len: "length nodes' = Suc a" and tw: "tower nodes' a = h" "\<And>x. x < a \<Longrightarrow> tower nodes' x = tower (sl_nodes s) x"
    and key: "\<And>x. x < a \<Longrightarrow> nkey nodes' x = nkey (sl_nodes s) x"
    and fwd: "\<And>x i. i < maxHeight \<Longrightarrow> forward nodes' x i =
         (if i < h \<and> x = a then forward (sl_nodes s) (before (sl_nodes s) ns key i) i
          else if i < h \<and> x = before (sl_nodes s) ns key i then Some (Some a)
          else if x = a then None else forward (sl_nodes s) x i)"
    and i: "i < maxHeight"
  shows "linked nodes' i 0 (level_nodes nodes' (filter (\<lambda>n. nkey (sl_nodes s) n < key) ns @ a # filter (\<lambda>n. \<not> nkey (sl_nodes s) n < key) ns) i)"
proof -
  let ?nodes = "sl_nodes s" and ?P = "\<lambda>n. nkey (sl_nodes s) n < key"
  let ?l = "level_nodes ?nodes ns i"
  have ns: "\<And>n. n \<in> set (0 # ns) \<Longrightarrow> n < a" "distinct (0 # ns)" and lk: "linked ?nodes i 0 ?l"
    and sorted: "sorted_wrt (\<lambda>a b. nkey ?nodes a < nkey ?nodes b) ?l"
    using I a i by (auto simp: sk_inv_def Let_def intro!: sorted_level)
  have lv: "level_nodes nodes' (filter ?P ns @ a # filter (\<lambda>n. \<not> ?P n) ns) i
      = (if i < h then filter ?P ?l @ a # filter (\<lambda>n. \<not> ?P n) ?l else filter ?P ?l @ filter (\<lambda>n. \<not> ?P n) ?l)"
  proof -
    have eq: "filter (\<lambda>n. i < tower nodes' n) (filter Q ns) = filter Q ?l" for Q
      using ns(1) tw(2) by (auto simp: level_nodes_def intro!: filter_cong)
    show ?thesis by (simp add: level_nodes_def tw(1) eq [unfolded level_nodes_def] del: filter_filter)
  qed
  have split: "filter ?P ?l @ filter (\<lambda>n. \<not> ?P n) ?l = ?l"
    using sorted_cut [OF sorted, of key] takeWhile_dropWhile_id by metis
  have mem: "n \<in> set (0 # ?l) \<Longrightarrow> n < a" for n using ns(1) by (auto simp: level_nodes_def)
  show ?thesis
  proof (cases "i < h")
    case True
    have "distinct (0 # filter ?P ?l @ filter (\<lambda>n. \<not> ?P n) ?l)" "a \<notin> set (0 # filter ?P ?l @ filter (\<lambda>n. \<not> ?P n) ?l)"
      unfolding split using ns mem by (auto simp: level_nodes_def)
    moreover have "last (0 # filter ?P ?l) = before ?nodes ns key i" by (simp add: before_def)
    moreover have "before ?nodes ns key i \<noteq> a" using before_at(1) [OF I i, of key] a by simp
    ultimately have "linked nodes' i 0 (filter ?P ?l @ a # filter (\<lambda>n. \<not> ?P n) ?l)"
      using True i lk fwd [OF i] by (intro linked_insert [of ?nodes]) (simp_all add: split)
    then show ?thesis by (simp add: lv True)
  next
    case False
    have "linked nodes' i 0 ?l"
      using lk by (subst linked_cong [of _ _ _ _ ?nodes]) (use mem fwd [OF i] False in auto)
    then show ?thesis by (simp add: lv False split)
  qed
qed

definition put_addresses :: "skipList \<Rightarrow> bytes \<Rightarrow> nat list \<Rightarrow> nat list" where
  "put_addresses s key ns = filter (\<lambda>n. nkey (sl_nodes s) n < key) ns @ length (sl_nodes s) # filter (\<lambda>n. \<not> nkey (sl_nodes s) n < key) ns"

lemma insert_inv:
  assumes I: "sk_inv s ns" and new: "\<forall>n \<in> set ns. nkey (sl_nodes s) n \<noteq> key" and h: "1 \<le> h" "h \<le> maxHeight"
    and N: "length nodes' = Suc (length (sl_nodes s))" "tower nodes' (length (sl_nodes s)) = h"
      "\<And>x. x < length (sl_nodes s) \<Longrightarrow> tower nodes' x = tower (sl_nodes s) x"
      "\<And>x. x < length (sl_nodes s) \<Longrightarrow> nkey nodes' x = nkey (sl_nodes s) x" "nkey nodes' (length (sl_nodes s)) = key"
    and lk: "\<And>i. i < maxHeight \<Longrightarrow> linked nodes' i 0 (level_nodes nodes' (put_addresses s key ns) i)"
  shows "sk_inv \<lparr>sl_nodes = nodes', sl_level = max h (sl_level s), sl_draws = d\<rparr> (put_addresses s key ns)"
proof -
  let ?a = "length (sl_nodes s)" and ?ns = "put_addresses s key ns"
  have ns: "\<And>n. n \<in> set (0 # ns) \<Longrightarrow> n < ?a" "distinct (0 # ns)" "length ns + 1 = ?a"
    and sorted: "sorted_wrt (\<lambda>a b. nkey (sl_nodes s) a < nkey (sl_nodes s) b) ns"
    using I by (auto simp: sk_inv_def Let_def)
  have set: "set ?ns = insert ?a (set ns)" by (auto simp: put_addresses_def)
  have "distinct (0 # ?ns)" "length ?ns + 1 = Suc ?a"
    using ns sum_length_filter_compl [of "\<lambda>n. nkey (sl_nodes s) n < key" ns] by (auto simp: put_addresses_def)
  moreover have "sorted_wrt (\<lambda>a b. nkey nodes' a < nkey nodes' b) ?ns"
  proof -
    have k: "nkey nodes' n = nkey (sl_nodes s) n" if "n \<in> set ns" for n using N(4) ns(1) that by simp
    have "sorted_wrt (\<lambda>a b. nkey nodes' a < nkey nodes' b) (filter Q ns)" for Q
      using sorted_wrt_filter [OF sorted, of Q] by (rule sorted_wrt_mono_rel [rotated]) (simp add: k)
    then show ?thesis using new
      by (auto simp: put_addresses_def sorted_wrt_append N(5) k dest: less_trans le_neq_trans simp: not_less)
  qed
  ultimately show ?thesis
    using I h N ns(1) lk by (auto simp: sk_inv_def Let_def set less_Suc_eq)
qed

lemma sk_entries_put:
  assumes I: "sk_inv s ns" and new: "\<forall>n \<in> set ns. nkey (sl_nodes s) n \<noteq> key"
    and ent: "\<And>x. x < length (sl_nodes s) \<Longrightarrow> node_entry (nodes' ! x) = node_entry (sl_nodes s ! x)"
      "node_entry (nodes' ! length (sl_nodes s)) = e" and key: "te_Key e = key"
  shows "map (\<lambda>n. node_entry (nodes' ! n)) (put_addresses s key ns) = upsert e (sk_entries s ns)"
proof -
  have old: "map (\<lambda>n. node_entry (nodes' ! n)) (filter Q ns) = map (\<lambda>n. node_entry (sl_nodes s ! n)) (filter Q ns)" for Q
    using I ent(1) by (auto simp: sk_inv_def Let_def)
  have "filter (\<lambda>n. \<not> nkey (sl_nodes s) n < key) ns = filter (\<lambda>n. key < nkey (sl_nodes s) n) ns"
    using new by (auto intro!: filter_cong simp: not_less le_less)
  then show ?thesis
    by (simp add: put_addresses_def upsert_def sk_entries_def old ent(2) key filter_map o_def node_entry_key)
qed

text \<open>Replacing value, tombstone and number of a node in place.\<close>

lemma update_inv:
  assumes I: "sk_inv s ns" and y: "y \<in> set ns" and key: "nkey (sl_nodes s) y = key"
    and N: "nodes' = (sl_nodes s)[y := (sl_nodes s ! y)\<lparr>sn_value := v, sn_tombstone := tb, sn_seq := sq\<rparr>]"
  shows "sk_inv (s\<lparr>sl_nodes := nodes'\<rparr>) ns"
    and "sk_entries (s\<lparr>sl_nodes := nodes'\<rparr>) ns = upsert \<lparr>te_Key = key, te_Seq = sq, te_Value = v, te_Tombstone = tb\<rparr> (sk_entries s ns)"
proof -
  have yl: "y < length (sl_nodes s)" using I y by (auto simp: sk_inv_def Let_def)
  have f: "tower nodes' x = tower (sl_nodes s) x" "nkey nodes' x = nkey (sl_nodes s) x" "forward nodes' x i = forward (sl_nodes s) x i" for x i
    using yl by (cases "x = y"; simp add: N forward_def)+
  have lv: "level_nodes nodes' ns i = level_nodes (sl_nodes s) ns i" for i by (simp add: level_nodes_def f)
  have lk: "linked nodes' i x ys = linked (sl_nodes s) i x ys" for i x ys by (rule linked_cong) (simp add: f)
  show "sk_inv (s\<lparr>sl_nodes := nodes'\<rparr>) ns" using I by (simp add: sk_inv_def Let_def f lv lk) (simp add: N)
  obtain as bs where ns: "ns = as @ y # bs" using y by (meson split_list)
  have d: "y \<notin> set as" "y \<notin> set bs" "y < length (sl_nodes s)"
    and lt: "\<forall>n \<in> set as. nkey (sl_nodes s) n < key" "\<forall>n \<in> set bs. key < nkey (sl_nodes s) n"
    using I key by (auto simp: sk_inv_def Let_def ns sorted_wrt_append)
  let ?g = "\<lambda>n. node_entry (sl_nodes s ! n)" and ?e = "\<lparr>te_Key = key, te_Seq = sq, te_Value = v, te_Tombstone = tb\<rparr>"
  have F: "filter (\<lambda>n. nkey (sl_nodes s) n < key) ns = as" "filter (\<lambda>n. key < nkey (sl_nodes s) n) ns = bs"
    using lt key by (auto simp: ns filter_id_conv filter_empty_conv dest: less_asym)
  have "upsert ?e (sk_entries s ns) = map ?g as @ ?e # map ?g bs"
    by (simp add: upsert_def sk_entries_def filter_map o_def node_entry_key F)
  moreover have "map (\<lambda>n. node_entry (nodes' ! n)) xs = map ?g xs" if "y \<notin> set xs" for xs
  proof (rule map_cong [OF refl])
    fix x
    assume "x \<in> set xs"
    with that have "y \<noteq> x" by auto
    then show "node_entry (nodes' ! x) = ?g x" by (simp add: N)
  qed
  moreover have "node_entry (nodes' ! y) = ?e" using yl key by (simp add: N node_entry_def)
  ultimately show "sk_entries (s\<lparr>sl_nodes := nodes'\<rparr>) ns = upsert ?e (sk_entries s ns)"
    using d(1,2) by (simp add: sk_entries_def ns)
qed

text \<open>The contract of \<open>put\<close>: it returns, and the record is taken unless a newer or equal one is there.\<close>

definition put_entries :: "TableEntry \<Rightarrow> TableEntry list \<Rightarrow> TableEntry list \<times> bool" where
  "put_entries e es =
     (case newest (te_Key e) es of
        Some old \<Rightarrow> if te_Seq e \<le> te_Seq old then (es, False) else (upsert e es, True)
      | None \<Rightarrow> (upsert e es, True))"

lemma sl_put_new:
  assumes I: "sk_inv s ns" and new: "\<forall>n \<in> set ns. nkey (sl_nodes s) n \<noteq> key"
    and H: "randomHeight rnd maxHeight towerInverseP (sl_draws s) = (h, d)"
  shows "\<exists>nodes'. sl_put rnd key v tb sq s = Some (\<lparr>sl_nodes = nodes', sl_level = max h (sl_level s), sl_draws = d\<rparr>, True)
    \<and> sk_inv \<lparr>sl_nodes = nodes', sl_level = max h (sl_level s), sl_draws = d\<rparr> (put_addresses s key ns)
    \<and> sk_entries \<lparr>sl_nodes = nodes', sl_level = max h (sl_level s), sl_draws = d\<rparr> (put_addresses s key ns)
        = upsert \<lparr>te_Key = key, te_Seq = sq, te_Value = v, te_Tombstone = tb\<rparr> (sk_entries s ns)"
proof -
  let ?nodes = "sl_nodes s" and ?a = "length (sl_nodes s)" and ?B = "before (sl_nodes s) ns key"
  let ?node = "\<lparr>sn_key = key, sn_value = v, sn_tombstone = tb, sn_seq = sq, sn_forward = replicate h None\<rparr>"
  define U where "U = (if h > sl_level s then map ?B [0..<sl_level s] @ replicate (h - sl_level s) 0 else map ?B [0..<sl_level s])"
  have h: "1 \<le> h" "h \<le> maxHeight" using randomHeight_bounds [of maxHeight rnd towerInverseP "sl_draws s"] H by (auto simp: maxHeight_def)
  have U: "i < length U \<and> U ! i = ?B i" if "i < h" for i
    using that before_at(3) [OF I, of i key] h(2) by (auto simp: U_def nth_append)
  have B: "?B i < ?a" "i < tower ?nodes (?B i)" if "i < h" for i using before_at(1,2) [OF I, of i key] that h(2) by auto
  have "\<exists>nodes'. link [0..<h] ?a U (?nodes @ [?node]) = Some nodes' \<and> length nodes' = length (?nodes @ [?node])
    \<and> (\<forall>x < length (?nodes @ [?node]). node_entry (nodes' ! x) = node_entry ((?nodes @ [?node]) ! x) \<and> tower nodes' x = tower (?nodes @ [?node]) x)
    \<and> (\<forall>x i. forward nodes' x i = (if i \<in> set [0..<h] \<and> x = ?a then forward (?nodes @ [?node]) (U ! i) i
         else if i \<in> set [0..<h] \<and> x = U ! i then Some (Some ?a) else forward (?nodes @ [?node]) x i))"
  proof (rule link_ok)
    fix i
    assume "i \<in> set [0..<h]"
    then have "i < h" by simp
    from U [OF this] B [OF this] \<open>i < h\<close> show "i < length U \<and> i < tower (?nodes @ [?node]) ?a \<and> U ! i \<noteq> ?a
        \<and> U ! i < length (?nodes @ [?node]) \<and> i < tower (?nodes @ [?node]) (U ! i)"
      by (simp add: nth_append)
  qed simp_all
  then obtain nodes' where L: "link [0..<h] ?a U (?nodes @ [?node]) = Some nodes'" and len: "length nodes' = Suc ?a"
    and ent: "\<And>x. x \<le> ?a \<Longrightarrow> node_entry (nodes' ! x) = node_entry ((?nodes @ [?node]) ! x)"
      "\<And>x. x \<le> ?a \<Longrightarrow> tower nodes' x = tower (?nodes @ [?node]) x"
    and fwd: "\<And>x i. forward nodes' x i = (if i < h \<and> x = ?a then forward (?nodes @ [?node]) (U ! i) i
         else if i < h \<and> x = U ! i then Some (Some ?a) else forward (?nodes @ [?node]) x i)"
    by (auto simp: less_Suc_eq_le)
  have e: "x < ?a \<Longrightarrow> node_entry (nodes' ! x) = node_entry (?nodes ! x)" "node_entry (nodes' ! ?a) = node_entry ?node"
    "x < ?a \<Longrightarrow> tower nodes' x = tower ?nodes x" "tower nodes' ?a = h" for x
    using ent [of x] ent [of ?a] by (auto simp: nth_append)
  have k: "nkey nodes' x = nkey ?nodes x" if "x < ?a" for x
    using arg_cong [OF e(1) [OF that], of te_Key] by (simp add: node_entry_key)
  have ka: "nkey nodes' ?a = key" using arg_cong [OF e(2), of te_Key] by (simp add: node_entry_key)
  have f: "forward nodes' x i = (if i < h \<and> x = ?a then forward ?nodes (?B i) i else if i < h \<and> x = ?B i then Some (Some ?a)
      else if x = ?a then None else forward ?nodes x i)" for x i
  proof -
    have fa: "y \<noteq> ?a \<Longrightarrow> forward (?nodes @ [?node]) y i = forward ?nodes y i" for y by (simp add: forward_def nth_append)
    have "\<not> i < h \<Longrightarrow> forward (?nodes @ [?node]) ?a i = None" by (simp add: forward_def)
    then show ?thesis using U [of i] B(1) [of i] fa [of x] fa [of "?B i"] by (cases "i < h") (simp_all add: fwd)
  qed
  have "linked nodes' i 0 (level_nodes nodes' (put_addresses s key ns) i)" if "i < maxHeight" for i
    unfolding put_addresses_def by (rule linked_levels [OF I refl len e(4,3) k f that])
  then have inv: "sk_inv \<lparr>sl_nodes = nodes', sl_level = max h (sl_level s), sl_draws = d\<rparr> (put_addresses s key ns)"
    by (intro insert_inv [OF I new h len e(4,3) k ka])
  have nx: "(case filter (\<lambda>n. \<not> nkey ?nodes n < key) ns of [] \<Rightarrow> None | n # _ \<Rightarrow> if nkey ?nodes n = key then Some n else None) = None"
  proof (cases "filter (\<lambda>n. \<not> nkey ?nodes n < key) ns")
    case (Cons n r)
    have "n \<in> set (filter (\<lambda>n. \<not> nkey ?nodes n < key) ns)" unfolding Cons by simp
    then have "n \<in> set ns" by simp
    with new Cons show ?thesis by simp
  qed simp
  have "sl_put rnd key v tb sq s = Some (\<lparr>sl_nodes = nodes', sl_level = max h (sl_level s), sl_draws = d\<rparr>, True)"
    using L nx unfolding sl_put_def sk_inv_descend [OF I] U_def
    by (auto simp: sk_search [OF I] H max_def split: list.splits)
  moreover have "sk_entries \<lparr>sl_nodes = nodes', sl_level = max h (sl_level s), sl_draws = d\<rparr> (put_addresses s key ns)
      = upsert \<lparr>te_Key = key, te_Seq = sq, te_Value = v, te_Tombstone = tb\<rparr> (sk_entries s ns)"
    using sk_entries_put [OF I new e(1,2)] by (simp add: sk_entries_def node_entry_def)
  ultimately show ?thesis using inv by blast
qed

lemma sl_put_ok:
  assumes I: "sk_inv s ns"
  shows "\<exists>s' ns' r. sl_put rnd key v tb sq s = Some (s', r) \<and> sk_inv s' ns'
    \<and> (sk_entries s' ns', r) = put_entries \<lparr>te_Key = key, te_Seq = sq, te_Value = v, te_Tombstone = tb\<rparr> (sk_entries s ns)"
proof (cases "newest key (sk_entries s ns)")
  case None
  then have new: "\<forall>n \<in> set ns. nkey (sl_nodes s) n \<noteq> key" by (auto simp: newest_None sk_entries_def node_entry_key image_image)
  obtain h d where "randomHeight rnd maxHeight towerInverseP (sl_draws s) = (h, d)" by fastforce
  from sl_put_new [OF I new this, of v tb sq] show ?thesis
    by (elim exE conjE) (intro exI conjI, assumption, assumption, simp add: put_entries_def None)
next
  case (Some e)
  from Some obtain y ys where Cons: "filter (\<lambda>n. \<not> nkey (sl_nodes s) n < key) ns = y # ys" and True: "nkey (sl_nodes s) y = key"
    and e: "e = node_entry (sl_nodes s ! y)"
    by (auto simp: newest_search [OF I] split: list.splits if_splits)
  have "y \<in> set (filter (\<lambda>n. \<not> nkey (sl_nodes s) n < key) ns)" by (simp add: Cons)
  then have y: "y \<in> set ns" by simp
  show ?thesis
  proof (cases "sq \<le> sn_seq (sl_nodes s ! y)")
    case le: True
    then have "sl_put rnd key v tb sq s = Some (s, False)"
      unfolding sl_put_def sk_inv_descend [OF I] by (simp add: sk_search [OF I] Cons True)
    then show ?thesis using I le by (auto simp: put_entries_def Some e node_entry_def)
  next
    case gt: False
    let ?n = "(sl_nodes s)[y := (sl_nodes s ! y)\<lparr>sn_value := v, sn_tombstone := tb, sn_seq := sq\<rparr>]"
    have "sl_put rnd key v tb sq s = Some (s\<lparr>sl_nodes := ?n\<rparr>, True)"
      using gt unfolding sl_put_def sk_inv_descend [OF I] by (simp add: sk_search [OF I] Cons True)
    with update_inv [OF I y True refl, where v = v and tb = tb and sq = sq] gt show ?thesis
      by (intro exI [of _ "s\<lparr>sl_nodes := ?n\<rparr>"] exI [of _ ns] exI [of _ True]) (simp add: put_entries_def Some e node_entry_def)
  qed
qed

section \<open>The memtable interface\<close>

text \<open>What the engine relies on: a table with sorted entries, point reads and guarded writes.\<close>

locale memtable =
  fixes mem_inv :: "'m \<Rightarrow> bool"
    and entries :: "'m \<Rightarrow> TableEntry list"
    and lookup :: "bytes \<Rightarrow> 'm \<Rightarrow> (bytes \<times> bool \<times> u64) option option"
    and store :: "bytes \<Rightarrow> bytes \<Rightarrow> bool \<Rightarrow> u64 \<Rightarrow> 'm \<Rightarrow> ('m \<times> bool) option"
  assumes entries_sorted: "mem_inv m \<Longrightarrow> sorted_keys (entries m)"
    and lookup_ok: "mem_inv m \<Longrightarrow> lookup key m = Some (map_option (\<lambda>e. (te_Value e, te_Tombstone e, te_Seq e)) (newest key (entries m)))"
    and store_ok: "mem_inv m \<Longrightarrow> \<exists>m' r. store key v tb sq m = Some (m', r) \<and> mem_inv m'
      \<and> (entries m', r) = put_entries \<lparr>te_Key = key, te_Seq = sq, te_Value = v, te_Tombstone = tb\<rparr> (entries m)"
begin

fun store_all :: "TableEntry list \<Rightarrow> 'm \<Rightarrow> 'm option" where
  "store_all [] m = Some m"
| "store_all (e # es) m =
     (case store (te_Key e) (te_Value e) (te_Tombstone e) (te_Seq e) m of None \<Rightarrow> None | Some (m', _) \<Rightarrow> store_all es m')"

end

text \<open>The version of a key after a sequence of writes: the one with the highest number, the first among equals.\<close>

definition newer :: "TableEntry option \<Rightarrow> TableEntry \<Rightarrow> TableEntry option" where
  "newer acc e = (case acc of Some old \<Rightarrow> if te_Seq e \<le> te_Seq old then acc else Some e | None \<Rightarrow> Some e)"

definition latest_from :: "TableEntry option \<Rightarrow> bytes \<Rightarrow> TableEntry list \<Rightarrow> TableEntry option" where
  "latest_from acc key es = foldl newer acc (filter (\<lambda>e. te_Key e = key) es)"

lemma newest_put_entries: "newest key (fst (put_entries e es)) = (if te_Key e = key then newer (newest key es) e else newest key es)"
  by (auto simp: put_entries_def newer_def newest_upsert split: option.splits)

context memtable
begin

lemma store_all_latest:
  "mem_inv m \<Longrightarrow> \<exists>m'. store_all es m = Some m' \<and> mem_inv m' \<and> (\<forall>key. newest key (entries m') = latest_from (newest key (entries m)) key es)"
proof (induction es arbitrary: m)
  case (Cons e es)
  obtain m1 r where 1: "store (te_Key e) (te_Value e) (te_Tombstone e) (te_Seq e) m = Some (m1, r)" "mem_inv m1"
    "(entries m1, r) = put_entries e (entries m)"
    using store_ok [OF Cons.prems, of "te_Key e" "te_Value e" "te_Tombstone e" "te_Seq e"] by (cases e) auto
  from 1(3) have "newest key (entries m1) = (if te_Key e = key then newer (newest key (entries m)) e else newest key (entries m))" for key
    using newest_put_entries [of key e "entries m"] by (metis fst_conv)
  with Cons.IH [OF 1(2)] 1(1) show ?case by (auto simp: latest_from_def)
qed (simp add: latest_from_def)

end

text \<open>The skip list has this interface. Its addresses are read off the bottom level.\<close>

primrec collect :: "skipNode list \<Rightarrow> nat \<Rightarrow> nat \<Rightarrow> nat list" where
  "collect nodes 0 x = []"
| "collect nodes (Suc k) x = (case forward nodes x 0 of Some (Some y) \<Rightarrow> y # collect nodes k y | _ \<Rightarrow> [])"

definition addresses :: "skipList \<Rightarrow> nat list" where
  "addresses s = collect (sl_nodes s) (length (sl_nodes s)) 0"

definition skip_inv :: "skipList \<Rightarrow> bool" where
  "skip_inv s \<longleftrightarrow> sk_inv s (addresses s)"

definition skip_entries :: "skipList \<Rightarrow> TableEntry list" where
  "skip_entries s = sk_entries s (addresses s)"

lemma collect_linked: "linked nodes 0 x ys \<Longrightarrow> length ys \<le> k \<Longrightarrow> collect nodes k x = ys"
proof (induction ys arbitrary: x k)
  case Nil
  then show ?case by (cases k) auto
next
  case (Cons y ys)
  then show ?case by (cases k) auto
qed

lemma sk_inv_addresses: "sk_inv s ns \<Longrightarrow> addresses s = ns"
  unfolding addresses_def by (rule collect_linked [OF sk_inv_linked]) (auto simp: sk_inv_def Let_def)

interpretation skip: memtable skip_inv skip_entries sl_get "sl_put rnd" for rnd
proof
  fix m key v tb sq
  assume "skip_inv m"
  then have I: "sk_inv m (addresses m)" by (simp add: skip_inv_def)
  show "sorted_keys (skip_entries m)" unfolding skip_entries_def by (rule sk_inv_sorted [OF I])
  show "sl_get key m = Some (map_option (\<lambda>e. (te_Value e, te_Tombstone e, te_Seq e)) (newest key (skip_entries m)))"
    unfolding skip_entries_def by (rule sl_get_ok [OF I])
  from sl_put_ok [OF I, of rnd key v tb sq] show "\<exists>m' r. sl_put rnd key v tb sq m = Some (m', r) \<and> skip_inv m'
      \<and> (skip_entries m', r) = put_entries \<lparr>te_Key = key, te_Seq = sq, te_Value = v, te_Tombstone = tb\<rparr> (skip_entries m)"
    by (auto simp: skip_entries_def skip_inv_def sk_inv_addresses)
qed

lemma skip_inv_new: "skip_inv (newSkipList d)" "skip_entries (newSkipList d) = []"
  using sk_inv_new [of d] by (simp_all add: skip_inv_def skip_entries_def sk_inv_addresses sk_entries_def)

lemma skip_forEach: "skip_inv s \<Longrightarrow> forEach fn s st = Some (each_entry fn (skip_entries s) st)"
  unfolding skip_inv_def skip_entries_def by (rule forEach_ok)

section \<open>Claims\<close>

fun put_all :: "Rand \<Rightarrow> TableEntry list \<Rightarrow> skipList \<Rightarrow> skipList option" where
  "put_all rnd [] s = Some s"
| "put_all rnd (e # es) s =
     (case sl_put rnd (te_Key e) (te_Value e) (te_Tombstone e) (te_Seq e) s of None \<Rightarrow> None | Some (s', _) \<Rightarrow> put_all rnd es s')"

lemma put_all_store_all: "put_all rnd es s = skip.store_all rnd es s"
  by (induction es arbitrary: s) (auto split: option.split)

lemma each_entry_list: "each_entry (\<lambda>k v tb sq st. (st @ [\<lparr>te_Key = k, te_Seq = sq, te_Value = v, te_Tombstone = tb\<rparr>], True)) es st = st @ es"
  by (induction es arbitrary: st) auto

text \<open>C10. The skip list is a sorted map of newest versions. Whatever the tower heights drawn, a
  sequence of writes to an empty skip list never fails or runs forever, a lookup then returns for
  every key the version with the highest sequence number (a delete counts as a version), and an
  iteration visits the keys in strictly ascending order with exactly these versions.\<close>

theorem skiplist_newest_versions:
  "\<exists>s l. put_all rnd es (newSkipList d) = Some s
    \<and> (\<forall>key. sl_get key s = Some (map_option (\<lambda>e. (te_Value e, te_Tombstone e, te_Seq e)) (latest_from None key es)))
    \<and> forEach (\<lambda>k v tb sq st. (st @ [\<lparr>te_Key = k, te_Seq = sq, te_Value = v, te_Tombstone = tb\<rparr>], True)) s [] = Some l
    \<and> sorted_keys l \<and> (\<forall>key. newest key l = latest_from None key es)"
proof -
  from skip.store_all_latest [OF skip_inv_new(1), of rnd es d] obtain s where
    s: "put_all rnd es (newSkipList d) = Some s" "skip_inv s" "\<And>key. newest key (skip_entries s) = latest_from None key es"
    by (auto simp: put_all_store_all skip_inv_new(2) newest_def)
  show ?thesis
    by (intro exI [of _ s] exI [of _ "skip_entries s"])
      (simp add: s skip.lookup_ok skip.entries_sorted skip_forEach each_entry_list)
qed

end
