(* ===== verification/Std_Path.thy ===== *)
theory Std_Path
  imports MQ_Prelude "HOL-Library.Char_ord" "HOL-Library.Sublist"
begin

text \<open>
  The part of Go's \<open>path/filepath\<close> (on Unix) and \<open>strings\<close> that the storage packages call:
  \<open>Clean\<close>, \<open>Base\<close>, \<open>Dir\<close>, \<open>Join\<close>, \<open>HasSuffix\<close>, \<open>TrimSuffix\<close> and \<open>ContainsAny\<close>. A Go string is a
  byte string and so is a HOL string. The lemmas compute these functions on the paths the code
  builds: a plain file name joined to a directory.
\<close>

section \<open>Components of a path\<close>

abbreviation slash :: char where "slash \<equiv> CHR ''/''"

fun components :: "string \<Rightarrow> string list" where
  "components [] = [[]]"
| "components (c # cs) =
     (if c = slash then [] # components cs
      else case components cs of [] \<Rightarrow> [[c]] | p # ps \<Rightarrow> (c # p) # ps)"

text \<open>The stack of \<open>Clean\<close>, its top first.\<close>

definition clean_step :: "bool \<Rightarrow> string \<Rightarrow> string list \<Rightarrow> string list" where
  "clean_step rooted c stack =
     (if c = [] \<or> c = ''.'' then stack
      else if c = ''..'' then
        (case stack of
           [] \<Rightarrow> if rooted then [] else [''..'']
         | upper # below \<Rightarrow> if upper = ''..'' then ''..'' # stack else below)
      else c # stack)"

definition rooted_path :: "string \<Rightarrow> bool" where
  "rooted_path p \<longleftrightarrow> p \<noteq> [] \<and> hd p = slash"

definition clean_stack :: "string \<Rightarrow> string list" where
  "clean_stack p = fold (clean_step (rooted_path p)) (components p) []"

fun join_slash :: "string list \<Rightarrow> string" where
  "join_slash [] = []"
| "join_slash [c] = c"
| "join_slash (c # cs) = c @ slash # join_slash cs"

definition render_path :: "bool \<Rightarrow> string list \<Rightarrow> string" where
  "render_path rooted cs = (if rooted then slash # join_slash cs else if cs = [] then ''.'' else join_slash cs)"

definition Clean :: "string \<Rightarrow> string" where
  "Clean p = render_path (rooted_path p) (rev (clean_stack p))"

definition path_Dir :: "string \<Rightarrow> string" where
  "path_Dir p = Clean (rev (dropWhile (\<lambda>c. c \<noteq> slash) (rev p)))"

definition path_Base :: "string \<Rightarrow> string" where
  "path_Base p =
     (if p = [] then ''.''
      else let stripped = rev (dropWhile (\<lambda>c. c = slash) (rev p));
               name = rev (takeWhile (\<lambda>c. c \<noteq> slash) (rev stripped))
           in if name = [] then [slash] else name)"

definition path_Join :: "string list \<Rightarrow> string" where
  "path_Join elems = (case dropWhile (\<lambda>e. e = []) elems of [] \<Rightarrow> [] | es \<Rightarrow> Clean (join_slash es))"

section \<open>Strings\<close>

definition HasSuffix :: "string \<Rightarrow> string \<Rightarrow> bool" where
  "HasSuffix s suf \<longleftrightarrow> suf = drop (length s - length suf) s"

definition TrimSuffix :: "string \<Rightarrow> string \<Rightarrow> string" where
  "TrimSuffix s suf = (if HasSuffix s suf then take (length s - length suf) s else s)"

definition ContainsAny :: "string \<Rightarrow> string \<Rightarrow> bool" where
  "ContainsAny s cs = list_ex (\<lambda>c. c \<in> set cs) s"

lemma HasSuffix_append [simp]: "HasSuffix (s @ suf) suf"
  by (simp add: HasSuffix_def)

lemma HasSuffixE: "HasSuffix s suf \<Longrightarrow> \<exists>stem. s = stem @ suf"
  unfolding HasSuffix_def by (metis append_take_drop_id)

lemma TrimSuffix_append [simp]: "TrimSuffix (s @ suf) suf = s"
  by (simp add: TrimSuffix_def)

section \<open>Plain file names\<close>

text \<open>A file name: not empty, no separator, neither of the two relative names.\<close>

definition plain_name :: "string \<Rightarrow> bool" where
  "plain_name s \<longleftrightarrow> s \<noteq> [] \<and> slash \<notin> set s \<and> s \<noteq> ''.'' \<and> s \<noteq> ''..''"

lemma components_no_slash: "slash \<notin> set s \<Longrightarrow> components s = [s]"
  by (induction s) auto

lemma components_not_Nil: "components s \<noteq> []"
  by (induction s) (auto split: list.splits)

lemma components_append: "components (s @ slash # t) = components s @ components t"
proof (induction s)
  case (Cons c s)
  then show ?case using components_not_Nil [of s] by (auto split: list.splits)
qed simp

lemma components_elems: "c \<in> set (components s) \<Longrightarrow> slash \<notin> set c"
proof (induction s arbitrary: c)
  case (Cons a s)
  obtain p ps where "components s = p # ps" using components_not_Nil [of s] by (cases "components s") auto
  with Cons show ?case by (auto split: if_splits)
qed simp

lemma clean_step_plain: "plain_name c \<Longrightarrow> clean_step rooted c stack = c # stack"
  by (simp add: clean_step_def plain_name_def)

text \<open>The components of a cleaned path, the last first: parent references only below the names.\<close>

fun good_stack :: "bool \<Rightarrow> string list \<Rightarrow> bool" where
  "good_stack rooted [] = True"
| "good_stack rooted (c # st) \<longleftrightarrow> good_stack rooted st \<and> c \<noteq> [] \<and> slash \<notin> set c \<and> c \<noteq> ''.''
     \<and> (c = ''..'' \<longrightarrow> \<not> rooted \<and> set st \<subseteq> {''..''})"

lemma good_stack_elems: "good_stack rooted st \<Longrightarrow> c \<in> set st \<Longrightarrow> c \<noteq> [] \<and> slash \<notin> set c \<and> c \<noteq> ''.''"
  by (induction st) auto

lemma good_stack_step: "slash \<notin> set c \<Longrightarrow> good_stack rooted st \<Longrightarrow> good_stack rooted (clean_step rooted c st)"
  by (cases st) (auto simp: clean_step_def)

lemma good_stack_fold:
  "(\<And>c. c \<in> set cs \<Longrightarrow> slash \<notin> set c) \<Longrightarrow> good_stack rooted st \<Longrightarrow> good_stack rooted (fold (clean_step rooted) cs st)"
  by (induction cs arbitrary: st) (simp_all add: good_stack_step)

lemma good_clean_stack: "good_stack (rooted_path p) (clean_stack p)"
  unfolding clean_stack_def by (rule good_stack_fold) (auto dest: components_elems)

lemma clean_step_good: "good_stack rooted (c # st) \<Longrightarrow> clean_step rooted c st = c # st"
  by (cases st) (auto simp: clean_step_def)

lemma fold_good_stack: "good_stack rooted st \<Longrightarrow> fold (clean_step rooted) (rev st) [] = st"
proof (induction st)
  case (Cons c st)
  from Cons.prems have "good_stack rooted st" by simp
  with Cons show ?case using clean_step_good [of rooted c st] by simp
qed simp

lemma components_join_slash: "cs \<noteq> [] \<Longrightarrow> (\<And>c. c \<in> set cs \<Longrightarrow> slash \<notin> set c) \<Longrightarrow> components (join_slash cs) = cs"
  by (induction cs rule: join_slash.induct) (simp_all add: components_append components_no_slash)

lemma join_slash_snoc: "cs \<noteq> [] \<Longrightarrow> join_slash (cs @ [c]) = join_slash cs @ slash # c"
  by (induction cs rule: join_slash.induct) simp_all

lemma join_slash_hd:
  assumes "\<forall>c \<in> set cs. c \<noteq> [] \<and> slash \<notin> set c" "cs \<noteq> []"
  shows "join_slash cs \<noteq> []" "hd (join_slash cs) \<noteq> slash"
proof -
  obtain c ds where cs: "cs = c # ds" using assms(2) by (cases cs) auto
  have c: "c \<noteq> []" "slash \<notin> set c" using assms(1) cs by auto
  then show "join_slash cs \<noteq> []" "hd (join_slash cs) \<noteq> slash"
    using cs by (cases ds; cases c; auto)+
qed

section \<open>Joining a name to a directory\<close>

lemma Clean_join:
  assumes "dir \<noteq> []" "plain_name name"
  shows "path_Join [dir, name] = render_path (rooted_path dir) (rev (clean_stack dir) @ [name])"
proof -
  have s: "slash \<notin> set name" using assms(2) by (simp add: plain_name_def)
  have r: "rooted_path (dir @ slash # name) = rooted_path dir" using assms(1) by (simp add: rooted_path_def)
  have "clean_stack (dir @ slash # name) = name # clean_stack dir"
    unfolding clean_stack_def r components_append components_no_slash [OF s]
    by (simp add: clean_step_plain [OF assms(2)])
  then show ?thesis using assms(1) r by (simp add: path_Join_def Clean_def)
qed

lemma render_snoc:
  "render_path rooted (cs @ [name]) = (if cs = [] then (if rooted then [slash] else []) else render_path rooted cs @ [slash]) @ name"
  by (auto simp: render_path_def join_slash_snoc)

lemma Join_inject:
  assumes "dir \<noteq> []" "plain_name a" "plain_name b" "path_Join [dir, a] = path_Join [dir, b]"
  shows "a = b"
  using assms(4) unfolding Clean_join [OF assms(1,2)] Clean_join [OF assms(1,3)] render_snoc by simp

lemma takeWhile_name: "slash \<notin> set name \<Longrightarrow> takeWhile (\<lambda>c. c \<noteq> slash) (rev name @ slash # xs) = rev name"
  "slash \<notin> set name \<Longrightarrow> dropWhile (\<lambda>c. c \<noteq> slash) (rev name @ slash # xs) = slash # xs"
  "slash \<notin> set name \<Longrightarrow> takeWhile (\<lambda>c. c \<noteq> slash) (rev name) = rev name"
  "slash \<notin> set name \<Longrightarrow> dropWhile (\<lambda>c. c \<noteq> slash) (rev name) = []"
  by (simp_all add: takeWhile_tail dropWhile_append) (auto simp: takeWhile_eq_all_conv)

lemma not_slash_last: "plain_name name \<Longrightarrow> dropWhile (\<lambda>c. c = slash) (rev name @ xs) = rev name @ xs"
proof -
  assume "plain_name name"
  then have n: "rev name \<noteq> []" "slash \<notin> set (rev name)" by (simp_all add: plain_name_def)
  then obtain c cs where "rev name = c # cs" "c \<noteq> slash" by (cases "rev name") auto
  then show ?thesis by simp
qed

lemma Base_Join:
  assumes "dir \<noteq> []" "plain_name name"
  shows "path_Base (path_Join [dir, name]) = name"
proof -
  have s: "slash \<notin> set name" "name \<noteq> []" using assms(2) by (simp_all add: plain_name_def)
  show ?thesis
    unfolding Clean_join [OF assms] render_snoc path_Base_def Let_def
    using s by (auto simp: not_slash_last [OF assms(2)] not_slash_last [OF assms(2), of "[]", simplified] takeWhile_name)
qed

lemma Base_plain:
  assumes "plain_name name"
  shows "path_Base name = name"
proof -
  have n: "name \<noteq> []" "slash \<notin> set name" using assms by (simp_all add: plain_name_def)
  have "dropWhile (\<lambda>c. c = slash) (rev name) = rev name" using not_slash_last [OF assms, of "[]"] by simp
  then show ?thesis unfolding path_Base_def Let_def by (simp add: takeWhile_name(3) n)
qed

lemma Clean_plain: "plain_name name \<Longrightarrow> Clean name = name"
  by (cases name)
    (auto simp: plain_name_def Clean_def clean_stack_def components_no_slash rooted_path_def clean_step_def render_path_def)

lemma clean_stack_Clean: "rooted_path (Clean p) = rooted_path p" "clean_stack (Clean p) = clean_stack p"
proof -
  let ?cs = "rev (clean_stack p)" and ?r = "rooted_path p"
  have el: "\<forall>c \<in> set ?cs. c \<noteq> [] \<and> slash \<notin> set c"
    using good_stack_elems [OF good_clean_stack [of p]] by auto
  show r: "rooted_path (Clean p) = ?r"
    using join_slash_hd [OF el] by (cases "?cs = []"; cases "?r")
      (simp_all add: Clean_def render_path_def rooted_path_def)
  have "fold (clean_step ?r) (components (Clean p)) [] = fold (clean_step ?r) ?cs []"
  proof (cases "?cs = []")
    case False
    then have "components (join_slash ?cs) = ?cs" using el by (intro components_join_slash) auto
    then show ?thesis using False by (auto simp: Clean_def render_path_def clean_step_def)
  qed (simp add: Clean_def render_path_def clean_step_def)
  then show "clean_stack (Clean p) = clean_stack p"
    using fold_good_stack [OF good_clean_stack [of p]] r by (simp add: clean_stack_def [of "Clean p"])
qed

lemma Clean_idem [simp]: "Clean (Clean p) = Clean p"
  by (simp add: Clean_def [of "Clean p"] clean_stack_Clean) (simp add: Clean_def)

lemma Clean_trailing_slash: "p \<noteq> [] \<Longrightarrow> Clean (p @ [slash]) = Clean p"
  using components_append [of p "[]"]
  by (simp add: Clean_def clean_stack_def rooted_path_def clean_step_def)

lemma Clean_not_Nil: "Clean p \<noteq> []"
proof -
  have "\<forall>c \<in> set (rev (clean_stack p)). c \<noteq> [] \<and> slash \<notin> set c"
    using good_stack_elems [OF good_clean_stack [of p]] by auto
  from join_slash_hd(1) [OF this] show ?thesis by (auto simp: Clean_def render_path_def)
qed

lemma Dir_Join:
  assumes "dir \<noteq> []" "plain_name name"
  shows "path_Dir (path_Join [dir, name]) = Clean dir"
proof -
  have s: "slash \<notin> set name" using assms(2) by (simp add: plain_name_def)
  let ?cs = "rev (clean_stack dir)" and ?r = "rooted_path dir"
  show ?thesis
  proof (cases "?cs = []")
    case True
    then show ?thesis
      unfolding path_Dir_def Clean_join [OF assms] render_snoc
      by (auto simp: takeWhile_name s Clean_def render_path_def clean_stack_def rooted_path_def clean_step_def)
  next
    case False
    then show ?thesis
      unfolding path_Dir_def Clean_join [OF assms] render_snoc
      using Clean_trailing_slash [OF Clean_not_Nil, of dir]
      by (simp add: takeWhile_name s Clean_def [symmetric])
  qed
qed

lemma Clean_Join [simp]: "Clean (path_Join [dir, name]) = path_Join [dir, name]" if "dir \<noteq> []"
  using that by (simp add: path_Join_def)

end
