(* ===== verification/Lsm_Manifest.thy ===== *)
theory Lsm_Manifest
  imports Disklog_Props Lsm_Sstable Map_SM Std_Path "HOL-Library.AList"
begin

text \<open>
  The version manifest of the LSM engine, the pure part of \<open>internal/lsm/manifest.go\<close>: the set of
  referenced tables and the flushed index, the edits that change them, the frames in which edits
  are stored and the replay of a manifest image. The protobuf library is a pair of parameters.
  The lemmas show the invariant every accepted edit keeps, that the manifest's framing is the
  framing of the write-ahead log, and that replay recovers every completely written edit and
  recognises a torn last one.
\<close>

unbundle bit_operations_syntax

section \<open>Files and edits\<close>

record AddedFile =
  af_Tier :: u32
  af_File :: string
  af_MinKey :: bytes
  af_MaxKey :: bytes
  af_Count :: u64

record VersionEdit =
  ve_AddedFiles :: "AddedFile option list"
  ve_RemovedFiles :: "string list"
  ve_FlushedIndex :: u64

record fileMetadata =
  fm_tier :: u32
  fm_file :: string
  fm_minKey :: bytes
  fm_maxKey :: bytes
  fm_count :: u64

definition metadata_proto :: "fileMetadata \<Rightarrow> AddedFile" where
  "metadata_proto m = \<lparr>af_Tier = fm_tier m, af_File = fm_file m, af_MinKey = cloneBytes (fm_minKey m),
     af_MaxKey = cloneBytes (fm_maxKey m), af_Count = fm_count m\<rparr>"

text \<open>The Go map of the files is an association list without duplicate keys.\<close>

record manifestState =
  ms_files :: "(string \<times> fileMetadata) list"
  ms_flushedIndex :: u64
  ms_records :: u64

definition newManifestState :: manifestState where
  "newManifestState = \<lparr>ms_files = [], ms_flushedIndex = 0, ms_records = 0\<rparr>"

datatype edit_error =
    NilEdit | FlushedIndexRegresses | EmptyEdit
  | RemovedInvalid string | RemovedTwice string | RemovedUnreferenced string
  | NilAdded | AddedInvalid string | AddedTwice string | AddedAndRemoved string | AddedReferenced string
  | ZeroEntries string | MinAboveMax string

definition sstableFilenameSuffix :: string where
  "sstableFilenameSuffix = ''.sst''"

definition validateSSTableFilename :: "string \<Rightarrow> bool" where
  "validateSSTableFilename name \<longleftrightarrow>
     \<not> (name = [] \<or> name = ''.'' \<or> ContainsAny name [CHR ''/'', CHR 0x5C, CHR 0x00] \<or> path_Base name \<noteq> name
        \<or> Clean name \<noteq> name \<or> \<not> HasSuffix name sstableFilenameSuffix)"

fun check_removed :: "(string \<times> fileMetadata) list \<Rightarrow> string list \<Rightarrow> string list \<Rightarrow> edit_error + string list" where
  "check_removed files [] removed = Inr removed"
| "check_removed files (name # names) removed =
     (if \<not> validateSSTableFilename name then Inl (RemovedInvalid name)
      else if name \<in> set removed then Inl (RemovedTwice name)
      else if map_of files name = None then Inl (RemovedUnreferenced name)
      else check_removed files names (name # removed))"

definition metadata_of :: "AddedFile \<Rightarrow> fileMetadata" where
  "metadata_of file = \<lparr>fm_tier = af_Tier file, fm_file = af_File file, fm_minKey = cloneBytes (af_MinKey file),
     fm_maxKey = cloneBytes (af_MaxKey file), fm_count = af_Count file\<rparr>"

fun check_added :: "(string \<times> fileMetadata) list \<Rightarrow> string list \<Rightarrow> AddedFile option list
    \<Rightarrow> (string \<times> fileMetadata) list \<Rightarrow> edit_error + (string \<times> fileMetadata) list" where
  "check_added files removed [] added = Inr added"
| "check_added files removed (None # rest) added = Inl NilAdded"
| "check_added files removed (Some file # rest) added =
     (let name = af_File file
      in if \<not> validateSSTableFilename name then Inl (AddedInvalid name)
         else if map_of added name \<noteq> None then Inl (AddedTwice name)
         else if name \<in> set removed then Inl (AddedAndRemoved name)
         else if map_of files name \<noteq> None then Inl (AddedReferenced name)
         else if af_Count file = 0 then Inl (ZeroEntries name)
         else if af_MinKey file > af_MaxKey file then Inl (MinAboveMax name)
         else check_added files removed rest (AList.update name (metadata_of file) added))"

text \<open>\<open>manifestState.apply\<close>: the state changes only when the whole edit is accepted.\<close>

definition manifest_apply :: "VersionEdit option \<Rightarrow> manifestState \<Rightarrow> edit_error + manifestState" where
  "manifest_apply eo s =
     (case eo of
        None \<Rightarrow> Inl NilEdit
      | Some edit \<Rightarrow>
          if ve_FlushedIndex edit < ms_flushedIndex s then Inl FlushedIndexRegresses
          else if ve_AddedFiles edit = [] \<and> ve_RemovedFiles edit = [] \<and> ve_FlushedIndex edit = ms_flushedIndex s
          then Inl EmptyEdit
          else (case check_removed (ms_files s) (ve_RemovedFiles edit) [] of
                  Inl err \<Rightarrow> Inl err
                | Inr removed \<Rightarrow>
                    (case check_added (ms_files s) removed (ve_AddedFiles edit) [] of
                       Inl err \<Rightarrow> Inl err
                     | Inr added \<Rightarrow>
                         Inr (s\<lparr>ms_files := AList.updates (map fst added) (map snd added) (fold AList.delete removed (ms_files s)),
                                ms_flushedIndex := ve_FlushedIndex edit,
                                ms_records := ms_records s + 1\<rparr>))))"

definition sortedManifestFiles :: "(string \<times> fileMetadata) list \<Rightarrow> fileMetadata list" where
  "sortedManifestFiles files = map (\<lambda>name. the (map_of files name)) (sort (map fst files))"

section \<open>Checked arithmetic and symbols\<close>

definition checkedManifestAdd :: "nat \<Rightarrow> nat \<Rightarrow> nat option" where
  "checkedManifestAdd left right = (if (2 ^ 64 - 1) - left < right then None else Some (left + right))"

definition checkedManifestMul :: "nat \<Rightarrow> nat \<Rightarrow> nat option" where
  "checkedManifestMul left right = (if left \<noteq> 0 \<and> right > (2 ^ 64 - 1) div left then None else Some (left * right))"

text \<open>\<open>strconv.IntSize\<close> is 64 on the platforms the program is built for.\<close>

definition checkedManifestInt :: "nat \<Rightarrow> nat frame_result" where
  "checkedManifestInt n = (if n > 2 ^ 63 - 1 then Inl SizeOverflow else Inr n)"

definition manifestHeaderSize :: nat where "manifestHeaderSize = 8"
definition manifestMarkerBytes :: nat where "manifestMarkerBytes = 2"
definition manifestEncodedWidth :: nat where "manifestEncodedWidth = 2"
definition manifestFrameStart :: byte where "manifestFrameStart = 0xFA"
definition manifestFrameEnd :: byte where "manifestFrameEnd = 0xFB"
definition manifestSymbolBase :: byte where "manifestSymbolBase = 0x40"
definition manifestSymbolLimit :: byte where "manifestSymbolLimit = 0x4F"

definition checkedManifestFrameSize :: "nat \<Rightarrow> nat option" where
  "checkedManifestFrameSize payloadSize =
     (case checkedManifestAdd manifestHeaderSize payloadSize of
        None \<Rightarrow> None
      | Some body \<Rightarrow>
          (case checkedManifestMul body manifestEncodedWidth of
             None \<Rightarrow> None
           | Some encoded \<Rightarrow> checkedManifestAdd manifestMarkerBytes encoded))"

definition isManifestSymbol :: "byte \<Rightarrow> bool" where
  "isManifestSymbol value \<longleftrightarrow> value \<ge> manifestSymbolBase \<and> value \<le> manifestSymbolLimit"

definition encodeManifestSymbols :: "nat \<Rightarrow> bytes \<Rightarrow> bytes frame_result" where
  "encodeManifestSymbols dstLen decoded =
     (if checkedManifestMul (length decoded) manifestEncodedWidth \<noteq> Some dstLen then Inl BufferSize
      else Inr (concat (map (\<lambda>value. [manifestSymbolBase + drop_bit 4 value, manifestSymbolBase + (value AND 0x0f)]) decoded)))"

fun decode_manifest_loop :: "bytes \<Rightarrow> bytes frame_result" where
  "decode_manifest_loop (hi # lo # symbols) =
     (if \<not> isManifestSymbol hi then Inl InvalidSymbol
      else if \<not> isManifestSymbol lo then Inl InvalidSymbol
      else case decode_manifest_loop symbols of
             Inl err \<Rightarrow> Inl err
           | Inr bs \<Rightarrow> Inr ((push_bit 4 (hi - manifestSymbolBase) OR (lo - manifestSymbolBase)) # bs))"
| "decode_manifest_loop _ = Inr []"

definition decodeManifestSymbols :: "nat \<Rightarrow> bytes \<Rightarrow> bytes frame_result" where
  "decodeManifestSymbols dstLen symbols =
     (if checkedManifestMul dstLen manifestEncodedWidth \<noteq> Some (length symbols) then Inl BufferSize
      else decode_manifest_loop symbols)"

section \<open>Frames\<close>

definition encodeManifestFrame :: "(VersionEdit \<Rightarrow> bytes option) \<Rightarrow> VersionEdit option \<Rightarrow> bytes frame_result" where
  "encodeManifestFrame marshal eo =
     (case eo of
        None \<Rightarrow> Inl MarshalFailed
      | Some edit \<Rightarrow>
          (case marshal edit of
             None \<Rightarrow> Inl MarshalFailed
           | Some payload \<Rightarrow>
               if length payload > 2 ^ 32 - 1 then Inl PayloadTooLong
               else (case checkedManifestFrameSize (length payload) of
                       None \<Rightarrow> Inl SizeOverflow
                     | Some frameSize \<Rightarrow>
                         (case checkedManifestInt frameSize of
                            Inl err \<Rightarrow> Inl err
                          | Inr frameSizeInt \<Rightarrow>
                              (let header = put_le 4 (length payload) @ PutUint32 (crc32c payload)
                               in case encodeManifestSymbols (length header * 2) header of
                                    Inl err \<Rightarrow> Inl err
                                  | Inr hs \<Rightarrow>
                                      (case encodeManifestSymbols (frameSizeInt - 2 - length header * 2) payload of
                                         Inl err \<Rightarrow> Inl err
                                       | Inr ps \<Rightarrow> Inr ([manifestFrameStart] @ hs @ ps @ [manifestFrameEnd])))))))"

definition decodeManifestFrame :: "(bytes \<Rightarrow> VersionEdit option) \<Rightarrow> bytes \<Rightarrow> VersionEdit frame_result" where
  "decodeManifestFrame unmarshal symbols =
     (let symbolCount = length symbols
      in if symbolCount mod manifestEncodedWidth \<noteq> 0 then Inl OddSymbolCount
         else (let bodySize = symbolCount div manifestEncodedWidth
               in if bodySize < manifestHeaderSize then Inl ShortBody
                  else (case checkedManifestMul manifestHeaderSize manifestEncodedWidth of
                          None \<Rightarrow> Inl SizeOverflow
                        | Some headerSymbols \<Rightarrow>
                            (case checkedManifestInt headerSymbols of
                               Inl err \<Rightarrow> Inl err
                             | Inr headerSymbolsInt \<Rightarrow>
                                 (case decodeManifestSymbols 8 (take headerSymbolsInt symbols) of
                                    Inl err \<Rightarrow> Inl err
                                  | Inr header \<Rightarrow>
                                      (let payloadSize = get_le (take 4 header)
                                       in case checkedManifestAdd manifestHeaderSize payloadSize of
                                            None \<Rightarrow> Inl SizeOverflow
                                          | Some wantBody \<Rightarrow>
                                              if bodySize \<noteq> wantBody then Inl SizeMismatch
                                              else (case checkedManifestInt payloadSize of
                                                      Inl err \<Rightarrow> Inl err
                                                    | Inr payloadSizeInt \<Rightarrow>
                                                        (case decodeManifestSymbols payloadSizeInt (drop headerSymbolsInt symbols) of
                                                           Inl err \<Rightarrow> Inl err
                                                         | Inr payload \<Rightarrow>
                                                             if get_le (drop 4 header) \<noteq> unat (crc32c payload) then Inl CrcMismatch
                                                             else (case unmarshal payload of
                                                                     None \<Rightarrow> Inl UnmarshalFailed
                                                                   | Some edit \<Rightarrow> Inr edit)))))))))"

section \<open>Replay\<close>

datatype manifest_error = BadFrame frame_error | BadEdit edit_error

fun scan_manifest :: "bytes \<Rightarrow> scan_result" where
  "scan_manifest [] = Unterminated"
| "scan_manifest (symbol # bs) =
     (if symbol = manifestFrameEnd then Terminated [] bs
      else if symbol = manifestFrameStart then ScanError StartInsideFrame
      else if \<not> isManifestSymbol symbol then ScanError InvalidInterior
      else case scan_manifest bs of
             Terminated symbols rest \<Rightarrow> Terminated (symbol # symbols) rest
           | r \<Rightarrow> r)"

lemma scan_manifest_length: "scan_manifest bs = Terminated symbols rest \<Longrightarrow> length bs = length symbols + 1 + length rest"
  by (induction bs arbitrary: symbols) (auto split: if_splits scan_result.splits)

text \<open>The state, the offset after the last complete record, and whether a torn record follows.\<close>

function replay_manifest :: "(bytes \<Rightarrow> VersionEdit option) \<Rightarrow> bytes \<Rightarrow> manifestState \<Rightarrow> nat
    \<Rightarrow> manifest_error + manifestState \<times> nat \<times> bool" where
  "replay_manifest unmarshal [] s offset = Inr (s, offset, False)"
| "replay_manifest unmarshal (b # bs) s offset =
     (if b \<noteq> manifestFrameStart then Inl (BadFrame BadBoundary)
      else case scan_manifest bs of
             ScanError err \<Rightarrow> Inl (BadFrame err)
           | Unterminated \<Rightarrow> Inr (s, offset, True)
           | Terminated symbols rest \<Rightarrow>
               (case decodeManifestFrame unmarshal symbols of
                  Inl err \<Rightarrow> Inl (BadFrame err)
                | Inr edit \<Rightarrow>
                    (case manifest_apply (Some edit) s of
                       Inl err \<Rightarrow> Inl (BadEdit err)
                     | Inr s' \<Rightarrow> replay_manifest unmarshal rest s' (offset + 1 + length symbols + 1))))"
  by pat_completeness auto
termination
  by (relation "measure (\<lambda>(u, bs, s, i). length bs)") (auto dest: scan_manifest_length)

definition replayManifestBytes :: "(bytes \<Rightarrow> VersionEdit option) \<Rightarrow> bytes \<Rightarrow> manifest_error + manifestState \<times> nat \<times> bool" where
  "replayManifestBytes unmarshal data = replay_manifest unmarshal data newManifestState 0"

section \<open>The framing is the one of the write-ahead log\<close>

lemma manifest_framing:
  "manifestFrameStart = frameStart" "manifestFrameEnd = frameEnd"
  "manifestSymbolBase = frameSymbolBase" "manifestSymbolLimit = frameSymbolLimit"
  "checkedManifestAdd = checkedAddUint64" "checkedManifestMul = checkedMulUint64"
  "checkedManifestFrameSize = checkedFrameSize" "isManifestSymbol = isFrameSymbol"
  by (auto simp: manifestFrameStart_def frameStart_def manifestFrameEnd_def frameEnd_def manifestSymbolBase_def
      frameSymbolBase_def manifestSymbolLimit_def frameSymbolLimit_def checkedManifestAdd_def checkedAddUint64_def
      checkedManifestMul_def checkedMulUint64_def checkedManifestFrameSize_def checkedFrameSize_def
      isManifestSymbol_def isFrameSymbol_def manifestHeaderSize_def manifestEncodedWidth_def manifestMarkerBytes_def
      fun_eq_iff split: option.splits)

lemma checkedManifestInt_eq: "checkedManifestInt = checkedInt"
  by (auto simp: fun_eq_iff checkedManifestInt_def checkedInt_def fitsIntBits_def)

lemma scan_manifest_eq: "scan_manifest = scan_frame"
proof
  show "scan_manifest bs = scan_frame bs" for bs by (induction bs) (simp_all add: manifest_framing)
qed

lemma decode_manifest_loop_eq: "decode_manifest_loop = decode_loop"
proof
  show "decode_manifest_loop bs = decode_loop bs" for bs
    by (induction bs rule: decode_loop.induct) (simp_all add: manifest_framing split: sum.split)
qed

lemma encode_manifest_loop_eq:
  "concat (map (\<lambda>v. [manifestSymbolBase + drop_bit 4 v, manifestSymbolBase + (v AND 0x0f)]) bs) = encode_loop bs"
  by (induction bs) (simp_all add: manifest_framing)

lemma manifest_symbols_eq: "encodeManifestSymbols = encodeSymbols" "decodeManifestSymbols = decodeSymbols"
  by (auto simp: fun_eq_iff encodeManifestSymbols_def encodeSymbols_def decodeManifestSymbols_def decodeSymbols_def
      manifest_framing(6) encode_manifest_loop_eq decode_manifest_loop_eq manifestEncodedWidth_def)

lemmas manifest_as_disklog = manifest_framing checkedManifestInt_eq scan_manifest_eq manifest_symbols_eq

lemma encodeManifestFrame_eq:
  "encodeManifestFrame marshal (Some edit) = Inr f \<longleftrightarrow>
   (\<exists>payload. marshal edit = Some payload \<and> length payload \<le> 2 ^ 32 - 1 \<and> f = frame_bytes payload)"
proof -
  have m: "checkedMulUint64 (length payload) 2 = Some (2 * length payload)" "checkedMulUint64 8 2 = Some 16"
    if "length payload \<le> 2 ^ 32 - 1" for payload :: bytes
    using that by (simp_all add: checkedMulUint64_2)
  have i: "checkedInt (18 + 2 * length payload) = Inr (18 + 2 * length payload)"
    if "length payload \<le> 2 ^ 32 - 1" for payload :: bytes
    using that by (simp add: checkedInt_def fitsIntBits_def)
  show ?thesis
  proof (cases "marshal edit")
    case (Some payload)
    show ?thesis
    proof (cases "length payload \<le> 2 ^ 32 - 1")
      case True
      show ?thesis
        using Some m [OF True] i [OF True] checkedFrameSize_eq [OF True] True
        by (auto simp: encodeManifestFrame_def manifest_as_disklog encodeSymbols_def Let_def
            frame_bytes_def frame_body_def encode_loop_append)
    qed (use Some in \<open>simp add: encodeManifestFrame_def\<close>)
  qed (simp add: encodeManifestFrame_def)
qed

lemma decodeManifestFrame_body:
  assumes "length payload \<le> 2 ^ 32 - 1"
  shows "decodeManifestFrame unmarshal (frame_body payload) =
    (case unmarshal payload of None \<Rightarrow> Inl UnmarshalFailed | Some edit \<Rightarrow> Inr edit)"
proof -
  let ?h = "put_le 4 (length payload) @ PutUint32 (crc32c payload)"
  have fb: "frame_body payload = encode_loop ?h @ encode_loop payload"
    by (simp add: frame_body_def encode_loop_append)
  have t: "take 16 (frame_body payload) = encode_loop ?h" "drop 16 (frame_body payload) = encode_loop payload"
    by (simp_all add: fb)
  have m: "checkedMulUint64 (length payload) 2 = Some (2 * length payload)" "checkedMulUint64 8 2 = Some 16"
    using assms by (simp_all add: checkedMulUint64_2)
  have len: "get_le (put_le 4 (length payload)) = length payload"
    using assms by (intro get_put_le) simp
  have i: "checkedInt (length payload) = Inr (length payload)" "checkedAddUint64 8 (length payload) = Some (8 + length payload)"
    "checkedInt 16 = Inr 16"
    using assms by (simp_all add: checkedInt_def fitsIntBits_def checkedAddUint64_def)
  have d: "decodeSymbols 8 (encode_loop ?h) = Inr ?h" "decodeSymbols (length payload) (encode_loop payload) = Inr payload"
    using m by (simp_all add: decodeSymbols_def decode_encode_loop)
  show ?thesis
    unfolding decodeManifestFrame_def manifest_as_disklog manifestHeaderSize_def manifestEncodedWidth_def m Let_def
      option.case i sum.case t
    using len i d by (simp split: option.splits)
qed

section \<open>File names\<close>

lemma validateSSTableFilename_iff:
  "validateSSTableFilename name \<longleftrightarrow>
   CHR ''/'' \<notin> set name \<and> CHR 0x5C \<notin> set name \<and> CHR 0x00 \<notin> set name \<and> HasSuffix name ''.sst''"
proof (cases "HasSuffix name ''.sst'' \<and> slash \<notin> set name")
  case True
  then have len: "length name \<ge> 4" using HasSuffixE [of name "''.sst''"] by auto
  then have "plain_name name" using True by (auto simp: plain_name_def)
  then show ?thesis
    using True len by (auto simp: validateSSTableFilename_def sstableFilenameSuffix_def ContainsAny_def Base_plain Clean_plain list_ex_iff)
qed (auto simp: validateSSTableFilename_def sstableFilenameSuffix_def ContainsAny_def list_ex_iff)

lemma valid_plain_name: "validateSSTableFilename name \<Longrightarrow> plain_name name"
  using HasSuffixE [of name "''.sst''"] by (auto simp: validateSSTableFilename_iff plain_name_def)

section \<open>Accepted edits\<close>

lemma check_removed_ok:
  "check_removed files names removed = Inr removed' \<Longrightarrow> distinct removed \<Longrightarrow>
   removed' = rev names @ removed \<and> distinct removed' \<and> set names \<subseteq> fst ` set files"
  by (induction files names removed rule: check_removed.induct)
    (auto split: if_splits simp: map_of_eq_None_iff)

lemma update_new: "k \<notin> fst ` set xs \<Longrightarrow> AList.update k v xs = xs @ [(k, v)]"
  by (induction xs) auto

text \<open>A file an edit may add.\<close>

definition good_file :: "fileMetadata \<Rightarrow> bool" where
  "good_file m \<longleftrightarrow> validateSSTableFilename (fm_file m) \<and> fm_count m \<noteq> 0 \<and> fm_minKey m \<le> fm_maxKey m"

definition edit_added :: "VersionEdit \<Rightarrow> (string \<times> fileMetadata) list" where
  "edit_added edit = map (\<lambda>f. (af_File (the f), metadata_of (the f))) (ve_AddedFiles edit)"

lemma check_added_ok:
  "check_added files removed afs added = Inr added' \<Longrightarrow> distinct (map fst added) \<Longrightarrow>
   added' = added @ map (\<lambda>f. (af_File (the f), metadata_of (the f))) afs \<and> distinct (map fst added')
   \<and> (\<forall>f \<in> set afs. f \<noteq> None \<and> good_file (metadata_of (the f)))
   \<and> (\<forall>f \<in> set afs. af_File (the f) \<notin> set removed \<and> af_File (the f) \<notin> fst ` set files)"
proof (induction afs arbitrary: added)
  case (Cons fo rest)
  then obtain af where fo: "fo = Some af" by (cases fo) auto
  let ?added = "added @ [(af_File af, metadata_of af)]"
  from Cons.prems have new: "af_File af \<notin> fst ` set added" "af_File af \<notin> set removed" "af_File af \<notin> fst ` set files"
      "good_file (metadata_of af)"
    and rest: "check_added files removed rest ?added = Inr added'"
    by (auto split: if_splits simp: fo map_of_eq_None_iff update_new Let_def good_file_def metadata_of_def)
  have "distinct (map fst ?added)" using Cons.prems(2) new(1) by simp
  from Cons.IH [OF rest this] new show ?case by (elim conjE) (simp add: fo)
qed simp

lemma updates_new:
  "distinct (map fst ys) \<Longrightarrow> fst ` set ys \<inter> fst ` set xs = {} \<Longrightarrow> AList.updates (map fst ys) (map snd ys) xs = xs @ ys"
  by (induction ys arbitrary: xs) (auto simp: update_new AList.updates_def split: prod.splits)

lemma fold_delete: "fold AList.delete ks xs = filter (\<lambda>p. fst p \<notin> set ks) xs"
  by (induction ks arbitrary: xs) (auto simp: AList.delete_eq filter_filter intro!: filter_cong split: prod.splits)

lemma manifest_apply_ok:
  assumes "manifest_apply (Some edit) s = Inr s'"
  shows "ms_files s' = filter (\<lambda>p. fst p \<notin> set (ve_RemovedFiles edit)) (ms_files s) @ edit_added edit"
    and "set (ve_RemovedFiles edit) \<subseteq> fst ` set (ms_files s)"
    and "fst ` set (edit_added edit) \<inter> fst ` set (ms_files s) = {}" "distinct (map fst (edit_added edit))"
    and "\<forall>p \<in> set (edit_added edit). fst p = fm_file (snd p) \<and> good_file (snd p)"
    and "ms_flushedIndex s \<le> ms_flushedIndex s'" "ms_flushedIndex s' = ve_FlushedIndex edit" "ms_records s' = ms_records s + 1"
proof -
  obtain removed added where r: "check_removed (ms_files s) (ve_RemovedFiles edit) [] = Inr removed"
    and a: "check_added (ms_files s) removed (ve_AddedFiles edit) [] = Inr added"
    and s': "s' = s\<lparr>ms_files := AList.updates (map fst added) (map snd added) (fold AList.delete removed (ms_files s)),
        ms_flushedIndex := ve_FlushedIndex edit, ms_records := ms_records s + 1\<rparr>"
    and f: "\<not> ve_FlushedIndex edit < ms_flushedIndex s"
    using assms by (auto simp: manifest_apply_def split: if_splits sum.splits)
  have rs: "removed = rev (ve_RemovedFiles edit)" "set (ve_RemovedFiles edit) \<subseteq> fst ` set (ms_files s)"
    using check_removed_ok [OF r] by auto
  have as: "added = edit_added edit" "distinct (map fst added)"
    "\<forall>f \<in> set (ve_AddedFiles edit). f \<noteq> None \<and> good_file (metadata_of (the f))"
    "\<forall>f \<in> set (ve_AddedFiles edit). af_File (the f) \<notin> set removed \<and> af_File (the f) \<notin> fst ` set (ms_files s)"
    using check_added_ok [OF a] by (auto simp: edit_added_def)
  show disj: "fst ` set (edit_added edit) \<inter> fst ` set (ms_files s) = {}" and d: "distinct (map fst (edit_added edit))"
    using as(1,2,4) by (simp_all add: edit_added_def image_image) blast
  have "fst ` set (edit_added edit) \<inter> fst ` set (fold AList.delete removed (ms_files s)) = {}"
    using disj by (auto simp: fold_delete)
  from updates_new [OF d this]
  show "ms_files s' = filter (\<lambda>p. fst p \<notin> set (ve_RemovedFiles edit)) (ms_files s) @ edit_added edit"
    using s' rs as(1) by (simp add: fold_delete)
  show "set (ve_RemovedFiles edit) \<subseteq> fst ` set (ms_files s)" by (rule rs)
  show "\<forall>p \<in> set (edit_added edit). fst p = fm_file (snd p) \<and> good_file (snd p)"
    using as(3) by (auto simp: edit_added_def metadata_of_def)
  show "ms_flushedIndex s \<le> ms_flushedIndex s'" "ms_flushedIndex s' = ve_FlushedIndex edit" "ms_records s' = ms_records s + 1"
    using s' f by (simp_all add: not_less)
qed

section \<open>The invariant of the manifest state\<close>

definition manifest_wf :: "manifestState \<Rightarrow> bool" where
  "manifest_wf s \<longleftrightarrow> distinct (map fst (ms_files s)) \<and> (\<forall>p \<in> set (ms_files s). fst p = fm_file (snd p) \<and> good_file (snd p))"

fun apply_edits :: "VersionEdit list \<Rightarrow> manifestState \<Rightarrow> edit_error + manifestState" where
  "apply_edits [] s = Inr s"
| "apply_edits (edit # edits) s = (case manifest_apply (Some edit) s of Inl err \<Rightarrow> Inl err | Inr s' \<Rightarrow> apply_edits edits s')"

lemma manifest_wf_new: "manifest_wf newManifestState"
  by (simp add: manifest_wf_def newManifestState_def)

lemma manifest_wf_apply: "manifest_wf s \<Longrightarrow> manifest_apply (Some edit) s = Inr s' \<Longrightarrow> manifest_wf s'"
  using manifest_apply_ok [of edit s s'] unfolding manifest_wf_def
  by (auto simp: distinct_map_filter)

lemma sortedManifestFiles_names:
  assumes "manifest_wf s"
  shows "map fm_file (sortedManifestFiles (ms_files s)) = sort (map fst (ms_files s))"
    and "set (sortedManifestFiles (ms_files s)) = snd ` set (ms_files s)"
proof -
  have d: "distinct (map fst (ms_files s))" and n: "\<forall>p \<in> set (ms_files s). fst p = fm_file (snd p)"
    using assms by (auto simp: manifest_wf_def)
  have "fm_file (the (map_of (ms_files s) k)) = k" if "k \<in> fst ` set (ms_files s)" for k
    using that n d by auto
  then show "map fm_file (sortedManifestFiles (ms_files s)) = sort (map fst (ms_files s))"
    by (auto simp: sortedManifestFiles_def intro!: map_idI)
  show "set (sortedManifestFiles (ms_files s)) = snd ` set (ms_files s)"
    using d by (force simp: sortedManifestFiles_def)
qed

section \<open>Replaying what was written\<close>

lemma replay_manifest_frame:
  assumes "length payload \<le> 2 ^ 32 - 1" "unmarshal payload = Some edit"
  shows "replay_manifest unmarshal (frame_bytes payload @ extra) s offset =
    (case manifest_apply (Some edit) s of Inl err \<Rightarrow> Inl (BadEdit err)
     | Inr s' \<Rightarrow> replay_manifest unmarshal extra s' (offset + length (frame_bytes payload)))"
proof -
  have "scan_frame (frame_body payload @ frameEnd # extra) = Terminated (frame_body payload) extra"
    by (rule scan_frame_symbols) (rule frame_body_symbols)
  then show ?thesis
    using assms decodeManifestFrame_body [OF assms(1), of unmarshal]
    by (simp add: frame_bytes_def manifest_as_disklog add.commute add.left_commute split: sum.split)
qed

lemma replay_manifest_torn:
  assumes "k < length (frame_bytes payload)"
  shows "replay_manifest unmarshal (take k (frame_bytes payload)) s offset = Inr (s, offset, k \<noteq> 0)"
proof (cases k)
  case (Suc j)
  have "take k (frame_bytes payload) = frameStart # take j (frame_body payload)"
    using assms Suc by (simp add: frame_bytes_def)
  moreover have "scan_frame (take j (frame_body payload)) = Unterminated"
    by (rule scan_frame_torn) (meson frame_body_symbols in_set_takeD)
  ultimately show ?thesis using Suc by (simp add: manifest_as_disklog)
qed simp

definition edit_frame :: "(VersionEdit \<Rightarrow> bytes option) \<Rightarrow> (bytes \<Rightarrow> VersionEdit option) \<Rightarrow> bytes \<Rightarrow> VersionEdit \<Rightarrow> bool" where
  "edit_frame marshal unmarshal f edit \<longleftrightarrow>
     encodeManifestFrame marshal (Some edit) = Inr f \<and> (\<forall>p. marshal edit = Some p \<longrightarrow> unmarshal p = Some edit)"

lemma replay_manifest_cut:
  assumes "list_all2 (edit_frame marshal unmarshal) fs edits" "apply_edits edits s0 = Inr s" "k \<le> length (concat fs)"
  shows "\<exists>j s'. j \<le> length edits \<and> apply_edits (take j edits) s0 = Inr s' \<and> length (concat (take j fs)) \<le> k
    \<and> (j < length edits \<longrightarrow> k < length (concat (take (Suc j) fs)))
    \<and> replay_manifest unmarshal (take k (concat fs)) s0 offset
        = Inr (s', offset + length (concat (take j fs)), k \<noteq> length (concat (take j fs)))"
  using assms
proof (induction arbitrary: s0 k offset rule: list_all2_induct)
  case (Cons f fs edit edits)
  from Cons.hyps(1) obtain payload where p: "f = frame_bytes payload" "length payload \<le> 2 ^ 32 - 1" "unmarshal payload = Some edit"
    unfolding edit_frame_def encodeManifestFrame_eq by blast
  from Cons.prems obtain s1 where s1: "manifest_apply (Some edit) s0 = Inr s1" "apply_edits edits s1 = Inr s"
    by (auto split: sum.splits)
  show ?case
  proof (cases "k < length f")
    case True
    then show ?thesis
      using replay_manifest_torn [of k payload unmarshal s0 offset] p(1) by (intro exI [of _ 0]) simp
  next
    case False
    then have "k - length f \<le> length (concat fs)" using Cons.prems by simp
    from Cons.IH [OF s1(2) this, of "offset + length f"] obtain j s' where
      j: "j \<le> length edits" "apply_edits (take j edits) s1 = Inr s'" "length (concat (take j fs)) \<le> k - length f"
        "j < length edits \<longrightarrow> k - length f < length (concat (take (Suc j) fs))"
        "replay_manifest unmarshal (take (k - length f) (concat fs)) s1 (offset + length f)
          = Inr (s', offset + length f + length (concat (take j fs)), k - length f \<noteq> length (concat (take j fs)))"
      by blast
    have "take k (concat (f # fs)) = frame_bytes payload @ take (k - length f) (concat fs)"
      using False p(1) by simp
    with j s1(1) replay_manifest_frame [of payload unmarshal edit "take (k - length f) (concat fs)" s0 offset] p(2,3) p(1) False
    show ?thesis by (intro exI [of _ "Suc j"] exI [of _ s']) auto
  qed
qed simp

lemma manifest_wf_apply_edits: "apply_edits edits s = Inr s' \<Longrightarrow> manifest_wf s \<Longrightarrow> manifest_wf s' \<and> ms_flushedIndex s \<le> ms_flushedIndex s'"
  by (induction edits arbitrary: s)
    (auto split: sum.splits dest: manifest_wf_apply manifest_apply_ok(6) intro: order_trans)

section \<open>The main properties\<close>

text \<open>C11. A manifest image cut off at any byte replays to the state of the edits whose frames are
  complete in it, reports the offset at which the image has to be cut, and reports a torn tail
  exactly when bytes follow that offset. The recovered state satisfies the manifest's invariant.\<close>

theorem manifest_crash_recovery:
  assumes "list_all2 (edit_frame marshal unmarshal) fs edits" "apply_edits edits newManifestState = Inr s"
    and "k \<le> length (concat fs)"
  shows "\<exists>j s'. j \<le> length edits \<and> apply_edits (take j edits) newManifestState = Inr s' \<and> manifest_wf s'
    \<and> length (concat (take j fs)) \<le> k \<and> (j < length edits \<longrightarrow> k < length (concat (take (Suc j) fs)))
    \<and> replayManifestBytes unmarshal (take k (concat fs))
        = Inr (s', length (concat (take j fs)), k \<noteq> length (concat (take j fs)))"
  using replay_manifest_cut [OF assms, of 0] manifest_wf_apply_edits [OF _ manifest_wf_new]
  unfolding replayManifestBytes_def by fastforce

definition sample_edit :: VersionEdit where
  "sample_edit = \<lparr>ve_AddedFiles = [Some \<lparr>af_Tier = 1, af_File = ''000001.sst'', af_MinKey = [1], af_MaxKey = [2], af_Count = 2\<rparr>],
     ve_RemovedFiles = [], ve_FlushedIndex = 5\<rparr>"

definition sample_marshal :: "VersionEdit \<Rightarrow> bytes option" where
  "sample_marshal edit = Some [ucast (ve_FlushedIndex edit)]"

definition sample_parse :: "bytes \<Rightarrow> VersionEdit option" where
  "sample_parse p = (if p = [5] then Some sample_edit else None)"

lemma sample_edit_frame: "edit_frame sample_marshal sample_parse (frame_bytes [5]) sample_edit"
  by (simp add: edit_frame_def encodeManifestFrame_eq sample_marshal_def sample_parse_def sample_edit_def)

lemma sample_edit_applies: "\<exists>s. apply_edits [sample_edit] newManifestState = Inr s"
proof -
  have "validateSSTableFilename ''000001.sst''" by (simp add: validateSSTableFilename_iff HasSuffix_def)
  then show ?thesis by (simp add: manifest_apply_def sample_edit_def newManifestState_def Let_def)
qed

theorem manifest_crash_recovery_witness:
  "\<exists>j s'. j \<le> 1 \<and> apply_edits (take j [sample_edit]) newManifestState = Inr s' \<and> manifest_wf s'
    \<and> replayManifestBytes sample_parse (take 7 (concat [frame_bytes [5]])) = Inr (s', length (concat (take j [frame_bytes [5]])),
        7 \<noteq> length (concat (take j [frame_bytes [5]])))"
proof -
  obtain s where s: "apply_edits [sample_edit] newManifestState = Inr s" using sample_edit_applies by blast
  have "list_all2 (edit_frame sample_marshal sample_parse) [frame_bytes [5]] [sample_edit]"
    by (simp add: sample_edit_frame)
  from manifest_crash_recovery [OF this s, of 7] show ?thesis by fastforce
qed

text \<open>C13. Every sequence of accepted edits leaves a manifest whose file names are distinct and valid,
  whose files have entries and ordered key bounds, and whose flushed index never went back; the
  sorted list of its files is the list of its names in ascending order.\<close>

theorem manifest_invariant:
  assumes "apply_edits edits newManifestState = Inr s" "manifest_apply (Some edit) s = Inr s'"
  shows "distinct (map fst (ms_files s')) \<and> (\<forall>(name, m) \<in> set (ms_files s'). fm_file m = name \<and> good_file m)
    \<and> ms_flushedIndex s \<le> ms_flushedIndex s'
    \<and> dom (map_of (ms_files s')) = dom (map_of (ms_files s)) - set (ve_RemovedFiles edit) \<union> fst ` set (edit_added edit)
    \<and> sorted (map fm_file (sortedManifestFiles (ms_files s')))"
proof (intro conjI)
  have wf: "manifest_wf s'" using assms manifest_wf_apply_edits manifest_wf_new manifest_wf_apply by blast
  then show "distinct (map fst (ms_files s'))" "\<forall>(name, m) \<in> set (ms_files s'). fm_file m = name \<and> good_file m"
    by (auto simp: manifest_wf_def)
  show "ms_flushedIndex s \<le> ms_flushedIndex s'" by (rule manifest_apply_ok(6) [OF assms(2)])
  show "dom (map_of (ms_files s')) = dom (map_of (ms_files s)) - set (ve_RemovedFiles edit) \<union> fst ` set (edit_added edit)"
    unfolding dom_map_of_conv_image_fst manifest_apply_ok(1) [OF assms(2)] by auto
  show "sorted (map fm_file (sortedManifestFiles (ms_files s')))"
    unfolding sortedManifestFiles_names(1) [OF wf] by simp
qed

theorem manifest_invariant_witness:
  "\<exists>s. manifest_apply (Some sample_edit) newManifestState = Inr s \<and> distinct (map fst (ms_files s))
    \<and> dom (map_of (ms_files s)) = {''000001.sst''} \<and> ms_flushedIndex newManifestState \<le> ms_flushedIndex s"
proof -
  obtain s where s: "manifest_apply (Some sample_edit) newManifestState = Inr s"
    using sample_edit_applies by (auto split: sum.splits)
  have d: "dom (map_of (ms_files newManifestState)) - set (ve_RemovedFiles sample_edit) \<union> fst ` set (edit_added sample_edit)
      = {''000001.sst''}"
    by (simp add: newManifestState_def sample_edit_def edit_added_def)
  have e: "apply_edits [] newManifestState = Inr newManifestState" by simp
  show ?thesis
    using manifest_invariant [OF e s] s unfolding d by (intro exI [of _ s] conjI) (elim conjE, assumption)+
qed

end
