(* ===== verification/Lsm_Merge.thy ===== *)
theory Lsm_Merge
  imports Lsm_Sstable_Props Map_SM "HOL-Library.Product_Lexorder" "HOL-Library.Multiset"
begin

text \<open>
  The pure part of \<open>internal/lsm/compaction.go\<close>: the size class of a table, the streaming iterator
  over one table and the k-way merge with its hand-written binary heap. The iterators a merge reads
  are an interface, stated as the locale \<open>entry_source\<close> and interpreted on the table iterator.
  The lemmas show the heap invariant of push and pop, the exact bounds of a size class and that a
  merge of sorted tables terminates and emits every key once, in order, with its newest version.
\<close>

section \<open>Size classes\<close>

definition max_int64 :: int where
  "max_int64 = 2 ^ 63 - 1"

text \<open>The result of an \<open>int64\<close> operation wraps around.\<close>

definition wrap_int64 :: "int \<Rightarrow> int" where
  "wrap_int64 x = signed_take_bit 63 x"

definition sizeClassBaseBytes :: int where
  "sizeClassBaseBytes = int dataBlockTarget"

definition sizeClassGrowth :: int where
  "sizeClassGrowth = 4"

partial_function (option) size_class_loop :: "int \<Rightarrow> u32 \<Rightarrow> int \<Rightarrow> u32 option" where
  "size_class_loop fsize cls boundary =
     (if fsize \<ge> boundary
      then if boundary > max_int64 div sizeClassGrowth then Some (cls + 1)
           else size_class_loop fsize (cls + 1) (wrap_int64 (boundary * sizeClassGrowth))
      else Some cls)"

definition tableSizeClass :: "int \<Rightarrow> u32 option" where
  "tableSizeClass fsize =
     (if fsize < sizeClassBaseBytes then Some 0
      else size_class_loop fsize 1 (wrap_int64 (sizeClassBaseBytes * sizeClassGrowth)))"

section \<open>The iterator over one table\<close>

record sstableEntryIterator =
  it_reader :: "SSTableReader option"
  it_block :: nat
  it_entries :: "TableEntry list"
  it_entry :: nat
  it_seen :: u64
  it_haveFirst :: bool
  it_firstKey :: bytes
  it_haveLastKey :: bool
  it_lastKey :: bytes
  it_done :: bool

definition newSSTableEntryIterator :: "SSTableReader option \<Rightarrow> sstableEntryIterator" where
  "newSSTableEntryIterator reader = \<lparr>it_reader = reader, it_block = 0, it_entries = [], it_entry = 0, it_seen = 0,
     it_haveFirst = False, it_firstKey = [], it_haveLastKey = False, it_lastKey = [], it_done = False\<rparr>"

definition cloneTableEntry :: "TableEntry \<Rightarrow> TableEntry" where
  "cloneTableEntry e = \<lparr>te_Key = cloneBytes (te_Key e), te_Seq = te_Seq e, te_Value = cloneBytes (te_Value e), te_Tombstone = te_Tombstone e\<rparr>"

text \<open>
  The next data block. A block has at least one record, so the loop of \<open>Next\<close> that loads blocks runs
  at most once per call. \<open>None\<close> stands for a panic.
\<close>

definition load_block :: "SSTableReader \<Rightarrow> sstableEntryIterator \<Rightarrow> (sst_error + sstableEntryIterator) option" where
  "load_block r it =
     (let index = sr_index r ! it_block it
      in case readBlock (sr_r r) (ix_offset index) (ix_length index) of
           Inl err \<Rightarrow> Some (Inl err)
         | Inr data \<Rightarrow>
             (case decodeRecords [] data of
                Inl err \<Rightarrow> Some (Inl err)
              | Inr entries \<Rightarrow>
                  if entries = [] \<or> te_Key (hd entries) \<noteq> ix_firstKey index then Some (Inl ErrCorrupt)
                  else if it_haveLastKey it \<and> te_Key (hd entries) \<le> it_lastKey it then Some (Inl ErrCorrupt)
                  else (case bloom_covers (sr_bloom r) entries of
                          None \<Rightarrow> None
                        | Some False \<Rightarrow> Some (Inl ErrCorrupt)
                        | Some True \<Rightarrow>
                            (let it1 = (if it_haveFirst it then it
                                        else it\<lparr>it_firstKey := cloneBytes (te_Key (hd entries)), it_haveFirst := True\<rparr>)
                             in Some (Inr (it1\<lparr>it_lastKey := cloneBytes (te_Key (last entries)), it_haveLastKey := True,
                                              it_entries := entries, it_entry := 0, it_block := it_block it + 1\<rparr>))))))"

definition emit_entry :: "SSTableReader \<Rightarrow> sstableEntryIterator \<Rightarrow> sstableEntryIterator \<times> (sst_error + TableEntry option)" where
  "emit_entry r it =
     (let entry = it_entries it ! it_entry it;
          it1 = it\<lparr>it_entry := it_entry it + 1, it_seen := it_seen it + 1\<rparr>
      in if it_seen it1 > sr_entryCount r then (it1, Inl ErrCorrupt)
         else (it1, Inr (Some (cloneTableEntry entry))))"

definition iterator_Next :: "sstableEntryIterator \<Rightarrow> (sstableEntryIterator \<times> (sst_error + TableEntry option)) option" where
  "iterator_Next it =
     (case it_reader it of
        None \<Rightarrow> Some (it, Inl NilInput)
      | Some r \<Rightarrow>
          if it_done it then Some (it, Inr None)
          else if it_entry it = length (it_entries it)
          then if it_block it = length (sr_index r)
               then (let it1 = it\<lparr>it_done := True\<rparr>
                     in if it_seen it \<noteq> sr_entryCount r then Some (it1, Inl ErrCorrupt)
                        else if it_seen it \<noteq> 0 \<and> (it_firstKey it \<noteq> sr_minKey r \<or> it_lastKey it \<noteq> sr_maxKey r)
                        then Some (it1, Inl ErrCorrupt)
                        else Some (it1, Inr None))
               else (case load_block r it of
                       None \<Rightarrow> None
                     | Some (Inl err) \<Rightarrow> Some (it, Inl err)
                     | Some (Inr it1) \<Rightarrow> Some (emit_entry r it1))
          else Some (emit_entry r it))"

section \<open>The heap of the merge\<close>

record mergeHeapItem =
  mh_entry :: TableEntry
  mh_input :: nat

definition mergeHeapLess :: "mergeHeapItem \<Rightarrow> mergeHeapItem \<Rightarrow> bool" where
  "mergeHeapLess left right =
     (if te_Key (mh_entry left) \<noteq> te_Key (mh_entry right) then te_Key (mh_entry left) < te_Key (mh_entry right)
      else if te_Seq (mh_entry left) \<noteq> te_Seq (mh_entry right) then te_Seq (mh_entry left) > te_Seq (mh_entry right)
      else mh_input left < mh_input right)"

definition swap_items :: "nat \<Rightarrow> nat \<Rightarrow> 'a list \<Rightarrow> 'a list" where
  "swap_items i j h = h[i := h ! j, j := h ! i]"

definition par :: "nat \<Rightarrow> nat" where
  "par index = (index - 1) div 2"

lemma par_less: "0 < i \<Longrightarrow> par i < i"
  by (simp add: par_def)

function push_loop :: "nat \<Rightarrow> mergeHeapItem list \<Rightarrow> mergeHeapItem list" where
  "push_loop index heap =
     (if index = 0 then heap
      else let parent = par index
           in if \<not> mergeHeapLess (heap ! index) (heap ! parent) then heap
              else push_loop parent (swap_items index parent heap))"
  by pat_completeness auto
termination
  by (relation "measure fst") (auto simp: par_less)

definition push :: "mergeHeapItem \<Rightarrow> mergeHeapItem list \<Rightarrow> mergeHeapItem list" where
  "push item heap = push_loop (length heap) (heap @ [item])"

definition smallest_child :: "mergeHeapItem list \<Rightarrow> nat \<Rightarrow> nat" where
  "smallest_child heap left =
     (let right = left + 1
      in if right < length heap \<and> mergeHeapLess (heap ! right) (heap ! left) then right else left)"

function pop_loop :: "nat \<Rightarrow> mergeHeapItem list \<Rightarrow> mergeHeapItem list" where
  "pop_loop index heap =
     (let left = index * 2 + 1
      in if left \<ge> length heap then heap
         else let smallest = smallest_child heap left
              in if \<not> mergeHeapLess (heap ! smallest) (heap ! index) then heap
                 else pop_loop smallest (swap_items index smallest heap))"
  by pat_completeness auto
termination
  by (relation "measure (\<lambda>(i, h). length h - i)") (auto simp: swap_items_def smallest_child_def Let_def)

declare push_loop.simps [simp del] pop_loop.simps [simp del]

definition pop :: "mergeHeapItem list \<Rightarrow> mergeHeapItem \<times> mergeHeapItem list" where
  "pop heap = (heap ! 0, pop_loop 0 (butlast (heap[0 := last heap])))"

section \<open>The merge\<close>

record 'i kWayMergeIterator =
  km_inputs :: "'i list"
  km_heap :: "mergeHeapItem list"

definition sameTableRecord :: "TableEntry \<Rightarrow> TableEntry \<Rightarrow> bool" where
  "sameTableRecord left right \<longleftrightarrow>
     te_Tombstone left = te_Tombstone right \<and> (te_Tombstone left \<or> te_Value left = te_Value right)"

text \<open>
  The inputs of a merge are given by their \<open>Next\<close>. \<open>init_inputs\<close> is the loop of
  \<open>newKWayMergeIterator\<close>: it advances the inputs from \<open>i\<close> on and pushes their first entries.
\<close>

fun init_inputs :: "('i \<Rightarrow> ('i \<times> (sst_error + TableEntry option)) option) \<Rightarrow> nat \<Rightarrow> 'i option list \<Rightarrow> 'i list
    \<Rightarrow> mergeHeapItem list \<Rightarrow> (sst_error + 'i kWayMergeIterator) option" where
  "init_inputs next input [] seen heap = Some (Inr \<lparr>km_inputs = seen, km_heap = heap\<rparr>)"
| "init_inputs next input (None # sources) seen heap = Some (Inl NilInput)"
| "init_inputs next input (Some source # sources) seen heap =
     (case next source of
        None \<Rightarrow> None
      | Some (source', Inl err) \<Rightarrow> Some (Inl err)
      | Some (source', Inr None) \<Rightarrow> init_inputs next (input + 1) sources (seen @ [source']) heap
      | Some (source', Inr (Some first)) \<Rightarrow>
          init_inputs next (input + 1) sources (seen @ [source']) (push \<lparr>mh_entry = first, mh_input = input\<rparr> heap))"

definition newKWayMergeIterator :: "('i \<Rightarrow> ('i \<times> (sst_error + TableEntry option)) option) \<Rightarrow> 'i option list
    \<Rightarrow> (sst_error + 'i kWayMergeIterator) option" where
  "newKWayMergeIterator next inputs = init_inputs next 0 inputs [] []"

text \<open>The loop of \<open>Next\<close> that drains every version of \<open>key\<close>.\<close>

partial_function (option) drain_key :: "('i \<Rightarrow> ('i \<times> (sst_error + TableEntry option)) option) \<Rightarrow> bytes
    \<Rightarrow> TableEntry option \<Rightarrow> (u64 \<rightharpoonup> TableEntry) \<Rightarrow> 'i kWayMergeIterator
    \<Rightarrow> ('i kWayMergeIterator \<times> (sst_error + TableEntry option)) option" where
  "drain_key next key winner versions m =
     (if km_heap m = [] \<or> te_Key (mh_entry (km_heap m ! 0)) \<noteq> key then Some (m, Inr winner)
      else case pop (km_heap m) of
             (item, heap) \<Rightarrow>
               (let candidate = mh_entry item;
                    m1 = m\<lparr>km_heap := heap\<rparr>
                in if (case versions (te_Seq candidate) of Some prior \<Rightarrow> \<not> sameTableRecord candidate prior | None \<Rightarrow> False)
                   then Some (m1, Inl ErrCorrupt)
                   else (let versions1 = (if versions (te_Seq candidate) = None
                                          then versions(te_Seq candidate \<mapsto> cloneTableEntry candidate) else versions);
                             winner1 = (if winner = None \<or> te_Seq candidate > te_Seq (the winner)
                                        then Some (cloneTableEntry candidate) else winner)
                         in case next (km_inputs m ! mh_input item) of
                              None \<Rightarrow> None
                            | Some (source, r) \<Rightarrow>
                                (let m2 = m1\<lparr>km_inputs := (km_inputs m)[mh_input item := source]\<rparr>
                                 in case r of
                                      Inl err \<Rightarrow> Some (m2, Inl err)
                                    | Inr None \<Rightarrow> drain_key next key winner1 versions1 m2
                                    | Inr (Some e) \<Rightarrow>
                                        drain_key next key winner1 versions1
                                          (m2\<lparr>km_heap := push \<lparr>mh_entry = e, mh_input = mh_input item\<rparr> (km_heap m2)\<rparr>)))))"

definition merge_Next :: "('i \<Rightarrow> ('i \<times> (sst_error + TableEntry option)) option) \<Rightarrow> 'i kWayMergeIterator
    \<Rightarrow> ('i kWayMergeIterator \<times> (sst_error + TableEntry option)) option" where
  "merge_Next next m =
     (if km_heap m = [] then Some (m, Inr None)
      else drain_key next (cloneBytes (te_Key (mh_entry (km_heap m ! 0)))) None Map.empty m)"

text \<open>
  The loop of \<open>buildCompactionOutputLocked\<close> that copies the merged entries into the output's writer;
  it also collects the first key, the last key and the number of entries.
\<close>

partial_function (option) fill_output :: "('i \<Rightarrow> ('i \<times> (sst_error + TableEntry option)) option) \<Rightarrow> 'i kWayMergeIterator
    \<Rightarrow> bytes \<Rightarrow> bytes \<Rightarrow> u64 \<Rightarrow> 'f SSTableWriter \<Rightarrow> (sst_error + bytes \<times> bytes \<times> u64 \<times> 'f SSTableWriter) option" where
  "fill_output next m firstKey lastKey cnt writer =
     (case merge_Next next m of
        None \<Rightarrow> None
      | Some (m', Inl err) \<Rightarrow> Some (Inl err)
      | Some (m', Inr None) \<Rightarrow> Some (Inr (firstKey, lastKey, cnt, writer))
      | Some (m', Inr (Some e)) \<Rightarrow>
          (let firstKey' = (if cnt = 0 then cloneBytes (te_Key e) else firstKey);
               lastKey' = cloneBytes (te_Key e)
           in case writer_Add e writer of
                Inl err \<Rightarrow> Some (Inl err)
              | Inr writer' \<Rightarrow> fill_output next m' firstKey' lastKey' (cnt + 1) writer'))"

section \<open>Bounds of a size class\<close>

lemma wrap_int64_id: "- (2 ^ 63) \<le> x \<Longrightarrow> x \<le> max_int64 \<Longrightarrow> wrap_int64 x = x"
  by (simp add: wrap_int64_def max_int64_def signed_take_bit_int_eq_self)

lemma size_class_loop_correct:
  assumes "1 \<le> n" "n \<le> 25" "4096 * 4 ^ (n - 1) \<le> fsize" "fsize \<le> max_int64"
  shows "\<exists>c. 1 \<le> c \<and> c \<le> 26 \<and> size_class_loop fsize (of_nat n) (4096 * 4 ^ n) = Some (of_nat c)
    \<and> 4096 * 4 ^ (c - 1) \<le> fsize \<and> fsize < 4096 * 4 ^ c"
  using assms
proof (induction "25 - n" arbitrary: n)
  case 0
  then have "n = 25" by simp
  with 0 show ?case
    by (subst size_class_loop.simps) (auto simp: max_int64_def sizeClassGrowth_def intro: exI [of _ 25] exI [of _ 26])
next
  case (Suc d)
  then have n: "n \<le> 24" by simp
  show ?case
  proof (cases "4096 * 4 ^ n \<le> fsize")
    case True
    have "(4 :: int) ^ n \<le> 4 ^ 24" using n by (intro power_increasing) simp_all
    then have b: "\<not> max_int64 div sizeClassGrowth < 4096 * 4 ^ n" "(4096 :: int) * 4 ^ Suc n \<le> max_int64" "- (2 ^ 63) \<le> (4096 :: int) * 4 ^ Suc n"
      by (simp_all add: max_int64_def sizeClassGrowth_def order_trans [of _ 0])
    then have "size_class_loop fsize (of_nat n) (4096 * 4 ^ n) = size_class_loop fsize (of_nat (Suc n)) (4096 * 4 ^ Suc n)"
      using True wrap_int64_id [OF b(3,2)] by (subst size_class_loop.simps) (simp add: sizeClassGrowth_def add.commute mult.commute)
    moreover have "\<exists>c. 1 \<le> c \<and> c \<le> 26 \<and> size_class_loop fsize (of_nat (Suc n)) (4096 * 4 ^ Suc n) = Some (of_nat c)
        \<and> 4096 * 4 ^ (c - 1) \<le> fsize \<and> fsize < 4096 * 4 ^ c"
      using Suc.hyps Suc.prems n True by (intro Suc.hyps(1)) simp_all
    ultimately show ?thesis by simp
  next
    case False
    with Suc.prems show ?thesis by (subst size_class_loop.simps) (auto intro: exI [of _ n])
  qed
qed

text \<open>C14. The size class of a table is computed for every file size of 64 bits: the loop ends although its boundary is
  a wrapping int64, because it saturates before the product passes the largest number. Class zero holds the files below one block of 4096 bytes, class c the sizes from 4096 times 4 to the
  power c - 1 up to, but not including, 4096 times 4 to the power c. No class exceeds 26.\<close>

theorem tableSizeClass_bounds:
  assumes "fsize \<le> max_int64"
  shows "\<exists>c. tableSizeClass fsize = Some c \<and> unat c \<le> 26 \<and> (c = 0 \<longleftrightarrow> fsize < 4096)
    \<and> (c \<noteq> 0 \<longrightarrow> 4096 * 4 ^ (unat c - 1) \<le> fsize \<and> fsize < 4096 * 4 ^ unat c)"
proof (cases "fsize < 4096")
  case True
  then show ?thesis by (simp add: tableSizeClass_def sizeClassBaseBytes_def dataBlockTarget_def)
next
  case False
  then obtain c where c: "1 \<le> c" "c \<le> 26" "size_class_loop fsize 1 (4096 * 4) = Some (of_nat c)"
      "4096 * 4 ^ (c - 1) \<le> fsize" "fsize < 4096 * 4 ^ c"
    using size_class_loop_correct [of 1 fsize] assms by auto
  have u: "unat (of_nat c :: u32) = c" using c(2) by (simp add: unat_of_nat take_bit_nat_eq_self_iff)
  then have "(of_nat c :: u32) \<noteq> 0" using c(1) by (metis not_one_le_zero unat_0)
  then show ?thesis
    using False c u wrap_int64_id [of "4096 * 4"]
    by (simp add: tableSizeClass_def sizeClassBaseBytes_def dataBlockTarget_def sizeClassGrowth_def max_int64_def)
qed

text \<open>The largest size is in the last class.\<close>

theorem tableSizeClass_bounds_witness: "tableSizeClass max_int64 = Some 26"
proof -
  obtain c where c: "tableSizeClass max_int64 = Some c" "unat c \<le> 26" "max_int64 < 4096 * 4 ^ unat c"
    using tableSizeClass_bounds [of max_int64] by (auto simp: max_int64_def)
  have "\<not> unat c \<le> 25"
  proof
    assume "unat c \<le> 25"
    then have "(4 :: int) ^ unat c \<le> 4 ^ 25" by (intro power_increasing) simp_all
    with c(3) show False by (simp add: max_int64_def)
  qed
  then have "unat c = unat (26 :: u32)" using c(2) by simp
  then have "c = 26" by (simp only: unsigned_word_eqI)
  with c(1) show ?thesis by simp
qed

section \<open>The heap invariant\<close>

text \<open>The heap's order as a linear order on keys: by key, then newest first, then by input.\<close>

definition hkey :: "mergeHeapItem \<Rightarrow> bytes \<times> int \<times> nat" where
  "hkey item = (te_Key (mh_entry item), - uint (te_Seq (mh_entry item)), mh_input item)"

lemma uint_eqD: "uint a = uint b \<Longrightarrow> a = b"
  by (simp add: unsigned_word_eqI)

lemma mergeHeapLess_hkey: "mergeHeapLess a b \<longleftrightarrow> hkey a < hkey b"
  by (cases "te_Seq (mh_entry a) = te_Seq (mh_entry b)")
    (auto simp: mergeHeapLess_def hkey_def less_prod_def' word_less_def dest: uint_eqD)

definition heap_ok :: "mergeHeapItem list \<Rightarrow> bool" where
  "heap_ok h \<longleftrightarrow> (\<forall>i. 0 < i \<and> i < length h \<longrightarrow> hkey (h ! par i) \<le> hkey (h ! i))"

text \<open>The heap with one defect at \<open>k\<close> that moves up, and with one that moves down.\<close>

definition up_inv :: "nat \<Rightarrow> mergeHeapItem list \<Rightarrow> bool" where
  "up_inv k h \<longleftrightarrow> k < length h
     \<and> (\<forall>i. 0 < i \<and> i < length h \<and> i \<noteq> k \<longrightarrow> hkey (h ! par i) \<le> hkey (h ! i))
     \<and> (\<forall>i. 0 < i \<and> i < length h \<and> par i = k \<and> 0 < k \<longrightarrow> hkey (h ! par k) \<le> hkey (h ! i))"

definition down_inv :: "nat \<Rightarrow> mergeHeapItem list \<Rightarrow> bool" where
  "down_inv k h \<longleftrightarrow>
     (\<forall>i. 0 < i \<and> i < length h \<and> par i \<noteq> k \<longrightarrow> hkey (h ! par i) \<le> hkey (h ! i))
     \<and> (\<forall>i. 0 < i \<and> i < length h \<and> par i = k \<and> 0 < k \<longrightarrow> hkey (h ! par k) \<le> hkey (h ! i))"

lemma length_swap_items [simp]: "length (swap_items i j h) = length h"
  by (simp add: swap_items_def)

lemma nth_swap_items:
  "i < length h \<Longrightarrow> j < length h \<Longrightarrow> swap_items i j h ! x = (if x = j then h ! i else if x = i then h ! j else h ! x)"
  by (auto simp: swap_items_def nth_list_update)

lemma mset_swap_items: "i < length h \<Longrightarrow> j < length h \<Longrightarrow> mset (swap_items i j h) = mset h"
  by (cases "i = j") (simp_all add: swap_items_def mset_swap)

lemma up_inv_swap:
  assumes "up_inv k h" "0 < k" "hkey (h ! k) < hkey (h ! par k)"
  shows "up_inv (par k) (swap_items k (par k) h)"
proof -
  have k: "k < length h" "par k < length h" "par k < k" using assms(1,2) par_less [of k] by (auto simp: up_inv_def)
  have inv: "\<And>i. 0 < i \<Longrightarrow> i < length h \<Longrightarrow> i \<noteq> k \<Longrightarrow> hkey (h ! par i) \<le> hkey (h ! i)"
    "\<And>i. 0 < i \<Longrightarrow> i < length h \<Longrightarrow> par i = k \<Longrightarrow> hkey (h ! par k) \<le> hkey (h ! i)"
    using assms(1,2) unfolding up_inv_def by blast+
  note nth = nth_swap_items [OF k(1,2)]
  have "hkey (swap_items k (par k) h ! par i) \<le> hkey (swap_items k (par k) h ! i)"
    if i: "0 < i" "i < length h" "i \<noteq> par k" for i
  proof (cases "i = k")
    case True
    then show ?thesis using assms(3) k(3) by (simp add: nth less_imp_le)
  next
    case False
    then show ?thesis using inv [OF i(1,2)] i k(3) assms(3) by (auto simp: nth)
  qed
  moreover have "hkey (swap_items k (par k) h ! par (par k)) \<le> hkey (swap_items k (par k) h ! i)"
    if i: "0 < i" "i < length h" "par i = par k" "0 < par k" for i
  proof -
    have p: "par (par k) < par k" using i(4) by (rule par_less)
    have up: "hkey (h ! par (par k)) \<le> hkey (h ! par k)" using inv(1) [of "par k"] i(4) k by simp
    show ?thesis
    proof (cases "i = k")
      case True
      then show ?thesis using up p k(3) by (simp add: nth)
    next
      case False
      have "par k \<noteq> i" using par_less [OF i(1)] i(3) by simp
      then show ?thesis using inv(1) [OF i(1,2) False] up p k(3) i(3) False by (auto simp: nth)
    qed
  qed
  ultimately show ?thesis using k(2) unfolding up_inv_def by simp
qed

lemma push_loop_ok: "up_inv k h \<Longrightarrow> heap_ok (push_loop k h) \<and> mset (push_loop k h) = mset h"
proof (induction k h rule: push_loop.induct)
  case (1 k h)
  show ?case
  proof (cases "k = 0 \<or> \<not> mergeHeapLess (h ! k) (h ! par k)")
    case True
    have "heap_ok h"
      unfolding heap_ok_def
    proof (intro allI impI)
      show "hkey (h ! par i) \<le> hkey (h ! i)" if "0 < i \<and> i < length h" for i
        using True that "1.prems" by (cases "i = k") (auto simp: up_inv_def mergeHeapLess_hkey not_less)
    qed
    moreover have "push_loop k h = h" using True by (subst push_loop.simps) (auto simp: Let_def)
    ultimately show ?thesis by simp
  next
    case False
    then have k: "k \<noteq> 0" "mergeHeapLess (h ! k) (h ! par k)" by auto
    have "up_inv (par k) (swap_items k (par k) h)"
      using up_inv_swap [OF "1.prems"] k by (simp add: mergeHeapLess_hkey)
    from "1.IH" [OF k(1) refl _ this] k(2)
    have "heap_ok (push_loop (par k) (swap_items k (par k) h)) \<and> mset (push_loop (par k) (swap_items k (par k) h)) = mset (swap_items k (par k) h)"
      by blast
    moreover have "push_loop k h = push_loop (par k) (swap_items k (par k) h)" using k by (subst push_loop.simps) (simp add: Let_def)
    moreover have "mset (swap_items k (par k) h) = mset h" using "1.prems" k(1) par_less [of k]
      by (intro mset_swap_items) (auto simp: up_inv_def)
    ultimately show ?thesis by simp
  qed
qed

lemma push_ok:
  assumes "heap_ok h"
  shows "heap_ok (push item h)" "mset (push item h) = add_mset item (mset h)"
proof -
  have "par i < length h \<and> (i \<noteq> length h \<longrightarrow> i < length h) \<and> par i \<noteq> length h" if "0 < i" "i < length (h @ [item])" for i
    using par_less [OF that(1)] that(2) by auto
  then have "up_inv (length h) (h @ [item])"
    using assms by (auto simp: up_inv_def heap_ok_def nth_append)
  from push_loop_ok [OF this] show "heap_ok (push item h)" "mset (push item h) = add_mset item (mset h)"
    by (simp_all add: push_def)
qed

lemma child_par: "0 < i \<Longrightarrow> par i = k \<longleftrightarrow> i = k * 2 + 1 \<or> i = k * 2 + 2"
  unfolding par_def by presburger

lemma smallest_child:
  assumes "left = index * 2 + 1" "left < length h"
  shows "smallest_child h left < length h" "0 < smallest_child h left" "par (smallest_child h left) = index"
    and "\<And>i. 0 < i \<Longrightarrow> i < length h \<Longrightarrow> par i = index \<Longrightarrow> hkey (h ! smallest_child h left) \<le> hkey (h ! i)"
  using assms by (auto simp: smallest_child_def Let_def child_par mergeHeapLess_hkey not_less less_imp_le)

lemma down_inv_swap:
  assumes inv: "down_inv k h" and s: "s < length h" "0 < s" "par s = k"
    and small: "\<And>i. 0 < i \<Longrightarrow> i < length h \<Longrightarrow> par i = k \<Longrightarrow> hkey (h ! s) \<le> hkey (h ! i)"
    and less: "hkey (h ! s) < hkey (h ! k)"
  shows "down_inv s (swap_items k s h)"
proof -
  have k: "k < length h" "k < s" using s par_less [of s] by auto
  have inv1: "\<And>i. 0 < i \<Longrightarrow> i < length h \<Longrightarrow> par i \<noteq> k \<Longrightarrow> hkey (h ! par i) \<le> hkey (h ! i)"
    and inv2: "\<And>i. 0 < i \<Longrightarrow> i < length h \<Longrightarrow> par i = k \<Longrightarrow> 0 < k \<Longrightarrow> hkey (h ! par k) \<le> hkey (h ! i)"
    using inv unfolding down_inv_def by blast+
  note nth = nth_swap_items [OF k(1) s(1)]
  have "hkey (swap_items k s h ! par i) \<le> hkey (swap_items k s h ! i)"
    if i: "0 < i" "i < length h" "par i \<noteq> s" for i
  proof -
    consider "i = k" | "i = s" | "i \<noteq> k" "i \<noteq> s" "par i = k" | "i \<noteq> k" "i \<noteq> s" "par i \<noteq> k" by blast
    then show ?thesis
    proof cases
      case 1
      then have "par k \<noteq> k" using par_less [OF i(1)] by simp
      then show ?thesis using 1 inv2 [OF s(2,1,3)] i k(2) by (simp add: nth)
    next
      case 2
      then show ?thesis using less s k by (simp add: nth less_imp_le)
    next
      case 3
      then show ?thesis using small [OF i(1,2)] k(2) by (simp add: nth)
    next
      case 4
      then show ?thesis using inv1 [OF i(1,2)] i(3) by (simp add: nth)
    qed
  qed
  moreover have "hkey (swap_items k s h ! par s) \<le> hkey (swap_items k s h ! i)"
    if i: "0 < i" "i < length h" "par i = s" for i
  proof -
    have "i \<noteq> s" "i \<noteq> k" using par_less [OF i(1)] i(3) k(2) by auto
    then show ?thesis using inv1 [OF i(1,2)] i(3) s(3) k(2) by (simp add: nth)
  qed
  ultimately show ?thesis unfolding down_inv_def by simp
qed

lemma pop_loop_ok: "down_inv k h \<Longrightarrow> heap_ok (pop_loop k h) \<and> mset (pop_loop k h) = mset h"
proof (induction k h rule: pop_loop.induct)
  case (1 k h)
  let ?left = "k * 2 + 1" and ?s = "smallest_child h (k * 2 + 1)"
  show ?case
  proof (cases "?left < length h \<and> mergeHeapLess (h ! ?s) (h ! k)")
    case False
    have "hkey (h ! par i) \<le> hkey (h ! i)" if i: "0 < i" "i < length h" for i
    proof (cases "par i = k")
      case True
      then have l: "?left < length h" using child_par [OF i(1), of k] i(2) by auto
      then have "hkey (h ! k) \<le> hkey (h ! ?s)" using False by (simp add: mergeHeapLess_hkey not_less)
      also have "\<dots> \<le> hkey (h ! i)" using smallest_child(4) [OF refl l i True] .
      finally show ?thesis using True by simp
    qed (use "1.prems" i in \<open>auto simp: down_inv_def\<close>)
    moreover have "pop_loop k h = h" using False by (subst pop_loop.simps) (auto simp: Let_def not_less)
    ultimately show ?thesis by (simp add: heap_ok_def)
  next
    case True
    then have l: "?left < length h" by simp
    note sc = smallest_child [OF refl l]
    have d: "down_inv ?s (swap_items k ?s h)"
      using "1.prems" sc True by (intro down_inv_swap) (auto simp: mergeHeapLess_hkey)
    have "heap_ok (pop_loop ?s (swap_items k ?s h)) \<and> mset (pop_loop ?s (swap_items k ?s h)) = mset (swap_items k ?s h)"
      by (rule "1.IH" [OF refl _ refl _ d]) (use True in auto)
    moreover have "pop_loop k h = pop_loop ?s (swap_items k ?s h)" using True by (subst pop_loop.simps) (simp add: Let_def)
    moreover have "mset (swap_items k ?s h) = mset h" using l sc(1) by (intro mset_swap_items) auto
    ultimately show ?thesis by simp
  qed
qed

lemma mset_pop_start:
  assumes "h \<noteq> []"
  shows "add_mset (h ! 0) (mset (butlast (h[0 := last h]))) = mset h"
proof (cases "length h = 1")
  case True
  then show ?thesis by (cases h) auto
next
  case False
  then obtain a t z where h: "h = a # t @ [z]" using assms by (cases h; cases "tl h" rule: rev_cases) auto
  then show ?thesis by (simp add: butlast_append)
qed

lemma pop_ok:
  assumes "heap_ok h" "h \<noteq> []" "pop h = (item, h')"
  shows "heap_ok h'" "add_mset item (mset h') = mset h" "item = h ! 0"
proof -
  let ?g = "butlast (h[0 := last h])"
  have "down_inv 0 ?g"
    unfolding down_inv_def
  proof (intro conjI allI impI)
    fix i
    assume i: "0 < i \<and> i < length ?g \<and> par i \<noteq> 0"
    then have "0 < i" "i < length h" by auto
    then have "hkey (h ! par i) \<le> hkey (h ! i)" using assms(1) by (simp add: heap_ok_def)
    moreover have "par i < length ?g" using i par_less [of i] by simp
    ultimately show "hkey (?g ! par i) \<le> hkey (?g ! i)" using i by (simp add: nth_butlast)
  qed simp
  from pop_loop_ok [OF this] assms(3) mset_pop_start [OF assms(2)]
  show "heap_ok h'" "add_mset item (mset h') = mset h" "item = h ! 0" by (auto simp: pop_def)
qed

lemma heap_root_min: "heap_ok h \<Longrightarrow> i < length h \<Longrightarrow> hkey (h ! 0) \<le> hkey (h ! i)"
proof (induction i rule: less_induct)
  case (less i)
  show ?case
  proof (cases "i = 0")
    case False
    then have "hkey (h ! 0) \<le> hkey (h ! par i)" using less par_less [of i] by simp
    also have "\<dots> \<le> hkey (h ! i)" using less.prems False by (simp add: heap_ok_def)
    finally show ?thesis .
  qed simp
qed

section \<open>Entry sources\<close>

text \<open>
  The contract of \<open>tableEntryIterator\<close>: \<open>holds i es\<close> says that iterator \<open>i\<close> will yield exactly \<open>es\<close>.
\<close>

locale entry_source =
  fixes nxt :: "'i \<Rightarrow> ('i \<times> (sst_error + TableEntry option)) option"
    and holds :: "'i \<Rightarrow> TableEntry list \<Rightarrow> bool"
  assumes nxt_Cons: "holds i (e # es) \<Longrightarrow> \<exists>i'. nxt i = Some (i', Inr (Some e)) \<and> holds i' es"
    and nxt_Nil: "holds i [] \<Longrightarrow> \<exists>i'. nxt i = Some (i', Inr None) \<and> holds i' []"

text \<open>An iterator over a table, \<open>b\<close> of whose blocks are loaded.\<close>

definition table_iterator :: "sstableEntryIterator \<Rightarrow> TableEntry list \<Rightarrow> bool" where
  "table_iterator it es \<longleftrightarrow> (\<exists>content gs all r. it_reader it = Some r \<and> reads_table content gs all r
     \<and> (if it_done it then es = []
        else it_block it \<le> length gs \<and> it_entry it \<le> length (it_entries it)
           \<and> es = drop (it_entry it) (it_entries it) @ concat (drop (it_block it) gs)
           \<and> it_seen it = of_nat (length all - length es) \<and> length es \<le> length all
           \<and> it_haveFirst it = (it_block it > 0) \<and> it_haveLastKey it = (it_block it > 0)
           \<and> (it_block it > 0 \<longrightarrow> it_firstKey it = te_Key (hd all)
                \<and> it_entries it = gs ! (it_block it - 1) \<and> it_lastKey it = te_Key (last (gs ! (it_block it - 1))))
           \<and> (it_block it = 0 \<longrightarrow> it_entries it = [])))"

lemma cloneTableEntry_id [simp]: "cloneTableEntry e = e"
  by (simp add: cloneTableEntry_def)

lemma table_iterator_new: "reads_table content gs es r \<Longrightarrow> table_iterator (newSSTableEntryIterator (Some r)) es"
  unfolding table_iterator_def newSSTableEntryIterator_def
  by (intro exI [of _ content] exI [of _ gs] exI [of _ es] exI [of _ r]) (simp add: reads_table_def)

lemma reads_table_groups:
  assumes "reads_table content gs all r"
  shows "length (sr_index r) = length gs" "concat gs = all" "length all \<le> max_int" "sr_entryCount r = of_nat (length all)"
    "\<And>g. g \<in> set gs \<Longrightarrow> g \<noteq> []"
  using assms by (auto simp: reads_table_def block_of_def list_all2_conv_all_nth in_set_conv_nth dest: list_all2_lengthD)

text \<open>The clauses of \<open>table_iterator\<close> for an iterator that is not done.\<close>

definition iterating :: "TableEntry list list \<Rightarrow> TableEntry list \<Rightarrow> sstableEntryIterator \<Rightarrow> TableEntry list \<Rightarrow> bool" where
  "iterating gs all it es \<longleftrightarrow> \<not> it_done it \<and> it_block it \<le> length gs \<and> it_entry it \<le> length (it_entries it)
     \<and> es = drop (it_entry it) (it_entries it) @ concat (drop (it_block it) gs)
     \<and> it_seen it = of_nat (length all - length es) \<and> length es \<le> length all
     \<and> it_haveFirst it = (it_block it > 0) \<and> it_haveLastKey it = (it_block it > 0)
     \<and> (it_block it > 0 \<longrightarrow> it_firstKey it = te_Key (hd all)
          \<and> it_entries it = gs ! (it_block it - 1) \<and> it_lastKey it = te_Key (last (gs ! (it_block it - 1))))
     \<and> (it_block it = 0 \<longrightarrow> it_entries it = [])"

lemma table_iterator_alt:
  "table_iterator it es \<longleftrightarrow> (\<exists>content gs all r. it_reader it = Some r \<and> reads_table content gs all r
     \<and> (it_done it \<and> es = [] \<or> iterating gs all it es))"
  unfolding table_iterator_def iterating_def by (intro ex_cong1) auto

lemma block_group:
  assumes "reads_table content gs all r" "b < length gs"
  shows "\<exists>data. readBlock (sr_r r) (ix_offset (sr_index r ! b)) (ix_length (sr_index r ! b)) = Inr data
    \<and> decodeRecords [] data = Inr (gs ! b) \<and> ix_firstKey (sr_index r ! b) = te_Key (hd (gs ! b))"
    and "bloom_covers (sr_bloom r) (gs ! b) = Some True"
proof -
  have in_all: "set (gs ! b) \<subseteq> set all" using nth_mem [OF assms(2)] reads_table_groups(2) [OF assms(1)] by auto
  obtain blocks where "list_all2 block_of blocks gs" "list_all2 (index_of content) (sr_index r) blocks"
    using assms(1) unfolding reads_table_def by blast
  then have "block_of (blocks ! b) (gs ! b)" "index_of content (sr_index r ! b) (blocks ! b)"
    using assms(2) by (auto simp: list_all2_conv_all_nth)
  moreover have "sorted_entries (concat (take b gs @ gs ! b # drop (Suc b) gs))"
    using assms by (simp add: id_take_nth_drop [symmetric] reads_table_def)
  then have "sorted_entries (gs ! b)" by (simp add: sorted_wrt_append)
  moreover have "length content \<le> max_int" "\<forall>e \<in> set (gs ! b). normal_entry e" "sr_r r = file_ReadAt content"
    using assms(1) in_all by (auto simp: reads_table_def)
  ultimately show "\<exists>data. readBlock (sr_r r) (ix_offset (sr_index r ! b)) (ix_length (sr_index r ! b)) = Inr data
    \<and> decodeRecords [] data = Inr (gs ! b) \<and> ix_firstKey (sr_index r ! b) = te_Key (hd (gs ! b))"
    using block_records [of "blocks ! b" "gs ! b" content "sr_index r ! b"] by auto
  show "bloom_covers (sr_bloom r) (gs ! b) = Some True"
    using assms(1) in_all by (intro bloom_covers_all) (auto simp: reads_table_def)
qed

lemma load_block_iterating:
  assumes r: "reads_table content gs all r" and it: "iterating gs all it es"
    and e: "it_entry it = length (it_entries it)" "it_block it < length gs"
  shows "\<exists>it1. load_block r it = Some (Inr it1) \<and> iterating gs all it1 es \<and> it_entry it1 < length (it_entries it1)
    \<and> it_reader it1 = it_reader it"
proof -
  let ?b = "it_block it"
  have ne: "gs ! ?b \<noteq> []" using reads_table_groups(5) [OF r] e(2) by simp
  have sep: "sorted_wrt (\<lambda>g h. \<forall>a \<in> set g. \<forall>b \<in> set h. te_Key a < te_Key b) gs" using r by (simp add: reads_table_def)
  have past: "?b = 0 \<or> \<not> te_Key (hd (gs ! ?b)) \<le> it_lastKey it"
  proof (cases "?b = 0")
    case False
    then have that: "?b > 0" by simp
    have g: "gs ! (?b - 1) \<noteq> []" using that e(2) reads_table_groups(5) [OF r] by simp
    have "\<forall>a \<in> set (gs ! (?b - 1)). \<forall>b \<in> set (gs ! ?b). te_Key a < te_Key b"
      using sorted_wrt_nth_less [OF sep, of "?b - 1" ?b] that e(2) by simp
    then show ?thesis using it that ne g by (simp add: iterating_def not_le)
  qed simp
  obtain data where d: "readBlock (sr_r r) (ix_offset (sr_index r ! ?b)) (ix_length (sr_index r ! ?b)) = Inr data"
    "decodeRecords [] data = Inr (gs ! ?b)" "ix_firstKey (sr_index r ! ?b) = te_Key (hd (gs ! ?b))"
    using block_group(1) [OF r e(2)] by blast
  let ?it1 = "(if it_haveFirst it then it else it\<lparr>it_firstKey := te_Key (hd (gs ! ?b)), it_haveFirst := True\<rparr>)
      \<lparr>it_lastKey := te_Key (last (gs ! ?b)), it_haveLastKey := True, it_entries := gs ! ?b, it_entry := 0, it_block := ?b + 1\<rparr>"
  have hv: "it_haveLastKey it = (?b > 0)" "it_haveFirst it = (?b > 0)" using it by (auto simp: iterating_def)
  have load: "load_block r it = Some (Inr ?it1)"
    using d ne past hv block_group(2) [OF r e(2)] by (simp add: load_block_def Let_def)
  have "es = concat (drop ?b gs)" using it e(1) by (simp add: iterating_def)
  also have "drop ?b gs = gs ! ?b # drop (Suc ?b) gs" using e(2) by (simp add: Cons_nth_drop_Suc)
  finally have es: "es = gs ! ?b @ concat (drop (Suc ?b) gs)" by simp
  have first: "te_Key (hd (gs ! 0)) = te_Key (hd all)" if "?b = 0"
    using reads_table_groups(2) [OF r] ne that e(2) by (cases gs) auto
  have f: "\<not> it_done it" "it_seen it = of_nat (length all - length es)" "length es \<le> length all"
    "?b > 0 \<longrightarrow> it_firstKey it = te_Key (hd all)"
    using it unfolding iterating_def by blast+
  have "iterating gs all ?it1 es"
    using f es first hv e(2) unfolding iterating_def by auto
  with load ne show ?thesis by (intro exI [of _ ?it1]) auto
qed

lemma emit_iterating:
  assumes r: "reads_table content gs all r" and it: "iterating gs all it (e # es)" and lt: "it_entry it < length (it_entries it)"
  shows "\<exists>it1. emit_entry r it = (it1, Inr (Some e)) \<and> iterating gs all it1 es \<and> it_reader it1 = it_reader it"
proof -
  let ?it1 = "it\<lparr>it_entry := it_entry it + 1, it_seen := it_seen it + 1\<rparr>"
  have dr: "drop (it_entry it) (it_entries it) = it_entries it ! it_entry it # drop (Suc (it_entry it)) (it_entries it)"
    using lt by (simp add: Cons_nth_drop_Suc)
  have e: "e = it_entries it ! it_entry it" "es = drop (Suc (it_entry it)) (it_entries it) @ concat (drop (it_block it) gs)"
    using it dr by (auto simp: iterating_def)
  have len: "Suc (length es) \<le> length all" "it_seen it = of_nat (length all - Suc (length es))"
    using it by (auto simp: iterating_def)
  have seen: "it_seen it + 1 = of_nat (length all - length es)"
  proof -
    have "length all - length es = Suc (length all - Suc (length es))" using len(1) by simp
    then show ?thesis using len(2) by (simp only: of_nat_Suc add.commute)
  qed
  have "length all \<le> max_int" "sr_entryCount r = of_nat (length all)" using reads_table_groups [OF r] by auto
  then have "\<not> it_seen it + 1 > sr_entryCount r"
    unfolding seen not_less by (simp add: word_le_nat_alt unat_small)
  then have "emit_entry r it = (?it1, Inr (Some e))" using e(1) by (simp add: emit_entry_def Let_def)
  moreover have "iterating gs all ?it1 es" using it e(2) seen lt len unfolding iterating_def by auto
  ultimately show ?thesis by (intro exI [of _ ?it1]) simp
qed

lemma iterator_Next_Cons:
  assumes "table_iterator it (e # es)"
  shows "\<exists>it'. iterator_Next it = Some (it', Inr (Some e)) \<and> table_iterator it' es"
proof -
  from assms obtain content gs all r where r: "it_reader it = Some r" "reads_table content gs all r" "iterating gs all it (e # es)"
    unfolding table_iterator_alt by blast
  have nd: "\<not> it_done it" using r(3) by (simp add: iterating_def)
  show ?thesis
  proof (cases "it_entry it = length (it_entries it)")
    case True
    have blk: "it_block it < length gs"
      using r(3) True by (cases "it_block it = length gs") (auto simp: iterating_def)
    obtain it1 where it1: "load_block r it = Some (Inr it1)" "iterating gs all it1 (e # es)" "it_entry it1 < length (it_entries it1)"
        "it_reader it1 = it_reader it"
      using load_block_iterating [OF r(2,3) True blk] by blast
    obtain it2 where it2: "emit_entry r it1 = (it2, Inr (Some e))" "iterating gs all it2 es" "it_reader it2 = it_reader it1"
      using emit_iterating [OF r(2) it1(2,3)] by blast
    have "iterator_Next it = Some (it2, Inr (Some e))"
      using r(1) nd True blk it1(1) it2(1) reads_table_groups(1) [OF r(2)] by (simp add: iterator_Next_def)
    moreover have "table_iterator it2 es" unfolding table_iterator_alt using r it1(4) it2(2,3) by auto
    ultimately show ?thesis by blast
  next
    case False
    then have lt: "it_entry it < length (it_entries it)" using r(3) by (simp add: iterating_def)
    obtain it2 where it2: "emit_entry r it = (it2, Inr (Some e))" "iterating gs all it2 es" "it_reader it2 = it_reader it"
      using emit_iterating [OF r(2,3) lt] by blast
    have "iterator_Next it = Some (it2, Inr (Some e))" using r(1) nd False it2(1) by (simp add: iterator_Next_def)
    moreover have "table_iterator it2 es" unfolding table_iterator_alt using r it2(2,3) by auto
    ultimately show ?thesis by blast
  qed
qed

lemma concat_last: "gs \<noteq> [] \<Longrightarrow> last gs \<noteq> [] \<Longrightarrow> last (concat gs) = last (last gs)"
  by (cases gs rule: rev_cases) auto

lemma iterator_Next_Nil:
  assumes "table_iterator it []"
  shows "\<exists>it'. iterator_Next it = Some (it', Inr None) \<and> table_iterator it' []"
proof -
  from assms obtain content gs all r where r: "it_reader it = Some r" "reads_table content gs all r"
    and cases: "it_done it \<or> iterating gs all it []"
    unfolding table_iterator_alt by blast
  show ?thesis
  proof (cases "it_done it")
    case True
    then show ?thesis using r assms by (simp add: iterator_Next_def)
  next
    case False
    then have it: "iterating gs all it []" using cases by simp
    then have en: "it_entry it = length (it_entries it)" "concat (drop (it_block it) gs) = []" "it_block it \<le> length gs"
      "it_seen it = of_nat (length all)" by (auto simp: iterating_def)
    have blk: "it_block it = length gs"
    proof (rule ccontr)
      assume "it_block it \<noteq> length gs"
      then have "it_block it < length gs" using en(3) by simp
      then have "gs ! it_block it \<noteq> []" "gs ! it_block it \<in> set (drop (it_block it) gs)"
        using reads_table_groups(5) [OF r(2), of "gs ! it_block it"] by (simp, simp add: Cons_nth_drop_Suc [symmetric])
      with en(2) show False by (metis concat_eq_Nil_conv)
    qed
    have keys: "it_firstKey it = sr_minKey r \<and> it_lastKey it = sr_maxKey r" if "it_seen it \<noteq> 0"
    proof -
      have all: "all \<noteq> []" using that en(4) by auto
      then have g: "gs \<noteq> []" using reads_table_groups(2) [OF r(2)] by auto
      then have "last gs \<noteq> []" using reads_table_groups(5) [OF r(2)] by simp
      then have "last (gs ! (length gs - 1)) = last all"
        using reads_table_groups(2) [OF r(2)] g concat_last [of gs] by (simp add: last_conv_nth)
      then show ?thesis using it blk g all r(2) by (auto simp: iterating_def reads_table_def)
    qed
    have "iterator_Next it = Some (it\<lparr>it_done := True\<rparr>, Inr None)"
      using False en blk r keys reads_table_groups [OF r(2)] by (auto simp: iterator_Next_def Let_def)
    moreover have "table_iterator (it\<lparr>it_done := True\<rparr>) []" unfolding table_iterator_alt using r by auto
    ultimately show ?thesis by blast
  qed
qed

interpretation table_source: entry_source iterator_Next table_iterator
  by unfold_locales (simp_all add: iterator_Next_Cons iterator_Next_Nil)

section \<open>Correctness of the merge\<close>

definition heads :: "TableEntry list list \<Rightarrow> mergeHeapItem list" where
  "heads rem = map (\<lambda>i. \<lparr>mh_entry = hd (rem ! i), mh_input = i\<rparr>) (filter (\<lambda>i. rem ! i \<noteq> []) [0..<length rem])"

lemma heads_update:
  assumes "i < length rem"
  shows "mset (heads (rem[i := x # xs])) = add_mset \<lparr>mh_entry = x, mh_input = i\<rparr> (mset (heads (rem[i := []])))"
proof -
  have u: "[0..<length rem] = [0..<i] @ i # [Suc i..<length rem]"
    using assms by (metis append_Cons append_Nil le_add1 less_imp_add_positive upt_add_eq_append upt_conv_Cons zero_le)
  have f: "map (\<lambda>j. \<lparr>mh_entry = hd (rem[i := z] ! j), mh_input = j\<rparr>) (filter (\<lambda>j. rem[i := z] ! j \<noteq> []) js)
      = map (\<lambda>j. \<lparr>mh_entry = hd (rem ! j), mh_input = j\<rparr>) (filter (\<lambda>j. rem ! j \<noteq> []) js)"
    if "i \<notin> set js" for js z
    using that by (induction js) auto
  show ?thesis
    using assms unfolding heads_def length_list_update u by (simp add: f)
qed

lemma heads_member:
  "item \<in> set (heads rem) \<longleftrightarrow> mh_input item < length rem \<and> (\<exists>es. rem ! mh_input item = mh_entry item # es)"
  by (cases item) (auto simp: heads_def neq_Nil_conv image_iff)

lemma heads_Nil: "heads rem = [] \<longleftrightarrow> (\<forall>es \<in> set rem. es = [])"
  by (auto simp: heads_def filter_empty_conv all_set_conv_all_nth)

definition merge_inv :: "('i \<Rightarrow> TableEntry list \<Rightarrow> bool) \<Rightarrow> 'i kWayMergeIterator \<Rightarrow> TableEntry list list \<Rightarrow> bool" where
  "merge_inv holds m rem \<longleftrightarrow> heap_ok (km_heap m) \<and> length (km_inputs m) = length rem
     \<and> mset (km_heap m) = mset (heads rem) \<and> (\<forall>i < length rem. holds (km_inputs m ! i) (tl (rem ! i)))
     \<and> (\<forall>es \<in> set rem. sorted_entries es)"

text \<open>Entries with the same key and sequence number are the same record.\<close>

definition consistent :: "TableEntry set \<Rightarrow> bool" where
  "consistent E \<longleftrightarrow> (\<forall>a \<in> E. \<forall>b \<in> E. te_Key a = te_Key b \<and> te_Seq a = te_Seq b \<longrightarrow> sameTableRecord a b)"

abbreviation all_entries :: "TableEntry list list \<Rightarrow> TableEntry set" where
  "all_entries rem \<equiv> \<Union> (set ` set rem)"

abbreviation skip_key :: "bytes \<Rightarrow> TableEntry list \<Rightarrow> TableEntry list" where
  "skip_key key \<equiv> dropWhile (\<lambda>e. te_Key e = key)"

lemma sorted_entries_ge: "sorted_entries (e # es) \<Longrightarrow> x \<in> set (e # es) \<Longrightarrow> te_Key e \<le> te_Key x"
  by (auto dest: entry_less_key)

lemma skip_key_entries:
  assumes "sorted_entries es" "\<forall>e \<in> set es. key \<le> te_Key e"
  shows "set (skip_key key es) = {e \<in> set es. te_Key e \<noteq> key}" "sorted_entries (skip_key key es)"
  using assms
proof (induction es)
  case (Cons e es)
  {
    case 1
    show ?case
    proof (cases "te_Key e = key")
      case False
      then have "key < te_Key e" using 1 by (simp add: order_less_le)
      then have "\<forall>x \<in> set (e # es). te_Key x \<noteq> key" using sorted_entries_ge [OF 1(1)] by fastforce
      then show ?thesis using False by auto
    qed (use Cons 1 in auto)
  next
    case 2
    then show ?case using Cons by auto
  }
qed auto

lemma root_key_min:
  assumes "merge_inv holds m rem" "km_heap m \<noteq> []" "e \<in> all_entries rem"
  shows "te_Key (mh_entry (km_heap m ! 0)) \<le> te_Key e"
proof -
  from assms(3) obtain i where i: "i < length rem" "e \<in> set (rem ! i)" by (metis UN_E in_set_conv_nth)
  then obtain x xs where x: "rem ! i = x # xs" by (cases "rem ! i") auto
  then have "\<lparr>mh_entry = x, mh_input = i\<rparr> \<in> set (heads rem)" using i by (simp add: heads_member)
  then have "\<lparr>mh_entry = x, mh_input = i\<rparr> \<in> set (km_heap m)"
    using assms(1) mset_eq_setD unfolding merge_inv_def by blast
  then obtain j where j: "j < length (km_heap m)" "km_heap m ! j = \<lparr>mh_entry = x, mh_input = i\<rparr>" by (auto simp: in_set_conv_nth)
  have "hkey (km_heap m ! 0) \<le> hkey (km_heap m ! j)" using assms(1) j by (intro heap_root_min) (auto simp: merge_inv_def)
  then have "te_Key (mh_entry (km_heap m ! 0)) \<le> te_Key x" using j(2) by (auto simp: hkey_def less_eq_prod_def)
  also have "sorted_entries (x # xs)" using assms(1) nth_mem [OF i(1)] unfolding x merge_inv_def by blast
  then have "te_Key x \<le> te_Key e" using i(2) x by (intro sorted_entries_ge) simp_all
  finally show ?thesis .
qed

text \<open>The winner among the entries \<open>A\<close>.\<close>

definition wins :: "TableEntry set \<Rightarrow> TableEntry option \<Rightarrow> bool" where
  "wins A w = (case w of None \<Rightarrow> A = {} | Some x \<Rightarrow> x \<in> A \<and> (\<forall>y \<in> A. te_Seq y \<le> te_Seq x))"

lemma wins_add:
  assumes "wins A w"
  shows "wins (insert x A) (if w = None \<or> te_Seq x > te_Seq (the w) then Some x else w)"
  using assms by (cases w) (auto simp: wins_def)

lemma update_split:
  assumes "i < length rem" "rem ! i = e # es"
  shows "rem = take i rem @ (e # es) # drop (Suc i) rem" "rem[i := es] = take i rem @ es # drop (Suc i) rem"
  using id_take_nth_drop [OF assms(1)] upd_conv_take_nth_drop [OF assms(1), of es] assms(2) by simp_all

lemma all_entries_update:
  assumes "i < length rem" "rem ! i = e # es"
  shows "all_entries rem = insert e (all_entries (rem[i := es]))"
proof -
  have "set rem = insert (e # es) (set (take i rem) \<union> set (drop (Suc i) rem))"
    using arg_cong [OF update_split(1) [OF assms], of set] by simp
  moreover have "set (rem[i := es]) = insert es (set (take i rem) \<union> set (drop (Suc i) rem))"
    using arg_cong [OF update_split(2) [OF assms], of set] by simp
  ultimately show ?thesis by simp
qed

lemma drain_key_step:
  assumes "km_heap m \<noteq> []" "te_Key (mh_entry (km_heap m ! 0)) = key" "pop (km_heap m) = (item, heap)"
    and "\<not> (case versions (te_Seq (mh_entry item)) of Some prior \<Rightarrow> \<not> sameTableRecord (mh_entry item) prior | None \<Rightarrow> False)"
    and "next (km_inputs m ! mh_input item) = Some (source, Inr r)"
    and w1: "w1 = (if w = None \<or> te_Seq (mh_entry item) > te_Seq (the w) then Some (mh_entry item) else w)"
    and v1: "v1 = (if versions (te_Seq (mh_entry item)) = None then versions(te_Seq (mh_entry item) \<mapsto> mh_entry item) else versions)"
  shows "drain_key next key w versions m = drain_key next key w1 v1
     (m\<lparr>km_inputs := (km_inputs m)[mh_input item := source],
        km_heap := (case r of None \<Rightarrow> heap | Some e \<Rightarrow> push \<lparr>mh_entry = e, mh_input = mh_input item\<rparr> heap)\<rparr>)"
  unfolding w1 v1
  by (cases m; cases r; subst drain_key.simps)
    (use assms(1-5) in \<open>simp_all add: Let_def cong: if_cong split del: if_split\<close>)

context entry_source
begin

lemma merge_advance:
  assumes inv: "merge_inv holds m rem" and ne: "km_heap m \<noteq> []" and pop: "pop (km_heap m) = (item, heap)"
  shows "\<exists>es source r m2. mh_input item < length rem \<and> rem ! mh_input item = mh_entry item # es
    \<and> nxt (km_inputs m ! mh_input item) = Some (source, Inr r)
    \<and> m2 = m\<lparr>km_inputs := (km_inputs m)[mh_input item := source],
            km_heap := (case r of None \<Rightarrow> heap | Some e \<Rightarrow> push \<lparr>mh_entry = e, mh_input = mh_input item\<rparr> heap)\<rparr>
    \<and> merge_inv holds m2 (rem[mh_input item := es])"
proof -
  let ?i = "mh_input item"
  have hp: "heap_ok heap" "add_mset item (mset heap) = mset (heads rem)"
    using pop_ok [OF _ ne pop] inv by (auto simp: merge_inv_def)
  then have "item \<in> set (heads rem)" by (metis set_mset_mset union_single_eq_member)
  then obtain es where i: "?i < length rem" "rem ! ?i = mh_entry item # es" by (auto simp: heads_member)
  have eqi: "rem[?i := mh_entry item # es] = rem" using i by (simp flip: i(2))
  have item: "\<lparr>mh_entry = mh_entry item, mh_input = ?i\<rparr> = item" by simp
  have heap: "mset heap = mset (heads (rem[?i := []]))"
    using heads_update [OF i(1), of "mh_entry item" es] hp(2) unfolding eqi item by simp
  have h: "holds (km_inputs m ! ?i) es" "length (km_inputs m) = length rem" using inv i by (auto simp: merge_inv_def dest: spec [of _ ?i])
  have others: "\<forall>j < length rem. holds (((km_inputs m)[?i := source]) ! j) (tl (rem[?i := es] ! j))" if "holds source (tl es)" for source
    using inv h(2) that i(1) by (auto simp: merge_inv_def nth_list_update)
  have "sorted_entries (mh_entry item # es)" using inv nth_mem [OF i(1)] unfolding i(2) merge_inv_def by blast
  then have sorted: "\<forall>xs \<in> set (rem[?i := es]). sorted_entries xs"
    using inv set_update_subset_insert [of rem ?i es] unfolding merge_inv_def by auto
  show ?thesis
  proof (cases es)
    case Nil
    then obtain source where s: "nxt (km_inputs m ! ?i) = Some (source, Inr None)" "holds source []"
      using nxt_Nil h(1) by blast
    show ?thesis using s i hp(1) heap others [of source] sorted Nil h(2)
      by (intro exI [of _ "[]"] exI [of _ source] exI [of _ None] exI conjI) (auto simp: merge_inv_def)
  next
    case (Cons e es')
    then obtain source where s: "nxt (km_inputs m ! ?i) = Some (source, Inr (Some e))" "holds source es'"
      using nxt_Cons h(1) by blast
    show ?thesis using s i push_ok [OF hp(1)] heap heads_update [OF i(1), of e es'] others [of source] sorted Cons h(2)
      by (intro exI [of _ es] exI [of _ source] exI [of _ "Some e"] exI conjI) (auto simp: merge_inv_def)
  qed
qed

lemma drain_key_ok:
  assumes "merge_inv holds m rem" "\<forall>e \<in> all_entries rem. key \<le> te_Key e"
    and "wins A w" "\<forall>q v. versions q = Some v \<longrightarrow> v \<in> A \<and> te_Seq v = q" "\<forall>a \<in> A. te_Key a = key"
    and "consistent (A \<union> all_entries rem)"
  shows "\<exists>m' w'. drain_key nxt key w versions m = Some (m', Inr w') \<and> merge_inv holds m' (map (skip_key key) rem)
    \<and> wins (A \<union> {e \<in> all_entries rem. te_Key e = key}) w'"
  using assms
proof (induction "sum_list (map length rem)" arbitrary: m rem w A versions rule: less_induct)
  case less
  note inv = less.prems(1)
  show ?case
  proof (cases "km_heap m = [] \<or> te_Key (mh_entry (km_heap m ! 0)) \<noteq> key")
    case True
    have none: "\<forall>e \<in> all_entries rem. te_Key e \<noteq> key"
    proof (cases "km_heap m = []")
      case True
      then have "heads rem = []" using inv by (simp add: merge_inv_def)
      then show ?thesis by (fastforce simp: heads_Nil)
    next
      case False
      have "set (km_heap m) = set (heads rem)" using inv mset_eq_setD unfolding merge_inv_def by blast
      then have "km_heap m ! 0 \<in> set (heads rem)" using False nth_mem [of 0 "km_heap m"] by simp
      then have "mh_entry (km_heap m ! 0) \<in> all_entries rem" by (fastforce simp: heads_member dest: nth_mem)
      then have "key < te_Key (mh_entry (km_heap m ! 0))" using True False less.prems(2) by (auto simp: order_less_le)
      then show ?thesis using root_key_min [OF inv False] by fastforce
    qed
    then have "map (skip_key key) rem = rem" by (intro map_idI) (auto simp: dropWhile_eq_self_iff)
    moreover have "drain_key nxt key w versions m = Some (m, Inr w)" using True by (subst drain_key.simps) simp
    moreover have un: "A \<union> {e \<in> all_entries rem. te_Key e = key} = A" using none by blast
    ultimately show ?thesis unfolding un using inv less.prems(3) by simp
  next
    case False
    obtain item heap where pop: "pop (km_heap m) = (item, heap)" by fastforce
    have root: "te_Key (mh_entry item) = key" using False pop by (auto simp: pop_def)
    obtain es source r m2 where i: "mh_input item < length rem" "rem ! mh_input item = mh_entry item # es"
      and n: "nxt (km_inputs m ! mh_input item) = Some (source, Inr r)"
      and m2: "m2 = m\<lparr>km_inputs := (km_inputs m)[mh_input item := source],
            km_heap := (case r of None \<Rightarrow> heap | Some e \<Rightarrow> push \<lparr>mh_entry = e, mh_input = mh_input item\<rparr> heap)\<rparr>"
      and inv2: "merge_inv holds m2 (rem[mh_input item := es])"
      using merge_advance [OF inv _ pop] False by blast
    let ?e = "mh_entry item" and ?rem = "rem[mh_input item := es]"
    let ?versions = "if versions (te_Seq ?e) = None then versions(te_Seq ?e \<mapsto> ?e) else versions"
    let ?w = "if w = None \<or> te_Seq ?e > te_Seq (the w) then Some ?e else w"
    note all = all_entries_update [OF i]
    have ok: "\<not> (case versions (te_Seq ?e) of Some prior \<Rightarrow> \<not> sameTableRecord ?e prior | None \<Rightarrow> False)"
      using less.prems(4-6) all root by (auto simp: consistent_def split: option.splits)
    have step: "drain_key nxt key w versions m = drain_key nxt key ?w ?versions m2"
      unfolding m2 by (rule drain_key_step) (use False pop ok n in auto)
    have "\<exists>m' w'. drain_key nxt key ?w ?versions m2 = Some (m', Inr w') \<and> merge_inv holds m' (map (skip_key key) ?rem)
        \<and> wins (insert ?e A \<union> {e \<in> all_entries ?rem. te_Key e = key}) w'"
    proof (rule less.hyps [OF _ inv2])
      show "sum_list (map length ?rem) < sum_list (map length rem)"
        using arg_cong [OF update_split(1) [OF i], of "\<lambda>x. sum_list (map length x)"]
          arg_cong [OF update_split(2) [OF i], of "\<lambda>x. sum_list (map length x)"] by simp
      show "\<forall>e \<in> all_entries ?rem. key \<le> te_Key e" using less.prems(2) all by simp
      show "wins (insert ?e A) ?w" by (rule wins_add [OF less.prems(3)])
      show "\<forall>q v. ?versions q = Some v \<longrightarrow> v \<in> insert ?e A \<and> te_Seq v = q" using less.prems(4) by auto
      show "\<forall>a \<in> insert ?e A. te_Key a = key" using less.prems(5) root by simp
      have "insert ?e A \<union> all_entries ?rem = A \<union> all_entries rem" unfolding all by blast
      then show "consistent (insert ?e A \<union> all_entries ?rem)" using less.prems(6) by simp
    qed
    moreover have "map (skip_key key) ?rem = map (skip_key key) rem"
      using i root by (simp add: map_update list_update_same_conv)
    moreover have "insert ?e A \<union> {e \<in> all_entries ?rem. te_Key e = key} = A \<union> {e \<in> all_entries rem. te_Key e = key}"
      unfolding all using root by blast
    ultimately show ?thesis unfolding step by simp
  qed
qed

text \<open>One call of \<open>Next\<close>: the smallest key, with its newest version.\<close>

lemma merge_Next_ok:
  assumes "merge_inv holds m rem" "consistent (all_entries rem)"
  shows "all_entries rem = {} \<Longrightarrow> \<exists>m'. merge_Next nxt m = Some (m', Inr None)"
    and "all_entries rem \<noteq> {} \<Longrightarrow> \<exists>m' e. merge_Next nxt m = Some (m', Inr (Some e)) \<and> merge_inv holds m' (map (skip_key (te_Key e)) rem)
      \<and> e \<in> all_entries rem \<and> (\<forall>x \<in> all_entries rem. te_Key e \<le> te_Key x \<and> (te_Key x = te_Key e \<longrightarrow> te_Seq x \<le> te_Seq e))"
proof -
  have heap: "km_heap m = [] \<longleftrightarrow> heads rem = []" using assms(1) by (auto simp: merge_inv_def)
  show "\<exists>m'. merge_Next nxt m = Some (m', Inr None)" if "all_entries rem = {}"
    using that heap by (auto simp: heads_Nil merge_Next_def)
  assume ne: "all_entries rem \<noteq> {}"
  then have h: "km_heap m \<noteq> []" using heap by (auto simp: heads_Nil)
  let ?key = "te_Key (mh_entry (km_heap m ! 0))"
  have min: "\<forall>e \<in> all_entries rem. ?key \<le> te_Key e" using root_key_min [OF assms(1) h] by blast
  have "set (km_heap m) = set (heads rem)" using assms(1) mset_eq_setD unfolding merge_inv_def by blast
  then have "km_heap m ! 0 \<in> set (heads rem)" using h nth_mem [of 0 "km_heap m"] by simp
  then have root: "mh_entry (km_heap m ! 0) \<in> all_entries rem" by (fastforce simp: heads_member dest: nth_mem)
  obtain m' w where d: "drain_key nxt ?key None Map.empty m = Some (m', Inr w)" "merge_inv holds m' (map (skip_key ?key) rem)"
    "wins ({} \<union> {e \<in> all_entries rem. te_Key e = ?key}) w"
    using drain_key_ok [OF assms(1) min, of "{}" None Map.empty] assms(2) by (auto simp: wins_def)
  from d(3) root obtain e where e: "w = Some e" "e \<in> all_entries rem" "te_Key e = ?key"
    "\<forall>x \<in> all_entries rem. te_Key x = ?key \<longrightarrow> te_Seq x \<le> te_Seq e"
    by (cases w) (auto simp: wins_def)
  show "\<exists>m' e. merge_Next nxt m = Some (m', Inr (Some e)) \<and> merge_inv holds m' (map (skip_key (te_Key e)) rem)
      \<and> e \<in> all_entries rem \<and> (\<forall>x \<in> all_entries rem. te_Key e \<le> te_Key x \<and> (te_Key x = te_Key e \<longrightarrow> te_Seq x \<le> te_Seq e))"
    using d(1,2) e min h by (intro exI [of _ m'] exI [of _ e]) (simp add: merge_Next_def)
qed

end

text \<open>
  The merge of the entries \<open>E\<close>: ascending keys, each with a version of \<open>E\<close> that no version of \<open>E\<close>
  exceeds.
\<close>

definition merges :: "TableEntry set \<Rightarrow> TableEntry list \<Rightarrow> bool" where
  "merges E out \<longleftrightarrow> sorted_wrt (\<lambda>a b. te_Key a < te_Key b) out \<and> set out \<subseteq> E
     \<and> (\<forall>e \<in> E. \<exists>w \<in> set out. te_Key w = te_Key e \<and> te_Seq e \<le> te_Seq w)"

lemma skip_key_all:
  assumes "\<forall>es \<in> set rem. sorted_entries es" "\<forall>e \<in> all_entries rem. key \<le> te_Key e"
  shows "all_entries (map (skip_key key) rem) = {e \<in> all_entries rem. te_Key e \<noteq> key}"
proof -
  have "set (skip_key key es) = {e \<in> set es. te_Key e \<noteq> key}" if "es \<in> set rem" for es
    using assms that by (intro skip_key_entries(1)) auto
  then show ?thesis by auto
qed

lemma skip_shorter:
  assumes "e \<in> all_entries rem" "te_Key e = key" "\<forall>es \<in> set rem. sorted_entries es" "\<forall>x \<in> all_entries rem. key \<le> te_Key x"
  shows "sum_list (map length (map (skip_key key) rem)) < sum_list (map length rem)"
proof -
  have le: "length (skip_key key es) \<le> length es" for es by (simp add: length_dropWhile_le)
  obtain es where es: "es \<in> set rem" "e \<in> set es" using assms(1) by blast
  from es(2) obtain x xs where x: "es = x # xs" by (metis list.set_cases)
  have "te_Key x \<le> key" using sorted_entries_ge [of x xs e] assms(2,3) es x by blast
  moreover have "key \<le> te_Key x" using assms(4) es(1) x by auto
  ultimately have "skip_key key es = skip_key key xs" using x by simp
  then have lt: "length (skip_key key es) < length es" using le [of xs] x by simp
  obtain xs ys where "rem = xs @ es # ys" using es(1) by (meson split_list)
  then show ?thesis
    using lt sum_list_mono [of xs "\<lambda>x. length (skip_key key x)" length] sum_list_mono [of ys "\<lambda>x. length (skip_key key x)" length] le
    by (simp add: comp_def)
qed

text \<open>The entries a merge iterator still returns.\<close>

inductive yields :: "('i \<Rightarrow> ('i \<times> (sst_error + TableEntry option)) option) \<Rightarrow> 'i kWayMergeIterator \<Rightarrow> TableEntry list \<Rightarrow> bool"
  for nxt where
    yields_Nil: "merge_Next nxt m = Some (m', Inr None) \<Longrightarrow> yields nxt m []"
  | yields_Cons: "merge_Next nxt m = Some (m', Inr (Some e)) \<Longrightarrow> yields nxt m' out \<Longrightarrow> yields nxt m (e # out)"

lemma fill_output_yields_any:
  assumes "yields nxt m out"
  shows "\<exists>fk. fill_output nxt m firstKey lastKey cnt w = Some (case add_entries out w of
         Inl err \<Rightarrow> Inl err
       | Inr w' \<Rightarrow> Inr (fk, if out = [] then lastKey else te_Key (last out), cnt + of_nat (length out), w'))"
  using assms
proof (induction arbitrary: firstKey lastKey cnt w rule: yields.induct)
  case (yields_Nil m m')
  then show ?case by (subst fill_output.simps) simp
next
  case (yields_Cons m m' e out)
  show ?case
  proof (cases "writer_Add e w")
    case (Inl err)
    then show ?thesis using yields_Cons(1) by (subst fill_output.simps) (simp add: Let_def)
  next
    case (Inr w1)
    from yields_Cons.IH [of "if cnt = 0 then te_Key e else firstKey" "te_Key e" "cnt + 1" w1] obtain fk where
      fk: "fill_output nxt m' (if cnt = 0 then te_Key e else firstKey) (te_Key e) (cnt + 1) w1 = Some (case add_entries out w1 of
         Inl err \<Rightarrow> Inl err
       | Inr w' \<Rightarrow> Inr (fk, if out = [] then te_Key e else te_Key (last out), cnt + 1 + of_nat (length out), w'))" by blast
    have "fill_output nxt m firstKey lastKey cnt w = fill_output nxt m' (if cnt = 0 then te_Key e else firstKey) (te_Key e) (cnt + 1) w1"
      using yields_Cons(1) Inr by (subst fill_output.simps) (simp add: Let_def)
    then show ?thesis using fk Inr by (intro exI [of _ fk]) (simp add: add.assoc split: sum.split)
  qed
qed

lemma fill_output_yields:
  assumes "yields nxt m out" "unat cnt + length out < 2 ^ 64"
  shows "fill_output nxt m firstKey lastKey cnt w = Some (case add_entries out w of
         Inl err \<Rightarrow> Inl err
       | Inr w' \<Rightarrow> Inr (if out \<noteq> [] \<and> cnt = 0 then te_Key (hd out) else firstKey,
            if out = [] then lastKey else te_Key (last out), cnt + of_nat (length out), w'))"
  using assms
proof (induction arbitrary: firstKey lastKey cnt w rule: yields.induct)
  case (yields_Cons m m' e out)
  have "unat cnt + 1 < 2 ^ 64" using yields_Cons.prems by simp
  then have one: "unat (cnt + 1) = unat cnt + 1" by (rule unat_u64_Suc)
  then have "cnt + 1 \<noteq> 0" by (metis add_is_0 one_neq_zero unat_0)
  moreover have "unat (cnt + 1) + length out < 2 ^ 64" using yields_Cons.prems one by simp
  ultimately show ?case
    using yields_Cons.hyps(1) yields_Cons.IH
    by (subst fill_output.simps) (auto simp: Let_def add.assoc split: sum.split)
qed (subst fill_output.simps, simp)

context entry_source
begin

lemma merge_yields:
  assumes "merge_inv holds m rem" "consistent (all_entries rem)"
  shows "\<exists>out. yields nxt m out \<and> merges (all_entries rem) out \<and> length out \<le> sum_list (map length rem)"
  using assms
proof (induction "sum_list (map length rem)" arbitrary: m rem rule: less_induct)
  case less
  show ?case
  proof (cases "all_entries rem = {}")
    case True
    then obtain m' where "merge_Next nxt m = Some (m', Inr None)" using merge_Next_ok(1) [OF less.prems] by blast
    then have "yields nxt m []" by (rule yields_Nil)
    moreover have "merges (all_entries rem) []" unfolding True by (simp add: merges_def)
    ultimately show ?thesis by (intro exI [of _ "[]"]) simp
  next
    case False
    then obtain m' e where e: "merge_Next nxt m = Some (m', Inr (Some e))" "merge_inv holds m' (map (skip_key (te_Key e)) rem)"
        "e \<in> all_entries rem" "\<forall>x \<in> all_entries rem. te_Key e \<le> te_Key x \<and> (te_Key x = te_Key e \<longrightarrow> te_Seq x \<le> te_Seq e)"
      using merge_Next_ok(2) [OF less.prems] by blast
    let ?rem = "map (skip_key (te_Key e)) rem"
    have srt: "\<forall>es \<in> set rem. sorted_entries es" "\<forall>x \<in> all_entries rem. te_Key e \<le> te_Key x"
      using less.prems(1) e(4) by (auto simp: merge_inv_def)
    note ents = skip_key_all [OF srt] and len = skip_shorter [OF e(3) refl srt]
    have c: "consistent (all_entries ?rem)" using less.prems(2) unfolding ents consistent_def by blast
    obtain out where out: "yields nxt m' out" "merges (all_entries ?rem) out" "length out \<le> sum_list (map length ?rem)"
      using less.hyps [OF len e(2) c] by blast
    have above: "\<forall>x \<in> set out. te_Key e < te_Key x"
      using out(2) srt(2) unfolding ents merges_def by (auto simp: order_less_le)
    have "\<exists>w \<in> set (e # out). te_Key w = te_Key x \<and> te_Seq x \<le> te_Seq w" if "x \<in> all_entries rem" for x
    proof (cases "te_Key x = te_Key e")
      case True
      then have "te_Seq x \<le> te_Seq e" using that e(4) by blast
      then show ?thesis using True by (intro bexI [of _ e]) simp_all
    next
      case False
      then have "x \<in> all_entries ?rem" using that unfolding ents by blast
      then show ?thesis using out(2) unfolding merges_def by auto
    qed
    then have "merges (all_entries rem) (e # out)"
      using out(2) above e(3) unfolding ents merges_def by auto
    then show ?thesis using yields_Cons [OF e(1) out(1)] out(3) len by (intro exI [of _ "e # out"]) simp
  qed
qed

lemma init_inputs_ok:
  assumes "list_all2 holds sources ess" "\<forall>es \<in> set (pre @ ess). sorted_entries es"
    and "merge_inv holds \<lparr>km_inputs = seen, km_heap = heap\<rparr> pre"
  shows "\<exists>m. init_inputs nxt (length pre) (map Some sources) seen heap = Some (Inr m) \<and> merge_inv holds m (pre @ ess)"
  using assms
proof (induction arbitrary: pre seen heap rule: list_all2_induct)
  case (Cons source sources es ess)
  have inv: "heap_ok heap" "length seen = length pre" "mset heap = mset (heads pre)"
    "\<forall>i < length pre. holds (seen ! i) (tl (pre ! i))"
    using Cons.prems(2) by (auto simp: merge_inv_def)
  have hd: "heads (pre @ [es]) = heads pre @ (if es = [] then [] else [\<lparr>mh_entry = hd es, mh_input = length pre\<rparr>])"
    by (auto simp: heads_def nth_append intro!: map_cong filter_cong)
  obtain source' heap' where n: "init_inputs nxt (length pre) (map Some (source # sources)) seen heap
      = init_inputs nxt (length (pre @ [es])) (map Some sources) (seen @ [source']) heap'"
    and h: "holds source' (tl es)" "heap_ok heap'" "mset heap' = mset (heads (pre @ [es]))"
  proof (cases es)
    case Nil
    then obtain source' where "nxt source = Some (source', Inr None)" "holds source' []" using nxt_Nil Cons.hyps(1) by blast
    then show thesis using that [of source' heap] Nil inv hd by simp
  next
    case (Cons e es')
    then obtain source' where "nxt source = Some (source', Inr (Some e))" "holds source' es'"
      using nxt_Cons \<open>holds source es\<close> by blast
    then show thesis
      using that [of source' "push \<lparr>mh_entry = e, mh_input = length pre\<rparr> heap"] Cons inv hd push_ok [OF inv(1)] by simp
  qed
  have "merge_inv holds \<lparr>km_inputs = seen @ [source'], km_heap = heap'\<rparr> (pre @ [es])"
    using inv h Cons.prems(1) by (auto simp: merge_inv_def nth_append less_Suc_eq)
  with Cons.IH [of "pre @ [es]" "seen @ [source']" heap'] Cons.prems(1) n show ?case by simp
qed simp

lemma newKWayMergeIterator_ok:
  assumes "list_all2 holds sources ess" "\<forall>es \<in> set ess. sorted_entries es"
  shows "\<exists>m. newKWayMergeIterator nxt (map Some sources) = Some (Inr m) \<and> merge_inv holds m ess"
  using init_inputs_ok [of sources ess "[]" "[]" "[]"] assms
  by (auto simp: newKWayMergeIterator_def merge_inv_def heads_def heap_ok_def)

end

section \<open>Compaction merges tables\<close>

lemma add_entries_accepts:
  assumes "writer_inv w" "sw_w w \<noteq> None" "\<not> sw_closed w" "sorted_entries (sw_entries w @ es)" "\<forall>e \<in> set es. normal_entry e"
  shows "\<exists>w'. add_entries es w = Inr w' \<and> writer_inv w' \<and> sw_entries w' = sw_entries w @ es \<and> sw_w w' = sw_w w \<and> \<not> sw_closed w'"
  using assms
proof (induction es arbitrary: w)
  case (Cons e es)
  have "sw_entries w = [] \<or> entry_less (last (sw_entries w)) e" using Cons.prems(4) last_in_set by (fastforce simp: sorted_wrt_append)
  then have "sw_entries w = [] \<or> validSSTableRecordOrder (sw_lastKey w) (te_Seq (last (sw_entries w))) (te_Key e) (te_Seq e)"
    using Cons.prems(1) order_entry_less [of "last (sw_entries w)" e] by (auto simp: writer_inv_def)
  then obtain w1 where w1: "writer_Add e w = Inr w1" using Cons.prems(2,3) by (auto simp: writer_Add_def)
  note ok = writer_Add_ok [OF Cons.prems(1) w1]
  have "copy_entry e = e" using Cons.prems(5) by (simp add: copy_normal)
  with Cons.IH [OF ok(1)] ok Cons.prems w1 show ?case by simp
qed simp

lemma merges_sorted: "merges E out \<Longrightarrow> sorted_entries out"
  by (auto simp: merges_def entry_less_def elim: sorted_wrt_mono_rel [rotated])

text \<open>The merge of sorted tables whose common versions agree, up to the filled writer.\<close>

lemma merge_tables:
  assumes "list_all2 (\<lambda>r es. \<exists>content gs. reads_table content gs es r) rs ess" "consistent (all_entries ess)"
  shows "\<exists>m out w. newKWayMergeIterator iterator_Next (map (\<lambda>r. Some (newSSTableEntryIterator (Some r))) rs) = Some (Inr m)
    \<and> yields iterator_Next m out \<and> merges (all_entries ess) out \<and> length out \<le> length (concat ess)
    \<and> add_entries out (NewSSTableWriter (Some f)) = Inr w \<and> writer_inv w \<and> sw_entries w = out \<and> sw_w w = Some f \<and> \<not> sw_closed w"
proof -
  let ?its = "map (\<lambda>r. newSSTableEntryIterator (Some r)) rs"
  have its: "list_all2 table_iterator ?its ess"
    using assms(1) table_iterator_new by (auto simp: list_all2_conv_all_nth)
  have tab: "sorted_entries es \<and> (\<forall>e \<in> set es. normal_entry e)" if "es \<in> set ess" for es
    using that assms(1) by (auto simp: list_all2_conv_all_nth in_set_conv_nth reads_table_def)
  then have "\<forall>es \<in> set ess. sorted_entries es" by blast
  from table_source.newKWayMergeIterator_ok [OF its this] obtain m where
    m: "newKWayMergeIterator iterator_Next (map Some ?its) = Some (Inr m)" "merge_inv table_iterator m ess" by blast
  from table_source.merge_yields [OF m(2) assms(2)] obtain out where
    out: "yields iterator_Next m out" "merges (all_entries ess) out" "length out \<le> length (concat ess)"
    by (auto simp: length_concat)
  have "\<forall>e \<in> set out. normal_entry e" using out(2) tab by (auto simp: merges_def)
  from add_entries_accepts [OF writer_inv_New [of "Some f"] _ _ _ this] merges_sorted [OF out(2)] obtain w where
    w: "add_entries out (NewSSTableWriter (Some f)) = Inr w" "writer_inv w" "sw_entries w = out" "sw_w w = Some f" "\<not> sw_closed w"
    by (auto simp: NewSSTableWriter_def)
  with m(1) out show ?thesis by (auto simp: comp_def)
qed

text \<open>C12. Compaction merges tables correctly: reading sorted tables whose common versions agree, the
  k-way merge terminates without an error and the loop that fills the output table receives every
  key of the inputs exactly once, in ascending order, with the entry of the highest sequence number
  among all inputs, tombstones included. The recorded bounds and entry count are those of the
  output.\<close>

theorem compaction_merge_correct:
  assumes "list_all2 (\<lambda>r es. \<exists>content gs. reads_table content gs es r) rs ess" "consistent (all_entries ess)"
    and "length (concat ess) < 2 ^ 64"
  shows "\<exists>m out writer. newKWayMergeIterator iterator_Next (map (\<lambda>r. Some (newSSTableEntryIterator (Some r))) rs) = Some (Inr m)
    \<and> fill_output iterator_Next m [] [] 0 (NewSSTableWriter (Some f))
        = Some (Inr (if out = [] then [] else te_Key (hd out), if out = [] then [] else te_Key (last out), of_nat (length out), writer))
    \<and> sw_entries writer = out \<and> sw_w writer = Some f \<and> merges (all_entries ess) out"
proof -
  from merge_tables [OF assms(1,2), of f] obtain m out w where
    m: "newKWayMergeIterator iterator_Next (map (\<lambda>r. Some (newSSTableEntryIterator (Some r))) rs) = Some (Inr m)"
    and out: "yields iterator_Next m out" "merges (all_entries ess) out" "length out \<le> length (concat ess)"
    and w: "add_entries out (NewSSTableWriter (Some f)) = Inr w" "sw_entries w = out" "sw_w w = Some f" by blast
  have "fill_output iterator_Next m [] [] 0 (NewSSTableWriter (Some f))
      = Some (Inr (if out = [] then [] else te_Key (hd out), if out = [] then [] else te_Key (last out), of_nat (length out), w))"
    using fill_output_yields [OF out(1), of 0 "[]" "[]" "NewSSTableWriter (Some f)"] out(3) assms(3) w(1) by simp
  with m w(2,3) out(2) show ?thesis by blast
qed

lemma merges_versions:
  assumes "merges {a, b} out" "te_Key b = te_Key a" "te_Seq b < te_Seq a"
  shows "out = [a]"
proof -
  have sub: "set out \<subseteq> {a, b}" and srt: "sorted_wrt (\<lambda>x y. te_Key x < te_Key y) out"
    and top: "\<exists>w \<in> set out. te_Key w = te_Key a \<and> te_Seq a \<le> te_Seq w" using assms(1) by (simp_all add: merges_def)
  from top sub assms(3) have a: "a \<in> set out" by auto
  then obtain x xs where x: "out = x # xs" by (cases out) auto
  have keys: "te_Key y = te_Key a" if "y \<in> set out" for y using that sub assms(2) by auto
  have "xs = []"
  proof (cases xs)
    case (Cons y ys)
    have mem: "x \<in> set out" "y \<in> set out" by (simp_all add: x Cons)
    have "te_Key x < te_Key y" using srt by (simp add: x Cons)
    then show ?thesis by (simp only: keys [OF mem(1)] keys [OF mem(2)] less_irrefl)
  qed simp
  with a x show ?thesis by simp
qed

theorem compaction_merge_correct_witness:
  "\<exists>r m writer. newKWayMergeIterator iterator_Next (map (\<lambda>r. Some (newSSTableEntryIterator (Some r))) [r, r]) = Some (Inr m)
    \<and> fill_output iterator_Next m [] [] 0 (NewSSTableWriter (Some ())) = Some (Inr ([97], [97], 1, writer))
    \<and> sw_entries writer = [sample_newer]"
proof -
  let ?es = "[sample_newer, Lsm_Sstable_Props.sample_entry]"
  obtain content where c: "table_bytes ?es = Some (Inr content)" "length content \<le> max_int" using sample_table by blast
  have n: "\<forall>e \<in> set ?es. normal_entry e" "sorted_entries ?es"
    by (simp_all add: normal_entry_def entry_less_def Lsm_Sstable_Props.sample_entry_def sample_newer_def)
  from OpenSSTable_written [OF c(1)] c(2) n obtain r gs where r: "reads_table content gs ?es r" by (auto simp: max_int_def)
  then have rs: "list_all2 (\<lambda>r es. \<exists>content gs. reads_table content gs es r) [r, r] [?es, ?es]" by auto
  have cons: "consistent (all_entries [?es, ?es])"
    by (simp add: consistent_def sameTableRecord_def Lsm_Sstable_Props.sample_entry_def sample_newer_def)
  have len: "length (concat [?es, ?es]) < 2 ^ 64" by simp
  from compaction_merge_correct [OF rs cons len, of "()"] obtain m out writer where
    m: "newKWayMergeIterator iterator_Next (map (\<lambda>r. Some (newSSTableEntryIterator (Some r))) [r, r]) = Some (Inr m)"
    and f: "fill_output iterator_Next m [] [] 0 (NewSSTableWriter (Some ()))
        = Some (Inr (if out = [] then [] else te_Key (hd out), if out = [] then [] else te_Key (last out), of_nat (length out), writer))"
    and w: "sw_entries writer = out" "merges {sample_newer, Lsm_Sstable_Props.sample_entry} out" by auto
  have "out = [sample_newer]"
    by (rule merges_versions [OF w(2)]) (simp_all add: Lsm_Sstable_Props.sample_entry_def sample_newer_def)
  with m f w(1) show ?thesis by (intro exI [of _ r] exI [of _ m] exI [of _ writer]) (simp add: sample_newer_def)
qed

end
