(* ===== verification/Lsm_Fs_Sim.thy ===== *)
theory Lsm_Fs_Sim
  imports Lsm_Sstable Std_Path "HOL-Library.AList"
begin

text \<open>
  The simulated file system of the LSM tests, \<open>internal/lsm/fs_sim.go\<close>, with the operation names and
  errors of \<open>internal/lsm/fs.go\<close>. Inodes and open files live in explicit stores and are addressed by
  their position; the two name spaces are association lists. Every operation goes through
  \<open>beginLocked\<close> and \<open>finishLocked\<close>, which count it, record it and inject scheduled failures and
  crashes.
\<close>

section \<open>Errors and operation names\<close>

datatype fs_error =
    ErrNotExist | ErrExist | ErrFSClosed | ErrSimulatedCrash | ErrEOF
  | BadRetain | NotCrashed | EmptyFaultOp | UnknownFaultOp string | ZeroOccurrence | BadFaultPoint | DuplicateDirective
  | NilScheduledError | NegativeOffset | InvalidWriteOffset | WriteOverflow | InvalidTruncateSize
  | ScheduledError string

type_synonym FSOp = string

definition FSOpCreate :: FSOp where "FSOpCreate = ''create''"
definition FSOpOpen :: FSOp where "FSOpOpen = ''open''"
definition FSOpOpenAppend :: FSOp where "FSOpOpenAppend = ''open-append''"
definition FSOpRead :: FSOp where "FSOpRead = ''read''"
definition FSOpWrite :: FSOp where "FSOpWrite = ''write''"
definition FSOpFileSync :: FSOp where "FSOpFileSync = ''file-sync''"
definition FSOpDirSync :: FSOp where "FSOpDirSync = ''dir-sync''"
definition FSOpTruncate :: FSOp where "FSOpTruncate = ''truncate''"
definition FSOpRename :: FSOp where "FSOpRename = ''rename''"
definition FSOpLink :: FSOp where "FSOpLink = ''link''"
definition FSOpRemove :: FSOp where "FSOpRemove = ''remove''"
definition FSOpList :: FSOp where "FSOpList = ''list''"
definition FSOpStat :: FSOp where "FSOpStat = ''stat''"
definition FSOpClose :: FSOp where "FSOpClose = ''close''"

definition isDeclaredFSOp :: "FSOp \<Rightarrow> bool" where
  "isDeclaredFSOp op \<longleftrightarrow> op \<in> {FSOpCreate, FSOpOpen, FSOpOpenAppend, FSOpRead, FSOpWrite, FSOpFileSync, FSOpDirSync,
     FSOpTruncate, FSOpRename, FSOpLink, FSOpRemove, FSOpList, FSOpStat, FSOpClose}"

section \<open>State\<close>

definition RetainAllUnsynced :: int where
  "RetainAllUnsynced = -1"

type_synonym SimFaultPoint = "8 word"

definition SimBeforeOperation :: SimFaultPoint where "SimBeforeOperation = 1"
definition SimAfterOperation :: SimFaultPoint where "SimAfterOperation = 2"

record SimCrashDirective =
  cd_Op :: FSOp
  cd_Occurrence :: u64
  cd_Point :: SimFaultPoint
  cd_RetainUnsynced :: int

record SimErrorDirective =
  ed_Op :: FSOp
  ed_Occurrence :: u64
  ed_Point :: SimFaultPoint
  ed_Err :: "fs_error option"

record FSEvent =
  ev_Ordinal :: u64
  ev_Op :: FSOp
  ev_Path :: string
  ev_OtherPath :: string
  ev_Occurrence :: u64
  ev_Completed :: bool

type_synonym simFaultKey = "FSOp \<times> u64 \<times> SimFaultPoint"

record simInode =
  in_data :: bytes
  in_durable :: bytes

datatype simMutation =
    simMutationWrite (mu_node: nat) (mu_offset: nat) (mu_data: bytes)
  | simMutationTruncate (mu_node: nat) (mu_oldSize: nat) (mu_newSize: nat)

record simFile =
  sm_node :: nat
  sm_path :: string
  sm_offset :: nat
  sm_generation :: u64
  sm_closed :: bool

record SimFS =
  sf_live :: "(string \<times> nat) list"
  sf_durableNames :: "(string \<times> nat) list"
  sf_dirty :: "simMutation list"
  sf_generation :: u64
  sf_crashed :: bool
  sf_events :: "FSEvent list"
  sf_opCounts :: "FSOp \<Rightarrow> u64"
  sf_crashFaults :: "simFaultKey \<rightharpoonup> SimCrashDirective"
  sf_errorFaults :: "simFaultKey \<rightharpoonup> SimErrorDirective"
  sf_inodes :: "simInode list"
  sf_files :: "simFile list"

definition NewSimFS :: SimFS where
  "NewSimFS = \<lparr>sf_live = [], sf_durableNames = [], sf_dirty = [], sf_generation = 0, sf_crashed = False, sf_events = [],
     sf_opCounts = (\<lambda>_. 0), sf_crashFaults = Map.empty, sf_errorFaults = Map.empty, sf_inodes = [], sf_files = []\<rparr>"

section \<open>Fault schedules\<close>

definition validateSimFault :: "FSOp \<Rightarrow> u64 \<Rightarrow> SimFaultPoint \<Rightarrow> fs_error option" where
  "validateSimFault op occurrence point =
     (if op = [] then Some EmptyFaultOp
      else if \<not> isDeclaredFSOp op then Some (UnknownFaultOp op)
      else if occurrence = 0 then Some ZeroOccurrence
      else if point \<noteq> SimBeforeOperation \<and> point \<noteq> SimAfterOperation then Some BadFaultPoint
      else None)"

fun crash_schedule :: "SimCrashDirective list \<Rightarrow> (simFaultKey \<rightharpoonup> SimCrashDirective) \<Rightarrow> fs_error + (simFaultKey \<rightharpoonup> SimCrashDirective)" where
  "crash_schedule [] faults = Inr faults"
| "crash_schedule (d # ds) faults =
     (case validateSimFault (cd_Op d) (cd_Occurrence d) (cd_Point d) of
        Some err \<Rightarrow> Inl err
      | None \<Rightarrow>
          if cd_RetainUnsynced d < RetainAllUnsynced then Inl BadRetain
          else let key = (cd_Op d, cd_Occurrence d, cd_Point d)
               in if faults key \<noteq> None then Inl DuplicateDirective else crash_schedule ds (faults(key \<mapsto> d)))"

definition SetCrashSchedule :: "SimCrashDirective list \<Rightarrow> SimFS \<Rightarrow> SimFS \<times> fs_error option" where
  "SetCrashSchedule directives fs =
     (case crash_schedule directives Map.empty of
        Inl err \<Rightarrow> (fs, Some err)
      | Inr faults \<Rightarrow> (fs\<lparr>sf_crashFaults := faults, sf_opCounts := (\<lambda>_. 0)\<rparr>, None))"

fun error_schedule :: "SimErrorDirective list \<Rightarrow> (simFaultKey \<rightharpoonup> SimErrorDirective) \<Rightarrow> fs_error + (simFaultKey \<rightharpoonup> SimErrorDirective)" where
  "error_schedule [] faults = Inr faults"
| "error_schedule (d # ds) faults =
     (case validateSimFault (ed_Op d) (ed_Occurrence d) (ed_Point d) of
        Some err \<Rightarrow> Inl err
      | None \<Rightarrow>
          if ed_Err d = None then Inl NilScheduledError
          else let key = (ed_Op d, ed_Occurrence d, ed_Point d)
               in if faults key \<noteq> None then Inl DuplicateDirective else error_schedule ds (faults(key \<mapsto> d)))"

definition SetErrorSchedule :: "SimErrorDirective list \<Rightarrow> SimFS \<Rightarrow> SimFS \<times> fs_error option" where
  "SetErrorSchedule directives fs =
     (case error_schedule directives Map.empty of
        Inl err \<Rightarrow> (fs, Some err)
      | Inr faults \<Rightarrow> (fs\<lparr>sf_errorFaults := faults, sf_opCounts := (\<lambda>_. 0)\<rparr>, None))"

definition ResetEvents :: "SimFS \<Rightarrow> SimFS" where
  "ResetEvents fs = fs\<lparr>sf_events := [], sf_opCounts := (\<lambda>_. 0)\<rparr>"

definition Events :: "SimFS \<Rightarrow> FSEvent list" where
  "Events fs = sf_events fs"

section \<open>Crashes\<close>

definition byteCount :: "simMutation \<Rightarrow> nat" where
  "byteCount m =
     (case m of
        simMutationWrite node offset data \<Rightarrow> length data
      | simMutationTruncate node oldSize newSize \<Rightarrow>
          if newSize \<ge> oldSize then newSize - oldSize else oldSize - newSize)"

definition zeros :: "nat \<Rightarrow> bytes" where
  "zeros n = replicate n 0"

text \<open>\<open>copy\<close> of \<open>src\<close> over \<open>dst\<close> from \<open>offset\<close> on, after extending \<open>dst\<close> with zeros.\<close>

definition overwrite :: "bytes \<Rightarrow> nat \<Rightarrow> bytes \<Rightarrow> bytes" where
  "overwrite dst offset src =
     (let finish = offset + length src;
          dst = (if finish > length dst then dst @ zeros (finish - length dst) else dst)
      in take offset dst @ src @ drop finish dst)"

definition applyPrefix :: "simMutation \<Rightarrow> bytes \<Rightarrow> nat \<Rightarrow> bytes" where
  "applyPrefix m img retained =
     (case m of
        simMutationWrite node offset data \<Rightarrow> overwrite img offset (take retained data)
      | simMutationTruncate node oldSize newSize \<Rightarrow>
          if newSize < oldSize then take (length img - retained) img else img @ zeros retained)"

text \<open>The surviving images: the dirty mutations are applied in order until \<open>remaining\<close> bytes are used up.\<close>

fun survivors :: "(nat \<Rightarrow> bytes) \<Rightarrow> int \<Rightarrow> int \<Rightarrow> simMutation list \<Rightarrow> (nat \<rightharpoonup> bytes) \<Rightarrow> (nat \<rightharpoonup> bytes)" where
  "survivors durable retain remaining [] surv = surv"
| "survivors durable retain remaining (m # ms) surv =
     (let available = byteCount m;
          img = (case surv (mu_node m) of Some survivor \<Rightarrow> survivor | None \<Rightarrow> durable (mu_node m))
      in if retain \<noteq> RetainAllUnsynced
         then if remaining \<le> 0 then surv
              else let keep = nat (min remaining (int available));
                       surv = surv(mu_node m \<mapsto> applyPrefix m img keep)
                   in if keep \<noteq> available then surv
                      else survivors durable retain (remaining - int keep) ms surv
         else survivors durable retain remaining ms (surv(mu_node m \<mapsto> applyPrefix m img available)))"

definition crash_node :: "(nat \<rightharpoonup> bytes) \<Rightarrow> nat \<Rightarrow> simInode \<Rightarrow> simInode" where
  "crash_node surv i node =
     (case surv i of
        Some survivor \<Rightarrow> node\<lparr>in_data := survivor, in_durable := survivor\<rparr>
      | None \<Rightarrow> node\<lparr>in_data := in_durable node\<rparr>)"

definition crashLocked :: "int \<Rightarrow> SimFS \<Rightarrow> SimFS" where
  "crashLocked retain fs =
     (let surv = survivors (\<lambda>i. in_durable (sf_inodes fs ! i)) retain retain (sf_dirty fs) Map.empty
      in fs\<lparr>sf_inodes := map (\<lambda>i. if i \<in> snd ` set (sf_durableNames fs) then crash_node surv i (sf_inodes fs ! i) else sf_inodes fs ! i)
                           [0..<length (sf_inodes fs)],
            sf_live := sf_durableNames fs, sf_dirty := [], sf_generation := sf_generation fs + 1, sf_crashed := True\<rparr>)"

definition Crash :: "int \<Rightarrow> SimFS \<Rightarrow> SimFS \<times> fs_error option" where
  "Crash retainUnsynced fs =
     (if sf_crashed fs then (fs, Some ErrSimulatedCrash)
      else if retainUnsynced < RetainAllUnsynced then (fs, Some BadRetain)
      else (crashLocked retainUnsynced fs, None))"

definition Recover :: "SimFS \<Rightarrow> SimFS \<times> fs_error option" where
  "Recover fs = (if \<not> sf_crashed fs then (fs, Some NotCrashed) else (fs\<lparr>sf_crashed := False\<rparr>, None))"

definition Crashed :: "SimFS \<Rightarrow> bool" where
  "Crashed fs = sf_crashed fs"

definition cleanPath :: "string \<Rightarrow> string" where
  "cleanPath name = Clean name"

definition DurableBytes :: "string \<Rightarrow> SimFS \<Rightarrow> fs_error + bytes" where
  "DurableBytes name fs =
     (case map_of (sf_durableNames fs) (cleanPath name) of
        None \<Rightarrow> Inl ErrNotExist | Some i \<Rightarrow> Inr (in_durable (sf_inodes fs ! i)))"

definition LiveBytes :: "string \<Rightarrow> SimFS \<Rightarrow> fs_error + bytes" where
  "LiveBytes name fs =
     (case map_of (sf_live fs) (cleanPath name) of
        None \<Rightarrow> Inl ErrNotExist | Some i \<Rightarrow> Inr (in_data (sf_inodes fs ! i)))"

section \<open>Operation brackets\<close>

text \<open>The result is the event's position, or the injected error.\<close>

definition beginLocked :: "FSOp \<Rightarrow> string \<Rightarrow> string \<Rightarrow> SimFS \<Rightarrow> SimFS \<times> (fs_error + nat)" where
  "beginLocked op path otherPath fs =
     (if sf_crashed fs then (fs, Inl ErrSimulatedCrash)
      else let occurrence = sf_opCounts fs op + 1;
               event = length (sf_events fs);
               fs = fs\<lparr>sf_opCounts := (sf_opCounts fs)(op := occurrence),
                      sf_events := sf_events fs @ [\<lparr>ev_Ordinal = of_nat (event + 1), ev_Op = op, ev_Path = path,
                        ev_OtherPath = otherPath, ev_Occurrence = occurrence, ev_Completed = False\<rparr>]\<rparr>;
               key = (op, occurrence, SimBeforeOperation)
           in case sf_errorFaults fs key of
                Some d \<Rightarrow> (fs\<lparr>sf_errorFaults := (sf_errorFaults fs)(key := None)\<rparr>, Inl (the (ed_Err d)))
              | None \<Rightarrow>
                  (case sf_crashFaults fs key of
                     Some d \<Rightarrow> (crashLocked (cd_RetainUnsynced d) (fs\<lparr>sf_crashFaults := (sf_crashFaults fs)(key := None)\<rparr>), Inl ErrSimulatedCrash)
                   | None \<Rightarrow> (fs, Inr event)))"

definition finishLocked :: "nat \<Rightarrow> SimFS \<Rightarrow> SimFS \<times> fs_error option" where
  "finishLocked event fs =
     (let fs = fs\<lparr>sf_events := (sf_events fs)[event := (sf_events fs ! event)\<lparr>ev_Completed := True\<rparr>]\<rparr>;
          done = sf_events fs ! event;
          key = (ev_Op done, ev_Occurrence done, SimAfterOperation)
      in case sf_errorFaults fs key of
           Some d \<Rightarrow> (fs\<lparr>sf_errorFaults := (sf_errorFaults fs)(key := None)\<rparr>, ed_Err d)
         | None \<Rightarrow>
             (case sf_crashFaults fs key of
                Some d \<Rightarrow> (crashLocked (cd_RetainUnsynced d) (fs\<lparr>sf_crashFaults := (sf_crashFaults fs)(key := None)\<rparr>), Some ErrSimulatedCrash)
              | None \<Rightarrow> (fs, None)))"

section \<open>Name space operations\<close>

text \<open>\<open>newFile\<close> is the allocation of a \<open>simFile\<close>: its handle is the address of the new file.\<close>

definition newFile :: "nat \<Rightarrow> string \<Rightarrow> nat \<Rightarrow> SimFS \<Rightarrow> SimFS \<times> nat" where
  "newFile node path offset fs =
     (fs\<lparr>sf_files := sf_files fs @ [\<lparr>sm_node = node, sm_path = path, sm_offset = offset, sm_generation = sf_generation fs, sm_closed = False\<rparr>]\<rparr>,
      length (sf_files fs))"

definition Create :: "string \<Rightarrow> SimFS \<Rightarrow> SimFS \<times> (fs_error + nat)" where
  "Create name fs =
     (let name = cleanPath name
      in case beginLocked FSOpCreate name [] fs of
           (fs, Inl err) \<Rightarrow> (fs, Inl err)
         | (fs, Inr event) \<Rightarrow>
             if map_of (sf_live fs) name \<noteq> None then (fs, Inl ErrExist)
             else let node = length (sf_inodes fs);
                      fs = fs\<lparr>sf_inodes := sf_inodes fs @ [\<lparr>in_data = [], in_durable = []\<rparr>], sf_live := AList.update name node (sf_live fs)\<rparr>
                  in case finishLocked event fs of
                       (fs, Some err) \<Rightarrow> (fs, Inl err)
                     | (fs, None) \<Rightarrow> (case newFile node name 0 fs of (fs, h) \<Rightarrow> (fs, Inr h)))"

definition simfs_open :: "string \<Rightarrow> bool \<Rightarrow> SimFS \<Rightarrow> SimFS \<times> (fs_error + nat)" where
  "simfs_open name appendMode fs =
     (let name = cleanPath name;
          op = (if appendMode then FSOpOpenAppend else FSOpOpen)
      in case beginLocked op name [] fs of
           (fs, Inl err) \<Rightarrow> (fs, Inl err)
         | (fs, Inr event) \<Rightarrow>
             (case map_of (sf_live fs) name of
                None \<Rightarrow> (fs, Inl ErrNotExist)
              | Some node \<Rightarrow>
                  (let offset = (if appendMode then length (in_data (sf_inodes fs ! node)) else 0)
                   in case finishLocked event fs of
                        (fs, Some err) \<Rightarrow> (fs, Inl err)
                      | (fs, None) \<Rightarrow> (case newFile node name offset fs of (fs, h) \<Rightarrow> (fs, Inr h)))))"

definition simfs_Open :: "string \<Rightarrow> SimFS \<Rightarrow> SimFS \<times> (fs_error + nat)" where
  "simfs_Open name fs = simfs_open name False fs"

definition simfs_OpenAppend :: "string \<Rightarrow> SimFS \<Rightarrow> SimFS \<times> (fs_error + nat)" where
  "simfs_OpenAppend name fs = simfs_open name True fs"

definition SyncDir :: "string \<Rightarrow> SimFS \<Rightarrow> SimFS \<times> fs_error option" where
  "SyncDir name fs =
     (let name = cleanPath name
      in case beginLocked FSOpDirSync name [] fs of
           (fs, Inl err) \<Rightarrow> (fs, Some err)
         | (fs, Inr event) \<Rightarrow>
             (let kept = filter (\<lambda>p. path_Dir (fst p) \<noteq> name) (sf_durableNames fs);
                  synced = filter (\<lambda>p. path_Dir (fst p) = name) (sf_live fs)
              in finishLocked event (fs\<lparr>sf_durableNames := fold (\<lambda>p. AList.update (fst p) (snd p)) synced kept\<rparr>)))"

definition Rename :: "string \<Rightarrow> string \<Rightarrow> SimFS \<Rightarrow> SimFS \<times> fs_error option" where
  "Rename oldName newName fs =
     (let oldName = cleanPath oldName; newName = cleanPath newName
      in case beginLocked FSOpRename oldName newName fs of
           (fs, Inl err) \<Rightarrow> (fs, Some err)
         | (fs, Inr event) \<Rightarrow>
             (case map_of (sf_live fs) oldName of
                None \<Rightarrow> (fs, Some ErrNotExist)
              | Some node \<Rightarrow> finishLocked event (fs\<lparr>sf_live := AList.update newName node (AList.delete oldName (sf_live fs))\<rparr>)))"

definition Link :: "string \<Rightarrow> string \<Rightarrow> SimFS \<Rightarrow> SimFS \<times> fs_error option" where
  "Link oldName newName fs =
     (let oldName = cleanPath oldName; newName = cleanPath newName
      in case beginLocked FSOpLink oldName newName fs of
           (fs, Inl err) \<Rightarrow> (fs, Some err)
         | (fs, Inr event) \<Rightarrow>
             (case map_of (sf_live fs) oldName of
                None \<Rightarrow> (fs, Some ErrNotExist)
              | Some node \<Rightarrow>
                  if map_of (sf_live fs) newName \<noteq> None then (fs, Some ErrExist)
                  else finishLocked event (fs\<lparr>sf_live := AList.update newName node (sf_live fs)\<rparr>)))"

definition Remove :: "string \<Rightarrow> SimFS \<Rightarrow> SimFS \<times> fs_error option" where
  "Remove name fs =
     (let name = cleanPath name
      in case beginLocked FSOpRemove name [] fs of
           (fs, Inl err) \<Rightarrow> (fs, Some err)
         | (fs, Inr event) \<Rightarrow>
             if map_of (sf_live fs) name = None then (fs, Some ErrNotExist)
             else finishLocked event (fs\<lparr>sf_live := AList.delete name (sf_live fs)\<rparr>))"

definition fs_List :: "string \<Rightarrow> SimFS \<Rightarrow> SimFS \<times> (fs_error + string list)" where
  "fs_List name fs =
     (let name = cleanPath name
      in case beginLocked FSOpList name [] fs of
           (fs, Inl err) \<Rightarrow> (fs, Inl err)
         | (fs, Inr event) \<Rightarrow>
             (let names = sort (map path_Base (filter (\<lambda>p. path_Dir p = name) (map fst (sf_live fs))))
              in case finishLocked event fs of
                   (fs, Some err) \<Rightarrow> (fs, Inl err)
                 | (fs, None) \<Rightarrow> (fs, Inr names)))"

record FileInfo =
  fi_Size :: int
  fi_IsDir :: bool

definition Stat :: "string \<Rightarrow> SimFS \<Rightarrow> SimFS \<times> (fs_error + FileInfo)" where
  "Stat name fs =
     (let name = cleanPath name
      in case beginLocked FSOpStat name [] fs of
           (fs, Inl err) \<Rightarrow> (fs, Inl err)
         | (fs, Inr event) \<Rightarrow>
             (case map_of (sf_live fs) name of
                None \<Rightarrow> (fs, Inl ErrNotExist)
              | Some node \<Rightarrow>
                  (let info = \<lparr>fi_Size = int (length (in_data (sf_inodes fs ! node))), fi_IsDir = False\<rparr>
                   in case finishLocked event fs of
                        (fs, Some err) \<Rightarrow> (fs, Inl err)
                      | (fs, None) \<Rightarrow> (fs, Inr info))))"

section \<open>File operations\<close>

definition recordWriteLocked :: "nat \<Rightarrow> nat \<Rightarrow> bytes \<Rightarrow> SimFS \<Rightarrow> SimFS" where
  "recordWriteLocked node offset data fs =
     (if data = [] then fs else fs\<lparr>sf_dirty := sf_dirty fs @ [simMutationWrite node offset data]\<rparr>)"

definition clearDirtyLocked :: "nat \<Rightarrow> SimFS \<Rightarrow> SimFS" where
  "clearDirtyLocked node fs = fs\<lparr>sf_dirty := filter (\<lambda>m. mu_node m \<noteq> node) (sf_dirty fs)\<rparr>"

definition file_beginLocked :: "FSOp \<Rightarrow> nat \<Rightarrow> SimFS \<Rightarrow> SimFS \<times> (fs_error + nat)" where
  "file_beginLocked op h fs =
     (let f = sf_files fs ! h
      in if sm_closed f \<or> sm_generation f \<noteq> sf_generation fs then (fs, Inl ErrFSClosed)
         else beginLocked op (sm_path f) [] fs)"

definition file_data :: "nat \<Rightarrow> SimFS \<Rightarrow> bytes" where
  "file_data h fs = in_data (sf_inodes fs ! sm_node (sf_files fs ! h))"

definition set_data :: "nat \<Rightarrow> bytes \<Rightarrow> SimFS \<Rightarrow> SimFS" where
  "set_data h data fs = (let node = sm_node (sf_files fs ! h)
     in fs\<lparr>sf_inodes := (sf_inodes fs)[node := (sf_inodes fs ! node)\<lparr>in_data := data\<rparr>]\<rparr>)"

definition set_offset :: "nat \<Rightarrow> nat \<Rightarrow> SimFS \<Rightarrow> SimFS" where
  "set_offset h offset fs = fs\<lparr>sf_files := (sf_files fs)[h := (sf_files fs ! h)\<lparr>sm_offset := offset\<rparr>]\<rparr>"

definition file_Read :: "nat \<Rightarrow> nat \<Rightarrow> SimFS \<Rightarrow> SimFS \<times> bytes \<times> fs_error option" where
  "file_Read h n fs =
     (case file_beginLocked FSOpRead h fs of
        (fs, Inl err) \<Rightarrow> (fs, [], Some err)
      | (fs, Inr event) \<Rightarrow>
          (let offset = sm_offset (sf_files fs ! h)
           in if offset \<ge> length (file_data h fs)
              then (case finishLocked event fs of
                      (fs, Some err) \<Rightarrow> (fs, [], Some err)
                    | (fs, None) \<Rightarrow> (fs, [], Some ErrEOF))
              else let d = take n (drop offset (file_data h fs));
                       fs = set_offset h (offset + length d) fs
                   in case finishLocked event fs of
                        (fs, Some err) \<Rightarrow> (fs, d, Some err)
                      | (fs, None) \<Rightarrow> (fs, d, if length d < n then Some ErrEOF else None)))"

definition file_ReadAt_at :: "nat \<Rightarrow> nat \<Rightarrow> int \<Rightarrow> SimFS \<Rightarrow> SimFS \<times> bytes \<times> fs_error option" where
  "file_ReadAt_at h n offset fs =
     (case file_beginLocked FSOpRead h fs of
        (fs, Inl err) \<Rightarrow> (fs, [], Some err)
      | (fs, Inr event) \<Rightarrow>
          if offset < 0 then (fs, [], Some NegativeOffset)
          else if nat offset \<ge> length (file_data h fs)
          then (case finishLocked event fs of
                  (fs, Some err) \<Rightarrow> (fs, [], Some err)
                | (fs, None) \<Rightarrow> (fs, [], Some ErrEOF))
          else let d = take n (drop (nat offset) (file_data h fs))
               in case finishLocked event fs of
                    (fs, Some err) \<Rightarrow> (fs, d, Some err)
                  | (fs, None) \<Rightarrow> (fs, d, if length d < n then Some ErrEOF else None))"

definition file_Write :: "nat \<Rightarrow> bytes \<Rightarrow> SimFS \<Rightarrow> SimFS \<times> nat \<times> fs_error option" where
  "file_Write h src fs =
     (case file_beginLocked FSOpWrite h fs of
        (fs, Inl err) \<Rightarrow> (fs, 0, Some err)
      | (fs, Inr event) \<Rightarrow>
          (let f = sf_files fs ! h; finish = sm_offset f + length src
           in if sm_offset f > max_int then (fs, 0, Some InvalidWriteOffset)
              else if finish > max_int then (fs, 0, Some WriteOverflow)
              else let fs = recordWriteLocked (sm_node f) (sm_offset f) src fs;
                       fs = set_data h (overwrite (file_data h fs) (sm_offset f) src) fs;
                       fs = set_offset h finish fs
                   in case finishLocked event fs of (fs, err) \<Rightarrow> (fs, length src, err)))"

definition file_Sync :: "nat \<Rightarrow> SimFS \<Rightarrow> SimFS \<times> fs_error option" where
  "file_Sync h fs =
     (case file_beginLocked FSOpFileSync h fs of
        (fs, Inl err) \<Rightarrow> (fs, Some err)
      | (fs, Inr event) \<Rightarrow>
          (let node = sm_node (sf_files fs ! h);
               fs = fs\<lparr>sf_inodes := (sf_inodes fs)[node := (sf_inodes fs ! node)\<lparr>in_durable := file_data h fs\<rparr>]\<rparr>
           in finishLocked event (clearDirtyLocked node fs)))"

definition file_Truncate :: "nat \<Rightarrow> int \<Rightarrow> SimFS \<Rightarrow> SimFS \<times> fs_error option" where
  "file_Truncate h newSize fs =
     (case file_beginLocked FSOpTruncate h fs of
        (fs, Inl err) \<Rightarrow> (fs, Some err)
      | (fs, Inr event) \<Rightarrow>
          if newSize < 0 \<or> newSize > int max_int then (fs, Some InvalidTruncateSize)
          else let node = sm_node (sf_files fs ! h); oldSize = length (file_data h fs); fsize = nat newSize;
                   fs = (if fsize \<noteq> oldSize then fs\<lparr>sf_dirty := sf_dirty fs @ [simMutationTruncate node oldSize fsize]\<rparr> else fs);
                   fs = set_data h (if fsize \<le> oldSize then take fsize (file_data h fs)
                                    else file_data h fs @ zeros (fsize - oldSize)) fs;
                   fs = (if sm_offset (sf_files fs ! h) > fsize then set_offset h fsize fs else fs)
               in finishLocked event fs)"

definition file_Close :: "nat \<Rightarrow> SimFS \<Rightarrow> SimFS \<times> fs_error option" where
  "file_Close h fs =
     (if sm_closed (sf_files fs ! h) then (fs, Some ErrFSClosed)
      else case file_beginLocked FSOpClose h fs of
             (fs, Inl err) \<Rightarrow> (fs, Some err)
           | (fs, Inr event) \<Rightarrow>
               finishLocked event (fs\<lparr>sf_files := (sf_files fs)[h := (sf_files fs ! h)\<lparr>sm_closed := True\<rparr>]\<rparr>))"

end
