(* ===== verification/Lsm_Fs.thy ===== *)
theory Lsm_Fs
  imports Lsm_Fs_Sim Lsm_Sstable_Props
begin

text \<open>
  The file system boundary of the LSM engine, \<open>internal/lsm/fs.go\<close>, as a record of operations on an
  abstract state, and the contract the engine relies on, the locale \<open>file_system\<close>: which bytes a
  handle reads, that operations on one file leave the others alone, and what a successful create,
  write, sync and open guarantee. The simulated file system is shown to fulfil it, with all its
  injected failures and crashes.
\<close>

section \<open>The interface\<close>

text \<open>
  \<open>op_view\<close> is \<open>ReadAt\<close> of an open file in the given state. An engine operation that reads several
  blocks reads them all in one state.
\<close>

record ('s, 'h) FS =
  op_Create :: "string \<Rightarrow> 's \<Rightarrow> 's \<times> (fs_error + 'h)"
  op_Open :: "string \<Rightarrow> 's \<Rightarrow> 's \<times> (fs_error + 'h)"
  op_OpenAppend :: "string \<Rightarrow> 's \<Rightarrow> 's \<times> (fs_error + 'h)"
  op_SyncDir :: "string \<Rightarrow> 's \<Rightarrow> 's \<times> fs_error option"
  op_Remove :: "string \<Rightarrow> 's \<Rightarrow> 's \<times> fs_error option"
  op_List :: "string \<Rightarrow> 's \<Rightarrow> 's \<times> (fs_error + string list)"
  op_Stat :: "string \<Rightarrow> 's \<Rightarrow> 's \<times> (fs_error + FileInfo)"
  op_view :: "'h \<Rightarrow> 's \<Rightarrow> reader_at"
  op_Write :: "'h \<Rightarrow> bytes \<Rightarrow> 's \<Rightarrow> 's \<times> nat \<times> fs_error option"
  op_Sync :: "'h \<Rightarrow> 's \<Rightarrow> 's \<times> fs_error option"
  op_Truncate :: "'h \<Rightarrow> int \<Rightarrow> 's \<Rightarrow> 's \<times> fs_error option"
  op_Close :: "'h \<Rightarrow> 's \<Rightarrow> 's \<times> fs_error option"

definition sim_view :: "nat \<Rightarrow> SimFS \<Rightarrow> reader_at" where
  "sim_view h fs offset n =
     (case file_ReadAt_at h n (int offset) fs of
        (fs', d, err) \<Rightarrow> (d, case err of None \<Rightarrow> None | Some ErrEOF \<Rightarrow> Some EOF | Some _ \<Rightarrow> Some ReadFailed))"

definition SimFS_ops :: "(SimFS, nat) FS" where
  "SimFS_ops = \<lparr>op_Create = Create, op_Open = simfs_Open, op_OpenAppend = simfs_OpenAppend, op_SyncDir = SyncDir,
     op_Remove = Remove, op_List = fs_List, op_Stat = Stat, op_view = sim_view, op_Write = file_Write, op_Sync = file_Sync,
     op_Truncate = file_Truncate, op_Close = file_Close\<rparr>"

section \<open>The contract\<close>

text \<open>A reader of the bytes \<open>c\<close> that may fail.\<close>

definition reads_or_fails :: "reader_at \<Rightarrow> bytes \<Rightarrow> bool" where
  "reads_or_fails r c \<longleftrightarrow>
     (\<forall>n offset. readAtFull r n offset = None \<or> readAtFull r n offset = readAtFull (file_ReadAt c) n offset)"

text \<open>
  The abstract view of a file system state. \<open>a_known s h\<close>: \<open>h\<close> is a handle. \<open>a_file s h\<close> is the identity
  of its file, \<open>a_named s p\<close> the file with the clean path \<open>p\<close>, \<open>a_bytes s f\<close> the bytes of the file \<open>f\<close>.
  \<open>a_holds s h c\<close> says that reads through \<open>h\<close> see the bytes \<open>c\<close> unless they fail, \<open>a_at_end s h\<close> that the
  next write through \<open>h\<close> appends, \<open>a_dead s\<close> that a crash has happened.
\<close>

record ('s, 'h) fs_abs =
  a_ok :: "'s \<Rightarrow> bool"
  a_known :: "'s \<Rightarrow> 'h \<Rightarrow> bool"
  a_file :: "'s \<Rightarrow> 'h \<Rightarrow> nat"
  a_named :: "'s \<Rightarrow> string \<Rightarrow> nat option"
  a_bytes :: "'s \<Rightarrow> nat \<Rightarrow> bytes"
  a_holds :: "'s \<Rightarrow> 'h \<Rightarrow> bytes \<Rightarrow> bool"
  a_at_end :: "'s \<Rightarrow> 'h \<Rightarrow> bool"
  a_dead :: "'s \<Rightarrow> bool"

text \<open>An operation that writes at most the files \<open>W\<close> leaves the other open files and the names alone.\<close>

definition frame :: "('s, 'h) fs_abs \<Rightarrow> nat set \<Rightarrow> 's \<Rightarrow> 's \<Rightarrow> bool" where
  "frame A W s s' \<longleftrightarrow> (a_ok A s \<longrightarrow> a_ok A s') \<and> (a_dead A s \<longrightarrow> a_dead A s')
     \<and> (\<forall>h. a_known A s h \<longrightarrow> a_known A s' h \<and> a_file A s' h = a_file A s h
           \<and> (a_file A s h \<notin> W \<longrightarrow> (\<forall>c. a_holds A s h c \<longrightarrow> a_holds A s' h c)))
     \<and> (a_dead A s' \<or> (\<forall>q f. a_named A s' q = Some f \<longrightarrow>
           a_named A s q = Some f \<or> (\<forall>h. a_known A s h \<longrightarrow> a_file A s h \<noteq> f)))"

lemma frame_refl: "frame A {} s s"
  by (simp add: frame_def)

lemma frame_mono: "frame A W s s' \<Longrightarrow> W \<subseteq> W' \<Longrightarrow> frame A W' s s'"
  unfolding frame_def by blast

lemma frameD:
  assumes "frame A W s s'"
  shows "a_ok A s \<Longrightarrow> a_ok A s'" "a_dead A s \<Longrightarrow> a_dead A s'"
    and "a_known A s h \<Longrightarrow> a_known A s' h" "a_known A s h \<Longrightarrow> a_file A s' h = a_file A s h"
    and "a_known A s h \<Longrightarrow> a_file A s h \<notin> W \<Longrightarrow> a_holds A s h c \<Longrightarrow> a_holds A s' h c"
    and "a_named A s' q = Some f \<Longrightarrow> a_dead A s' \<or> a_named A s q = Some f \<or> (\<forall>h. a_known A s h \<longrightarrow> a_file A s h \<noteq> f)"
  using assms unfolding frame_def by blast+

lemma frame_trans:
  assumes "frame A W s s1" "frame A W s1 s2"
  shows "frame A W s s2"
proof -
  have names: "a_dead A s2 \<or> a_named A s q = Some f \<or> (\<forall>h. a_known A s h \<longrightarrow> a_file A s h \<noteq> f)"
    if q: "a_named A s2 q = Some f" for q f
  proof -
    consider "a_dead A s2" | "a_named A s1 q = Some f" "\<not> a_dead A s2" | "\<forall>h. a_known A s1 h \<longrightarrow> a_file A s1 h \<noteq> f"
      using frameD(6) [OF assms(2) q] by blast
    then show ?thesis
    proof cases
      case 2
      then show ?thesis using frameD(6) [OF assms(1) 2(1)] frameD(2) [OF assms(2)] by blast
    next
      case 3
      then show ?thesis using frameD(3,4) [OF assms(1)] by metis
    qed simp
  qed
  have "a_dead A s2 \<or> (\<forall>q f. a_named A s2 q = Some f \<longrightarrow>
      a_named A s q = Some f \<or> (\<forall>h. a_known A s h \<longrightarrow> a_file A s h \<noteq> f))"
    using names by blast
  then show ?thesis
    unfolding frame_def
    using frameD(1-5) [OF assms(1)] frameD(1-5) [OF assms(2)] by simp
qed

text \<open>The names and bytes of a state are those of another.\<close>

definition same_files :: "('s, 'h) fs_abs \<Rightarrow> 's \<Rightarrow> 's \<Rightarrow> bool" where
  "same_files A s s' \<longleftrightarrow> a_named A s' = a_named A s \<and> a_bytes A s' = a_bytes A s"

locale file_system =
  fixes F :: "('s, 'h) FS" and A :: "('s, 'h) fs_abs"
  assumes holds_view: "a_holds A s h c \<Longrightarrow> reads_or_fails (op_view F h s) c"
    and dead_holds: "a_dead A s \<Longrightarrow> a_holds A s h c"
    and Create_frame: "op_Create F p s = (s', r) \<Longrightarrow> a_ok A s \<Longrightarrow> frame A {} s s'"
    and Open_frame: "op_Open F p s = (s', r) \<Longrightarrow> a_ok A s \<Longrightarrow> frame A {} s s'"
    and OpenAppend_frame: "op_OpenAppend F p s = (s', r) \<Longrightarrow> a_ok A s \<Longrightarrow> frame A {} s s'"
    and SyncDir_frame: "op_SyncDir F p s = (s', e) \<Longrightarrow> a_ok A s \<Longrightarrow> frame A {} s s'"
    and Remove_frame: "op_Remove F p s = (s', e) \<Longrightarrow> a_ok A s \<Longrightarrow> frame A {} s s'"
    and List_frame: "op_List F p s = (s', l) \<Longrightarrow> a_ok A s \<Longrightarrow> frame A {} s s'"
    and Stat_frame: "op_Stat F p s = (s', st) \<Longrightarrow> a_ok A s \<Longrightarrow> frame A {} s s'"
    and Sync_frame: "op_Sync F h s = (s', e) \<Longrightarrow> a_ok A s \<Longrightarrow> a_known A s h \<Longrightarrow> frame A {} s s'"
    and Close_frame: "op_Close F h s = (s', e) \<Longrightarrow> a_ok A s \<Longrightarrow> frame A {} s s'"
    and Write_frame: "op_Write F h b s = (s', n, e) \<Longrightarrow> a_ok A s \<Longrightarrow> a_known A s h \<Longrightarrow> frame A {a_file A s h} s s'"
    and Truncate_frame: "op_Truncate F h k s = (s', e) \<Longrightarrow> a_ok A s \<Longrightarrow> a_known A s h \<Longrightarrow> frame A {a_file A s h} s s'"
    and Create_ok: "op_Create F p s = (s', Inr h) \<Longrightarrow> a_ok A s \<Longrightarrow>
      a_known A s' h \<and> (\<forall>h'. a_known A s h' \<longrightarrow> a_file A s h' \<noteq> a_file A s' h)
      \<and> (\<forall>q. a_named A s q \<noteq> Some (a_file A s' h))
      \<and> a_named A s' (Clean p) = Some (a_file A s' h) \<and> a_bytes A s' (a_file A s' h) = [] \<and> a_at_end A s' h
      \<and> (\<forall>q. q \<noteq> Clean p \<longrightarrow> a_named A s' q = a_named A s q)"
    and Write_ok: "op_Write F h b s = (s', n, None) \<Longrightarrow> a_ok A s \<Longrightarrow> a_known A s h \<Longrightarrow> a_at_end A s h \<Longrightarrow>
      n = length b \<and> a_named A s' = a_named A s \<and> a_at_end A s' h
      \<and> a_bytes A s' (a_file A s h) = a_bytes A s (a_file A s h) @ b \<and> length (a_bytes A s' (a_file A s h)) \<le> max_int"
    and Sync_ok: "op_Sync F h s = (s', None) \<Longrightarrow> a_ok A s \<Longrightarrow> a_known A s h \<Longrightarrow> same_files A s s'"
    and Close_ok: "op_Close F h s = (s', None) \<Longrightarrow> a_ok A s \<Longrightarrow> a_known A s h \<Longrightarrow> same_files A s s'"
    and SyncDir_ok: "op_SyncDir F p s = (s', None) \<Longrightarrow> a_ok A s \<Longrightarrow> same_files A s s'"
    and Stat_ok: "op_Stat F p s = (s', Inr i) \<Longrightarrow> a_ok A s \<Longrightarrow> same_files A s s'
      \<and> (\<exists>f. a_named A s (Clean p) = Some f \<and> fi_Size i = int (length (a_bytes A s f)))"
    and Open_ok: "op_Open F p s = (s', Inr h) \<Longrightarrow> a_ok A s \<Longrightarrow> a_known A s' h \<and> \<not> a_known A s h
      \<and> (\<exists>f. a_named A s (Clean p) = Some f \<and> a_file A s' h = f \<and> a_holds A s' h (a_bytes A s f))"
    and OpenAppend_ok: "op_OpenAppend F p s = (s', Inr h) \<Longrightarrow> a_ok A s \<Longrightarrow> a_known A s' h
      \<and> a_named A s (Clean p) = Some (a_file A s' h) \<and> \<not> a_dead A s'"

section \<open>The simulated file system fulfils the contract\<close>

definition sim_abs :: "(SimFS, nat) fs_abs" where
  "sim_abs = \<lparr>
     a_ok = (\<lambda>fs. (\<forall>f \<in> set (sf_files fs). sm_node f < length (sf_inodes fs))
        \<and> (\<forall>q i. (q, i) \<in> set (sf_live fs) \<union> set (sf_durableNames fs) \<longrightarrow> i < length (sf_inodes fs))),
     a_known = (\<lambda>fs h. h < length (sf_files fs)),
     a_file = (\<lambda>fs h. sm_node (sf_files fs ! h)),
     a_named = (\<lambda>fs p. map_of (sf_live fs) p),
     a_bytes = (\<lambda>fs f. in_data (sf_inodes fs ! f)),
     a_holds = (\<lambda>fs h c. sf_crashed fs \<or> sm_closed (sf_files fs ! h) \<or> sm_generation (sf_files fs ! h) \<noteq> sf_generation fs
        \<or> file_data h fs = c),
     a_at_end = (\<lambda>fs h. sm_offset (sf_files fs ! h) = length (file_data h fs)),
     a_dead = sf_crashed\<rparr>"

lemma sim_abs_simps [simp]:
  "a_ok sim_abs fs \<longleftrightarrow> (\<forall>f \<in> set (sf_files fs). sm_node f < length (sf_inodes fs))
        \<and> (\<forall>q i. (q, i) \<in> set (sf_live fs) \<union> set (sf_durableNames fs) \<longrightarrow> i < length (sf_inodes fs))"
  "a_known sim_abs fs h \<longleftrightarrow> h < length (sf_files fs)"
  "a_file sim_abs fs h = sm_node (sf_files fs ! h)"
  "a_named sim_abs fs p = map_of (sf_live fs) p"
  "a_bytes sim_abs fs f = in_data (sf_inodes fs ! f)"
  "a_holds sim_abs fs h c \<longleftrightarrow> sf_crashed fs \<or> sm_closed (sf_files fs ! h) \<or> sm_generation (sf_files fs ! h) \<noteq> sf_generation fs
        \<or> file_data h fs = c"
  "a_at_end sim_abs fs h \<longleftrightarrow> sm_offset (sf_files fs ! h) = length (file_data h fs)"
  "a_dead sim_abs fs = sf_crashed fs"
  by (simp_all add: sim_abs_def)

text \<open>The brackets change only the bookkeeping, unless they crash.\<close>

definition same_core :: "SimFS \<Rightarrow> SimFS \<Rightarrow> bool" where
  "same_core fs fs' \<longleftrightarrow> sf_live fs' = sf_live fs \<and> sf_durableNames fs' = sf_durableNames fs \<and> sf_dirty fs' = sf_dirty fs
     \<and> sf_generation fs' = sf_generation fs \<and> sf_crashed fs' = sf_crashed fs \<and> sf_inodes fs' = sf_inodes fs \<and> sf_files fs' = sf_files fs"

definition crashes_to :: "SimFS \<Rightarrow> SimFS \<Rightarrow> bool" where
  "crashes_to fs fs' \<longleftrightarrow> sf_crashed fs' \<and> sf_files fs' = sf_files fs \<and> length (sf_inodes fs') = length (sf_inodes fs)
     \<and> sf_live fs' = sf_durableNames fs \<and> sf_durableNames fs' = sf_durableNames fs"

lemma crashLocked_crashes [simp]: "crashes_to fs (crashLocked r fs)"
  by (simp add: crashLocked_def crashes_to_def Let_def)

lemma begin_Inr: "beginLocked op p q fs = (fs', Inr ev) \<Longrightarrow> same_core fs fs' \<and> \<not> sf_crashed fs"
  by (auto simp: beginLocked_def same_core_def Let_def split: if_splits option.splits)

lemma begin_Inl: "beginLocked op p q fs = (fs', Inl err) \<Longrightarrow> same_core fs fs' \<or> crashes_to fs fs'"
  using crashLocked_crashes
  by (auto simp: beginLocked_def same_core_def Let_def crashes_to_def crashLocked_def split: if_splits option.splits)

lemma finish_any: "finishLocked ev fs = (fs', err) \<Longrightarrow> same_core fs fs' \<or> crashes_to fs fs'"
  by (auto simp: finishLocked_def same_core_def Let_def crashes_to_def crashLocked_def split: option.splits)

lemma finish_None: "finishLocked ev fs = (fs', None) \<Longrightarrow> same_core fs fs'"
  by (auto simp: finishLocked_def same_core_def Let_def split: option.splits)

lemma file_begin_Inr: "file_beginLocked op h fs = (fs', Inr ev) \<Longrightarrow> same_core fs fs' \<and> \<not> sf_crashed fs"
  by (auto simp: file_beginLocked_def Let_def split: if_splits dest: begin_Inr)

lemma file_begin_Inl: "file_beginLocked op h fs = (fs', Inl err) \<Longrightarrow> same_core fs fs' \<or> crashes_to fs fs'"
  by (auto simp: file_beginLocked_def Let_def same_core_def split: if_splits dest: begin_Inl [unfolded same_core_def])

lemma frame_same_core: "same_core fs fs' \<Longrightarrow> frame sim_abs W fs fs'"
  by (auto simp: same_core_def frame_def file_data_def)

lemma frame_crash: "crashes_to fs fs' \<Longrightarrow> frame sim_abs W fs fs'"
  by (auto simp: crashes_to_def frame_def)

lemmas frame_bracket = frame_same_core frame_crash

lemma frame_begin: "beginLocked op p q fs = (fs', r) \<Longrightarrow> frame sim_abs W fs fs'"
  by (cases r) (auto dest: begin_Inl begin_Inr intro: frame_bracket)

lemma frame_file_begin: "file_beginLocked op h fs = (fs', r) \<Longrightarrow> frame sim_abs W fs fs'"
  by (cases r) (auto dest: file_begin_Inl file_begin_Inr intro: frame_bracket)

lemma frame_finish: "finishLocked ev fs = (fs', err) \<Longrightarrow> frame sim_abs W fs fs'"
  by (auto dest: finish_any intro: frame_bracket)

lemma same_coreD:
  assumes "same_core fs fs'"
  shows "sf_live fs' = sf_live fs" "sf_durableNames fs' = sf_durableNames fs" "sf_dirty fs' = sf_dirty fs"
    "sf_generation fs' = sf_generation fs" "sf_crashed fs' = sf_crashed fs" "sf_inodes fs' = sf_inodes fs" "sf_files fs' = sf_files fs"
  using assms by (simp_all add: same_core_def)

lemma update_snd: "(q, i) \<in> set (AList.update k v xs) \<Longrightarrow> (q, i) \<in> set xs \<or> i = v"
  by (induction xs) (auto split: if_splits)

lemma delete_snd: "(q, i) \<in> set (AList.delete k xs) \<Longrightarrow> (q, i) \<in> set xs"
  by (auto simp: AList.delete_eq)

text \<open>The effects of the operations, between the brackets.\<close>

lemma frame_newFile:
  assumes "newFile node p off fs = (fs', h)" "node < length (sf_inodes fs)"
  shows "frame sim_abs W fs fs'"
  using assms by (auto simp: newFile_def frame_def file_data_def nth_append)

lemma frame_create:
  assumes "a_ok sim_abs fs"
  shows "frame sim_abs W fs (fs\<lparr>sf_inodes := sf_inodes fs @ [x], sf_live := AList.update p (length (sf_inodes fs)) (sf_live fs)\<rparr>)"
proof -
  have "\<forall>h < length (sf_files fs). sm_node (sf_files fs ! h) < length (sf_inodes fs) \<and> sm_node (sf_files fs ! h) \<noteq> length (sf_inodes fs)"
    using assms nth_mem by fastforce
  with assms show ?thesis
    by (auto simp: frame_def file_data_def nth_append update_conv' less_Suc_eq split: if_splits dest!: update_snd)
qed

lemma frame_durable:
  assumes "\<forall>q i. (q, i) \<in> set d \<longrightarrow> i < length (sf_inodes fs)"
  shows "frame sim_abs W fs (fs\<lparr>sf_durableNames := d\<rparr>)"
  using assms by (auto simp: frame_def file_data_def)

lemma frame_delete: "frame sim_abs W fs (fs\<lparr>sf_live := AList.delete p (sf_live fs)\<rparr>)"
  by (auto simp: frame_def file_data_def delete_conv' split: if_splits dest: delete_snd)

lemma frame_files:
  assumes "length g = length (sf_files fs)" "\<And>h. h < length g \<Longrightarrow> sm_node (g ! h) = sm_node (sf_files fs ! h)
      \<and> sm_generation (g ! h) = sm_generation (sf_files fs ! h) \<and> (sm_closed (sf_files fs ! h) \<longrightarrow> sm_closed (g ! h))"
  shows "frame sim_abs W fs (fs\<lparr>sf_files := g\<rparr>)"
proof -
  have "\<forall>f \<in> set g. sm_node f < length (sf_inodes fs)" if "\<forall>f \<in> set (sf_files fs). sm_node f < length (sf_inodes fs)"
    using that assms by (simp add: all_set_conv_all_nth)
  then show ?thesis using assms by (auto simp: frame_def file_data_def)
qed

lemma frame_inodes:
  assumes "\<And>i. i \<noteq> k \<Longrightarrow> i < length (sf_inodes fs) \<Longrightarrow> in_data (g ! i) = in_data (sf_inodes fs ! i)" "length g = length (sf_inodes fs)"
    and "k \<notin> W \<Longrightarrow> in_data (g ! k) = in_data (sf_inodes fs ! k)" "a_ok sim_abs fs"
  shows "frame sim_abs W fs (fs\<lparr>sf_inodes := g\<rparr>)"
proof -
  have "in_data (g ! sm_node (sf_files fs ! h)) = in_data (sf_inodes fs ! sm_node (sf_files fs ! h))"
    if "h < length (sf_files fs)" "sm_node (sf_files fs ! h) \<notin> W" for h
    using assms that by (cases "sm_node (sf_files fs ! h) = k") auto
  then show ?thesis using assms(2,4) by (auto simp: frame_def file_data_def)
qed

lemma frame_dirty: "frame sim_abs W fs (fs\<lparr>sf_dirty := d\<rparr>)"
  by (simp add: frame_def file_data_def)

text \<open>The operations.\<close>

lemma finish_length: "finishLocked ev fs = (fs', err) \<Longrightarrow> length (sf_inodes fs') = length (sf_inodes fs)"
  by (auto dest: finish_any simp: same_core_def crashes_to_def)

lemma frame_fin: "frame sim_abs W fs fs1 \<Longrightarrow> finishLocked ev fs1 = (fs', e) \<Longrightarrow> frame sim_abs W fs fs'"
  by (rule frame_trans [OF _ frame_finish])

lemma sim_Create_frame:
  assumes "Create p fs = (fs', r)" "a_ok sim_abs fs"
  shows "frame sim_abs {} fs fs'"
proof -
  obtain fs1 b where b: "beginLocked FSOpCreate (Clean p) [] fs = (fs1, b)" by fastforce
  note 1 = frame_begin [OF b, of "{}"]
  show ?thesis
  proof (cases "\<exists>ev. b = Inr ev \<and> map_of (sf_live fs1) (Clean p) = None")
    case False
    then have "fs' = fs1" using assms(1) b by (auto simp: Create_def cleanPath_def Let_def split: sum.splits if_splits)
    with 1 show ?thesis by simp
  next
    case True
    then obtain ev where ev: "b = Inr ev" by blast
    let ?fs2 = "fs1\<lparr>sf_inodes := sf_inodes fs1 @ [\<lparr>in_data = [], in_durable = []\<rparr>], sf_live := AList.update (Clean p) (length (sf_inodes fs1)) (sf_live fs1)\<rparr>"
    obtain fs3 e where f: "finishLocked ev ?fs2 = (fs3, e)" by fastforce
    have 2: "frame sim_abs {} fs1 ?fs2" by (rule frame_create [OF frameD(1) [OF 1 assms(2)]])
    note 3 = frame_trans [OF frame_trans [OF 1 2] frame_finish [OF f]]
    show ?thesis
    proof (cases e)
      case None
      then have "\<exists>h. newFile (length (sf_inodes fs1)) (Clean p) 0 fs3 = (fs', h)"
        using assms(1) b ev True f by (auto simp: Create_def cleanPath_def Let_def split: prod.splits)
      then show ?thesis using frame_trans [OF 3 frame_newFile] finish_length [OF f] by auto
    next
      case (Some err)
      then have "fs' = fs3" using assms(1) b ev True f by (auto simp: Create_def cleanPath_def Let_def)
      with 3 show ?thesis by simp
    qed
  qed
qed

lemma sim_Create_ok:
  assumes "Create p fs = (fs', Inr h)" "a_ok sim_abs fs"
  shows "h = length (sf_files fs)" "sm_node (sf_files fs' ! h) = length (sf_inodes fs)" "length (sf_files fs') = Suc (length (sf_files fs))"
    "sf_live fs' = AList.update (Clean p) (length (sf_inodes fs)) (sf_live fs)" "file_data h fs' = []"
    "sm_offset (sf_files fs' ! h) = 0"
proof -
  obtain fs1 ev where b: "beginLocked FSOpCreate (Clean p) [] fs = (fs1, Inr ev)"
    using assms(1) by (auto simp: Create_def cleanPath_def Let_def split: prod.splits sum.splits)
  note c1 = same_coreD [OF conjunct1 [OF begin_Inr [OF b]]]
  let ?fs2 = "fs1\<lparr>sf_inodes := sf_inodes fs1 @ [\<lparr>in_data = [], in_durable = []\<rparr>], sf_live := AList.update (Clean p) (length (sf_inodes fs1)) (sf_live fs1)\<rparr>"
  obtain fs3 where f: "finishLocked ev ?fs2 = (fs3, None)" and n: "newFile (length (sf_inodes fs1)) (Clean p) 0 fs3 = (fs', h)"
    using assms(1) b by (auto simp: Create_def cleanPath_def Let_def split: prod.splits option.splits if_splits)
  note c3 = same_coreD [OF finish_None [OF f]]
  show "h = length (sf_files fs)" "sm_node (sf_files fs' ! h) = length (sf_inodes fs)" "length (sf_files fs') = Suc (length (sf_files fs))"
    "sf_live fs' = AList.update (Clean p) (length (sf_inodes fs)) (sf_live fs)" "file_data h fs' = []"
    "sm_offset (sf_files fs' ! h) = 0"
    using n c1 c3 by (auto simp: newFile_def file_data_def)
qed

lemma sim_open_cases:
  assumes "simfs_open p m fs = (fs', r)" "beginLocked (if m then FSOpOpenAppend else FSOpOpen) (Clean p) [] fs = (fs1, b)"
  shows "(\<exists>err. r = Inl err \<and> (fs' = fs1 \<or> (\<exists>ev. finishLocked ev fs1 = (fs', Some err))))
    \<or> (\<exists>ev node fs3 h. b = Inr ev \<and> map_of (sf_live fs1) (Clean p) = Some node \<and> finishLocked ev fs1 = (fs3, None) \<and> r = Inr h
        \<and> newFile node (Clean p) (if m then length (in_data (sf_inodes fs1 ! node)) else 0) fs3 = (fs', h))"
  using assms by (auto simp: simfs_open_def cleanPath_def Let_def newFile_def split: prod.splits sum.splits option.splits if_splits)

lemma sim_open_frame:
  assumes "simfs_open p m fs = (fs', r)" "a_ok sim_abs fs"
  shows "frame sim_abs {} fs fs'"
proof -
  obtain fs1 b where b: "beginLocked (if m then FSOpOpenAppend else FSOpOpen) (Clean p) [] fs = (fs1, b)" by fastforce
  note 1 = frame_begin [OF b, of "{}"]
  from sim_open_cases [OF assms(1) b] consider "fs' = fs1" | ev err where "finishLocked ev fs1 = (fs', Some err)"
    | ev node fs3 h where "map_of (sf_live fs1) (Clean p) = Some node" "finishLocked ev fs1 = (fs3, None)"
        "newFile node (Clean p) (if m then length (in_data (sf_inodes fs1 ! node)) else 0) fs3 = (fs', h)"
    by blast
  then show ?thesis
  proof cases
    case 2
    then show ?thesis using frame_trans [OF 1 frame_finish] by blast
  next
    case 3
    have "node < length (sf_inodes fs1)" using frameD(1) [OF 1 assms(2)] map_of_SomeD [OF 3(1)] by auto
    then have "frame sim_abs {} fs3 fs'" using finish_length [OF 3(2)] by (intro frame_newFile [OF 3(3)]) simp
    with frame_trans [OF 1 frame_finish [OF 3(2)]] show ?thesis by (rule frame_trans)
  qed (use 1 in simp)
qed

lemma sim_open_ok:
  assumes "simfs_open p m fs = (fs', Inr h)"
  shows "\<exists>node. map_of (sf_live fs) (Clean p) = Some node \<and> h = length (sf_files fs) \<and> length (sf_files fs') = Suc (length (sf_files fs))
    \<and> sm_node (sf_files fs' ! h) = node \<and> file_data h fs' = in_data (sf_inodes fs ! node) \<and> \<not> sf_crashed fs'
    \<and> (m \<longrightarrow> sm_offset (sf_files fs' ! h) = length (file_data h fs'))"
proof -
  obtain fs1 b where fs1: "beginLocked (if m then FSOpOpenAppend else FSOpOpen) (Clean p) [] fs = (fs1, b)" by fastforce
  from sim_open_cases [OF assms fs1] fs1 obtain ev node fs3 where
    b: "beginLocked (if m then FSOpOpenAppend else FSOpOpen) (Clean p) [] fs = (fs1, Inr ev)"
    and n: "map_of (sf_live fs1) (Clean p) = Some node" "finishLocked ev fs1 = (fs3, None)"
      "newFile node (Clean p) (if m then length (in_data (sf_inodes fs1 ! node)) else 0) fs3 = (fs', h)"
    by auto
  note c1 = same_coreD [OF conjunct1 [OF begin_Inr [OF b]]] and c3 = same_coreD [OF finish_None [OF n(2)]]
  show ?thesis using n c1 c3 begin_Inr [OF b] by (auto simp: newFile_def file_data_def)
qed

lemma fold_update_snd:
  "(q, i) \<in> set (fold (\<lambda>p. AList.update (fst p) (snd p)) ps xs) \<Longrightarrow> (q, i) \<in> set xs \<or> i \<in> snd ` set ps"
proof (induction ps arbitrary: xs)
  case (Cons p ps)
  then have "(q, i) \<in> set (AList.update (fst p) (snd p) xs) \<or> i \<in> snd ` set ps" by simp
  then show ?case using update_snd by fastforce
qed simp

lemma sim_SyncDir:
  assumes "SyncDir p fs = (fs', e)" "a_ok sim_abs fs"
  shows "frame sim_abs {} fs fs'" "e = None \<Longrightarrow> same_files sim_abs fs fs'"
proof -
  obtain fs1 b where b: "beginLocked FSOpDirSync (Clean p) [] fs = (fs1, b)" by fastforce
  note 1 = frame_begin [OF b, of "{}"]
  let ?d = "fold (\<lambda>p. AList.update (fst p) (snd p)) (filter (\<lambda>q. path_Dir (fst q) = Clean p) (sf_live fs1))
      (filter (\<lambda>q. path_Dir (fst q) \<noteq> Clean p) (sf_durableNames fs1))"
  have "\<forall>q i. (q, i) \<in> set ?d \<longrightarrow> i < length (sf_inodes fs1)"
    using frameD(1) [OF 1 assms(2)] by (auto dest!: fold_update_snd)
  then have 2: "frame sim_abs {} fs1 (fs1\<lparr>sf_durableNames := ?d\<rparr>)" by (rule frame_durable)
  have cases: "(\<exists>err. b = Inl err \<and> fs' = fs1 \<and> e = Some err) \<or> (\<exists>ev. b = Inr ev \<and> finishLocked ev (fs1\<lparr>sf_durableNames := ?d\<rparr>) = (fs', e))"
    using assms(1) b by (auto simp: SyncDir_def cleanPath_def Let_def split: sum.splits)
  then show "frame sim_abs {} fs fs'" using 1 frame_fin [OF frame_trans [OF 1 2]] by auto
  show "same_files sim_abs fs fs'" if "e = None"
    using that cases b by (auto simp: same_files_def same_core_def dest!: begin_Inr finish_None)
qed

lemma sim_Remove_frame:
  assumes "Remove p fs = (fs', e)"
  shows "frame sim_abs {} fs fs'"
proof -
  obtain fs1 b where b: "beginLocked FSOpRemove (Clean p) [] fs = (fs1, b)" by fastforce
  note 1 = frame_begin [OF b, of "{}"]
  have "fs' = fs1 \<or> (\<exists>ev. finishLocked ev (fs1\<lparr>sf_live := AList.delete (Clean p) (sf_live fs1)\<rparr>) = (fs', e))"
    using assms b by (auto simp: Remove_def cleanPath_def Let_def split: sum.splits if_splits)
  then show ?thesis using 1 frame_fin [OF frame_trans [OF 1 frame_delete]] by auto
qed

lemma sim_List_frame:
  assumes "fs_List p fs = (fs', l)"
  shows "frame sim_abs {} fs fs'"
proof -
  obtain fs1 b where b: "beginLocked FSOpList (Clean p) [] fs = (fs1, b)" by fastforce
  note 1 = frame_begin [OF b, of "{}"]
  have "fs' = fs1 \<or> (\<exists>ev e. finishLocked ev fs1 = (fs', e))"
    using assms b by (auto simp: fs_List_def cleanPath_def Let_def split: sum.splits prod.splits option.splits)
  then show ?thesis using 1 frame_fin [OF 1] by auto
qed

lemma sim_Stat:
  assumes "Stat p fs = (fs', r)"
  shows "frame sim_abs {} fs fs'"
    and "r = Inr i \<Longrightarrow> same_files sim_abs fs fs'
      \<and> (\<exists>f. a_named sim_abs fs (Clean p) = Some f \<and> fi_Size i = int (length (a_bytes sim_abs fs f)))"
proof -
  obtain fs1 b where b: "beginLocked FSOpStat (Clean p) [] fs = (fs1, b)" by fastforce
  note 1 = frame_begin [OF b, of "{}"]
  have cases: "((\<exists>err. r = Inl err) \<and> (fs' = fs1 \<or> (\<exists>ev e. finishLocked ev fs1 = (fs', e))))
      \<or> (\<exists>ev f. b = Inr ev \<and> map_of (sf_live fs1) (Clean p) = Some f \<and> finishLocked ev fs1 = (fs', None)
           \<and> r = Inr \<lparr>fi_Size = int (length (in_data (sf_inodes fs1 ! f))), fi_IsDir = False\<rparr>)"
    using assms b by (auto simp: Stat_def cleanPath_def Let_def split: sum.splits prod.splits option.splits)
  then show "frame sim_abs {} fs fs'" using 1 frame_fin [OF 1] by auto
  show "same_files sim_abs fs fs'
      \<and> (\<exists>f. a_named sim_abs fs (Clean p) = Some f \<and> fi_Size i = int (length (a_bytes sim_abs fs f)))" if "r = Inr i"
    using that cases b by (auto simp: same_files_def same_core_def dest!: begin_Inr finish_None)
qed

lemma nth_update_any: "j < length xs \<Longrightarrow> xs[i := x] ! j = (if i = j then x else xs ! j)"
  by (cases "i < length xs") (simp_all add: nth_list_update)

lemma same_files_core: "same_core fs fs' \<Longrightarrow> same_files sim_abs fs fs'"
  by (simp add: same_files_def same_core_def fun_eq_iff)

lemma same_files_trans: "same_files A s s1 \<Longrightarrow> same_files A s1 s2 \<Longrightarrow> same_files A s s2"
  by (simp add: same_files_def)

lemma sim_Sync:
  assumes "file_Sync h fs = (fs', e)" "a_ok sim_abs fs" "h < length (sf_files fs)"
  shows "frame sim_abs {} fs fs'" "e = None \<Longrightarrow> same_files sim_abs fs fs'"
proof -
  obtain fs1 b where b: "file_beginLocked FSOpFileSync h fs = (fs1, b)" by fastforce
  note 1 = frame_file_begin [OF b, of "{}"]
  let ?n = "sm_node (sf_files fs1 ! h)"
  let ?g = "(sf_inodes fs1)[?n := (sf_inodes fs1 ! ?n)\<lparr>in_durable := file_data h fs1\<rparr>]"
  have dat: "in_data (?g ! i) = in_data (sf_inodes fs1 ! i)" for i
    by (cases "i = ?n"; cases "?n < length (sf_inodes fs1)") (auto simp: not_less list_update_beyond)
  have 2: "frame sim_abs {} fs1 (fs1\<lparr>sf_inodes := ?g\<rparr>)"
    using frameD(1) [OF 1 assms(2)] dat by (intro frame_inodes [where k = 0]) auto
  have cases: "(\<exists>err. b = Inl err \<and> fs' = fs1 \<and> e = Some err)
      \<or> (\<exists>ev. b = Inr ev \<and> finishLocked ev (clearDirtyLocked ?n (fs1\<lparr>sf_inodes := ?g\<rparr>)) = (fs', e))"
    using assms(1) b by (auto simp: file_Sync_def Let_def split: sum.splits)
  have 3: "frame sim_abs {} (fs1\<lparr>sf_inodes := ?g\<rparr>) (clearDirtyLocked ?n (fs1\<lparr>sf_inodes := ?g\<rparr>))"
    unfolding clearDirtyLocked_def by (rule frame_dirty)
  show "frame sim_abs {} fs fs'" using cases 1 frame_fin [OF frame_trans [OF frame_trans [OF 1 2] 3]] by auto
  have g: "same_files sim_abs fs1 (clearDirtyLocked ?n (fs1\<lparr>sf_inodes := ?g\<rparr>))"
    using dat by (simp add: same_files_def clearDirtyLocked_def fun_eq_iff)
  show "same_files sim_abs fs fs'" if e: "e = None"
  proof -
    obtain ev where ev: "b = Inr ev" "finishLocked ev (clearDirtyLocked ?n (fs1\<lparr>sf_inodes := ?g\<rparr>)) = (fs', None)" using cases e by blast
    note same_files_core [OF conjunct1 [OF file_begin_Inr [OF b [unfolded ev(1)]]]] same_files_core [OF finish_None [OF ev(2)]]
    with g show ?thesis by (blast intro: same_files_trans)
  qed
qed

lemma sim_Close:
  assumes "file_Close h fs = (fs', e)"
  shows "frame sim_abs {} fs fs'" "e = None \<Longrightarrow> same_files sim_abs fs fs'"
proof -
  obtain fs1 b where b: "file_beginLocked FSOpClose h fs = (fs1, b)" by fastforce
  note 1 = frame_file_begin [OF b, of "{}"]
  let ?g = "(sf_files fs1)[h := (sf_files fs1 ! h)\<lparr>sm_closed := True\<rparr>]"
  have 2: "frame sim_abs {} fs1 (fs1\<lparr>sf_files := ?g\<rparr>)" by (rule frame_files) (auto simp: nth_update_any)
  have cases: "fs' = fs \<and> e \<noteq> None \<or> (\<exists>err. b = Inl err \<and> fs' = fs1 \<and> e = Some err) \<or> (\<exists>ev. b = Inr ev \<and> finishLocked ev (fs1\<lparr>sf_files := ?g\<rparr>) = (fs', e))"
    using assms(1) b by (auto simp: file_Close_def Let_def split: sum.splits if_splits)
  show "frame sim_abs {} fs fs'" using cases 1 frame_refl frame_fin [OF frame_trans [OF 1 2]] by auto
  show "same_files sim_abs fs fs'" if "e = None"
    using that cases b by (auto simp: same_files_def same_core_def fun_eq_iff dest!: file_begin_Inr finish_None)
qed

lemma frame_set_data:
  assumes "a_ok sim_abs fs" "h < length (sf_files fs)"
  shows "frame sim_abs {sm_node (sf_files fs ! h)} fs (set_data h d fs)"
  unfolding set_data_def Let_def
  by (rule frame_inodes [OF _ _ _ assms(1), where k = "sm_node (sf_files fs ! h)"]) auto

lemma frame_set_offset: "h < length (sf_files fs) \<Longrightarrow> frame sim_abs W fs (set_offset h off fs)"
  unfolding set_offset_def by (rule frame_files) (auto simp: nth_update_any)

lemma frame_recordWrite: "frame sim_abs W fs (recordWriteLocked n off d fs)"
  by (auto simp: recordWriteLocked_def frame_dirty frame_mono [OF frame_refl])

lemma files_simps [simp]:
  "sf_files (set_data h d fs) = sf_files fs" "sf_files (recordWriteLocked n off d fs) = sf_files fs"
  "sf_inodes (recordWriteLocked n off d fs) = sf_inodes fs" "sf_inodes (set_offset h off fs) = sf_inodes fs"
  "sf_live (set_data h d fs) = sf_live fs" "sf_live (recordWriteLocked n off d fs) = sf_live fs" "sf_live (set_offset h off fs) = sf_live fs"
  "length (sf_files (set_offset h off fs)) = length (sf_files fs)"
  by (auto simp: set_data_def Let_def recordWriteLocked_def set_offset_def)

lemma overwrite_append: "overwrite d (length d) b = d @ b"
  by (simp add: overwrite_def Let_def zeros_def)

lemma sim_Write:
  assumes "file_Write h b fs = (fs', n, e)" "a_ok sim_abs fs" "h < length (sf_files fs)"
  shows "frame sim_abs {sm_node (sf_files fs ! h)} fs fs'"
    and "e = None \<Longrightarrow> a_at_end sim_abs fs h \<Longrightarrow> n = length b \<and> sf_live fs' = sf_live fs \<and> a_at_end sim_abs fs' h
      \<and> in_data (sf_inodes fs' ! sm_node (sf_files fs ! h)) = file_data h fs @ b \<and> length (file_data h fs @ b) \<le> max_int"
proof -
  let ?W = "{sm_node (sf_files fs ! h)}"
  obtain fs1 r where r: "file_beginLocked FSOpWrite h fs = (fs1, r)" by fastforce
  note 1 = frame_file_begin [OF r, of ?W]
  have h1: "h < length (sf_files fs1)" "sm_node (sf_files fs1 ! h) = sm_node (sf_files fs ! h)" "a_ok sim_abs fs1"
    using frameD(1) [OF 1 assms(2)] frameD(3,4) [OF 1, of h] assms(3) by simp_all
  let ?f = "sf_files fs1 ! h"
  let ?fs2 = "recordWriteLocked (sm_node ?f) (sm_offset ?f) b fs1"
  let ?fs3 = "set_data h (overwrite (file_data h ?fs2) (sm_offset ?f) b) ?fs2"
  let ?fs4 = "set_offset h (sm_offset ?f + length b) ?fs3"
  have 2: "frame sim_abs ?W fs1 ?fs2" by (rule frame_recordWrite)
  have "frame sim_abs {sm_node (sf_files ?fs2 ! h)} ?fs2 ?fs3" using frameD(1) [OF 2 h1(3)] h1(1) by (intro frame_set_data) simp_all
  then have 3: "frame sim_abs ?W ?fs2 ?fs3" using h1(2) by simp
  have 4: "frame sim_abs ?W ?fs3 ?fs4" using h1(1) by (intro frame_set_offset) simp
  note all = frame_trans [OF frame_trans [OF frame_trans [OF 1 2] 3] 4]
  have cases: "fs' = fs1 \<and> e \<noteq> None \<or> (\<exists>ev. r = Inr ev \<and> finishLocked ev ?fs4 = (fs', e) \<and> n = length b \<and> sm_offset ?f + length b \<le> max_int)"
    using assms(1) r by (auto simp: file_Write_def Let_def split: sum.splits if_splits prod.splits)
  then show "frame sim_abs ?W fs fs'" using 1 frame_fin [OF all] by auto
  show "n = length b \<and> sf_live fs' = sf_live fs \<and> a_at_end sim_abs fs' h
      \<and> in_data (sf_inodes fs' ! sm_node (sf_files fs ! h)) = file_data h fs @ b \<and> length (file_data h fs @ b) \<le> max_int" if e: "e = None" "a_at_end sim_abs fs h"
  proof -
    obtain ev where ev: "r = Inr ev" "finishLocked ev ?fs4 = (fs', None)" "n = length b" "sm_offset ?f + length b \<le> max_int" using cases e(1) by blast
    note c1 = same_coreD [OF conjunct1 [OF file_begin_Inr [OF r [unfolded ev(1)]]]] and c5 = same_coreD [OF finish_None [OF ev(2)]]
    have node: "sm_node (sf_files fs ! h) < length (sf_inodes fs)" using assms(2,3) by simp
    have off: "sm_offset ?f = length (file_data h fs)" using e(2) c1 by simp
    have "in_data (sf_inodes ?fs4 ! sm_node (sf_files fs ! h)) = file_data h fs @ b"
      using node c1 off overwrite_append [of "file_data h fs" b] by (simp add: set_data_def Let_def file_data_def)
    moreover have "sm_offset (sf_files ?fs4 ! h) = length (file_data h fs @ b)" "sm_node (sf_files ?fs4 ! h) = sm_node (sf_files fs ! h)"
      using h1(1) off c1 by (simp_all add: set_offset_def)
    ultimately show ?thesis using ev(3,4) off c1 c5 by (simp add: file_data_def)
  qed
qed

lemma sim_Truncate_frame:
  assumes "file_Truncate h k fs = (fs', e)" "a_ok sim_abs fs" "h < length (sf_files fs)"
  shows "frame sim_abs {sm_node (sf_files fs ! h)} fs fs'"
proof -
  let ?W = "{sm_node (sf_files fs ! h)}"
  obtain fs1 r where r: "file_beginLocked FSOpTruncate h fs = (fs1, r)" by fastforce
  note 1 = frame_file_begin [OF r, of ?W]
  have h1: "h < length (sf_files fs1)" "sm_node (sf_files fs1 ! h) = sm_node (sf_files fs ! h)" "a_ok sim_abs fs1"
    using frameD(1) [OF 1 assms(2)] frameD(3,4) [OF 1, of h] assms(3) by simp_all
  have cases: "fs' = fs1 \<or> (\<exists>ev fs2 d fs4. (fs2 = fs1 \<or> (\<exists>m. fs2 = fs1\<lparr>sf_dirty := m\<rparr>)) \<and> (fs4 = set_data h d fs2 \<or> (\<exists>off. fs4 = set_offset h off (set_data h d fs2)))
      \<and> finishLocked ev fs4 = (fs', e))"
    using assms(1) r by (auto simp: file_Truncate_def Let_def split: sum.splits if_splits) blast+
  then show ?thesis
  proof (elim disjE exE)
    fix ev fs2 d fs4
    assume c: "(fs2 = fs1 \<or> (\<exists>m. fs2 = fs1\<lparr>sf_dirty := m\<rparr>)) \<and> (fs4 = set_data h d fs2 \<or> (\<exists>off. fs4 = set_offset h off (set_data h d fs2)))
      \<and> finishLocked ev fs4 = (fs', e)"
    then have 2: "frame sim_abs ?W fs1 fs2" "sf_files fs2 = sf_files fs1" using frame_dirty frame_mono [OF frame_refl] by auto
    have "frame sim_abs {sm_node (sf_files fs2 ! h)} fs2 (set_data h d fs2)"
      using frameD(1) [OF 2(1) h1(3)] 2(2) h1(1) by (intro frame_set_data) simp_all
    then have 3: "frame sim_abs ?W fs2 (set_data h d fs2)" using h1(2) 2(2) by simp
    have 4: "frame sim_abs ?W (set_data h d fs2) fs4"
      using c frame_set_offset [of h "set_data h d fs2" ?W] frame_mono [OF frame_refl] 2(2) h1(1) by auto
    show ?thesis using c by (intro frame_fin [OF frame_trans [OF frame_trans [OF frame_trans [OF 1 2(1)] 3] 4]]) blast
  qed (use 1 in simp)
qed

lemma sim_holds_view:
  assumes "a_holds sim_abs fs h c"
  shows "reads_or_fails (sim_view h fs) c"
  unfolding reads_or_fails_def
proof (intro allI)
  fix n offset
  obtain fs1 r where r: "file_beginLocked FSOpRead h fs = (fs1, r)" by fastforce
  show "readAtFull (sim_view h fs) n offset = None \<or> readAtFull (sim_view h fs) n offset = readAtFull (file_ReadAt c) n offset"
  proof (cases r)
    case (Inl err)
    then show ?thesis using r
      by (auto simp: readAtFull_def sim_view_def file_ReadAt_at_def file_ReadAt_def Let_def split: fs_error.splits)
  next
    case (Inr ev)
    then have c: "file_data h fs1 = c"
      using assms r file_begin_Inr [of FSOpRead h fs fs1 ev] by (auto simp: file_beginLocked_def Let_def file_data_def same_core_def split: if_splits)
    obtain fs2 e where "finishLocked ev fs1 = (fs2, e)" by fastforce
    with c Inr r show ?thesis
      by (cases e) (auto simp: readAtFull_def sim_view_def file_ReadAt_at_def file_ReadAt_def Let_def split: fs_error.splits option.splits)
  qed
qed

lemma SimFS_ops_simps [simp]:
  "op_Create SimFS_ops = Create" "op_Open SimFS_ops = simfs_Open" "op_OpenAppend SimFS_ops = simfs_OpenAppend"
  "op_SyncDir SimFS_ops = SyncDir" "op_Remove SimFS_ops = Remove" "op_List SimFS_ops = fs_List" "op_Stat SimFS_ops = Stat"
  "op_view SimFS_ops = sim_view" "op_Write SimFS_ops = file_Write" "op_Sync SimFS_ops = file_Sync"
  "op_Truncate SimFS_ops = file_Truncate" "op_Close SimFS_ops = file_Close"
  by (simp_all add: SimFS_ops_def)

lemma sim_Create_new:
  assumes "Create p fs = (fs', Inr h)" "a_ok sim_abs fs"
  shows "a_known sim_abs fs' h \<and> (\<forall>h'. a_known sim_abs fs h' \<longrightarrow> a_file sim_abs fs h' \<noteq> a_file sim_abs fs' h)
      \<and> (\<forall>q. a_named sim_abs fs q \<noteq> Some (a_file sim_abs fs' h))
      \<and> a_named sim_abs fs' (Clean p) = Some (a_file sim_abs fs' h) \<and> a_bytes sim_abs fs' (a_file sim_abs fs' h) = [] \<and> a_at_end sim_abs fs' h
      \<and> (\<forall>q. q \<noteq> Clean p \<longrightarrow> a_named sim_abs fs' q = a_named sim_abs fs q)"
proof -
  have "\<forall>h' < length (sf_files fs). sm_node (sf_files fs ! h') \<noteq> length (sf_inodes fs)"
    using assms(2) nth_mem by fastforce
  moreover have "\<forall>q. map_of (sf_live fs) q \<noteq> Some (length (sf_inodes fs))" using assms(2) by (auto dest: map_of_SomeD)
  moreover note ok = sim_Create_ok [OF assms]
  moreover have "map_of (sf_live fs') (Clean p) = Some (length (sf_inodes fs))" unfolding ok(4) by (simp add: update_conv')
  moreover have "\<forall>q. q \<noteq> Clean p \<longrightarrow> map_of (sf_live fs') q = map_of (sf_live fs) q" unfolding ok(4) by (simp add: update_conv')
  moreover have "in_data (sf_inodes fs' ! length (sf_inodes fs)) = []" using ok(1,2,5) by (simp add: file_data_def)
  ultimately show ?thesis by (auto simp del: update_conv')
qed

interpretation sim_fs: file_system SimFS_ops sim_abs
proof (unfold_locales, unfold SimFS_ops_simps, goal_cases)
  case 1 then show ?case by (rule sim_holds_view)
next
  case 2 then show ?case by simp
next
  case 3 then show ?case by (rule sim_Create_frame)
next
  case 4 then show ?case unfolding simfs_Open_def by (rule sim_open_frame)
next
  case 5 then show ?case unfolding simfs_OpenAppend_def by (rule sim_open_frame)
next
  case 6 then show ?case by (rule sim_SyncDir(1))
next
  case 7 then show ?case by (intro sim_Remove_frame)
next
  case 8 then show ?case by (intro sim_List_frame)
next
  case 9 then show ?case by (intro sim_Stat(1))
next
  case 10 then show ?case by (intro sim_Sync(1)) simp_all
next
  case 11 then show ?case by (intro sim_Close(1))
next
  case 12 then show ?case unfolding sim_abs_simps(3) by (intro sim_Write(1)) simp_all
next
  case 13 then show ?case unfolding sim_abs_simps(3) by (intro sim_Truncate_frame) simp_all
next
  case 14 then show ?case by (rule sim_Create_new)
next
  case 15 then show ?case using sim_Write(2) [OF 15(1,2)] by (simp add: file_data_def fun_eq_iff)
next
  case 16 then show ?case using sim_Sync(2) [OF 16(1,2)] by simp
next
  case 17 then show ?case by (intro sim_Close(2)) simp_all
next
  case 18 then show ?case by (intro sim_SyncDir(2)) simp_all
next
  case 19 then show ?case by (intro sim_Stat(2) [OF _ refl])
next
  case 20 then show ?case using sim_open_ok [OF 20(1) [unfolded simfs_Open_def]] by auto
next
  case 21 then show ?case using sim_open_ok [OF 21(1) [unfolded simfs_OpenAppend_def]] by auto
qed

end
