(* ===== verification/Lsm_Fs_Crash.thy ===== *)
theory Lsm_Fs_Crash
  imports Lsm_Fs
begin

text \<open>
  What survives a crash of the simulated file system, \<open>internal/lsm/fs_sim.go\<close>: a file that was synced
  and whose directory was synced afterwards keeps its name and its bytes through any sequence of
  operations on other files, injected errors, crashes and recoveries.
\<close>

section \<open>Sequences of operations\<close>

datatype sim_op =
    DoCreate string | DoOpen string | DoOpenAppend string | DoSyncDir string | DoRename string string | DoLink string string
  | DoRemove string | DoList string | DoStat string
  | DoRead nat nat | DoReadAt nat nat int | DoWrite nat bytes | DoSync nat | DoTruncate nat int | DoClose nat
  | DoCrash int | DoRecover | DoCrashSchedule "SimCrashDirective list" | DoErrorSchedule "SimErrorDirective list" | DoResetEvents

text \<open>A handle that no open has returned has no operations.\<close>

definition on_handle :: "nat \<Rightarrow> (nat \<Rightarrow> SimFS \<Rightarrow> SimFS \<times> 'r) \<Rightarrow> SimFS \<Rightarrow> SimFS" where
  "on_handle h f fs = (if h < length (sf_files fs) then fst (f h fs) else fs)"

fun sim_exec :: "sim_op \<Rightarrow> SimFS \<Rightarrow> SimFS" where
  "sim_exec (DoCreate p) fs = fst (Create p fs)"
| "sim_exec (DoOpen p) fs = fst (simfs_Open p fs)"
| "sim_exec (DoOpenAppend p) fs = fst (simfs_OpenAppend p fs)"
| "sim_exec (DoSyncDir p) fs = fst (SyncDir p fs)"
| "sim_exec (DoRename p q) fs = fst (Rename p q fs)"
| "sim_exec (DoLink p q) fs = fst (Link p q fs)"
| "sim_exec (DoRemove p) fs = fst (Remove p fs)"
| "sim_exec (DoList p) fs = fst (fs_List p fs)"
| "sim_exec (DoStat p) fs = fst (Stat p fs)"
| "sim_exec (DoRead h n) fs = on_handle h (\<lambda>h. file_Read h n) fs"
| "sim_exec (DoReadAt h n off) fs = on_handle h (\<lambda>h. file_ReadAt_at h n off) fs"
| "sim_exec (DoWrite h b) fs = on_handle h (\<lambda>h. file_Write h b) fs"
| "sim_exec (DoSync h) fs = on_handle h file_Sync fs"
| "sim_exec (DoTruncate h k) fs = on_handle h (\<lambda>h. file_Truncate h k) fs"
| "sim_exec (DoClose h) fs = on_handle h file_Close fs"
| "sim_exec (DoCrash k) fs = fst (Crash k fs)"
| "sim_exec DoRecover fs = fst (Recover fs)"
| "sim_exec (DoCrashSchedule ds) fs = fst (SetCrashSchedule ds fs)"
| "sim_exec (DoErrorSchedule ds) fs = fst (SetErrorSchedule ds fs)"
| "sim_exec DoResetEvents fs = ResetEvents fs"

definition sim_run :: "sim_op list \<Rightarrow> SimFS \<Rightarrow> SimFS" where
  "sim_run ops fs = fold sim_exec ops fs"

text \<open>The operations that change the bytes of the file \<open>node\<close> or the meaning of the name \<open>p\<close>.\<close>

fun touches :: "string \<Rightarrow> nat \<Rightarrow> SimFS \<Rightarrow> sim_op \<Rightarrow> bool" where
  "touches p node fs (DoWrite h b) = (sm_node (sf_files fs ! h) = node)"
| "touches p node fs (DoTruncate h k) = (sm_node (sf_files fs ! h) = node)"
| "touches p node fs (DoRemove q) = (cleanPath q = p)"
| "touches p node fs (DoRename q r) = (cleanPath q = p \<or> cleanPath r = p)"
| "touches p node fs _ = False"

fun untouched :: "string \<Rightarrow> nat \<Rightarrow> sim_op list \<Rightarrow> SimFS \<Rightarrow> bool" where
  "untouched p node [] fs = True"
| "untouched p node (op # ops) fs = (\<not> touches p node fs op \<and> untouched p node ops (sim_exec op fs))"

section \<open>The invariant of a synced file\<close>

definition sim_wf :: "SimFS \<Rightarrow> bool" where
  "sim_wf fs \<longleftrightarrow> a_ok sim_abs fs \<and> distinct (map fst (sf_live fs)) \<and> distinct (map fst (sf_durableNames fs))"

text \<open>\<open>keeps (Some (p, node, c))\<close>: the name \<open>p\<close> durably denotes the file \<open>node\<close>, whose bytes are durably \<open>c\<close>.\<close>

definition keeps :: "(string \<times> nat \<times> bytes) option \<Rightarrow> SimFS \<Rightarrow> bool" where
  "keeps K fs \<longleftrightarrow> sim_wf fs \<and> (\<forall>p node c. K = Some (p, node, c) \<longrightarrow> map_of (sf_live fs) p = Some node \<and> map_of (sf_durableNames fs) p = Some node
     \<and> in_data (sf_inodes fs ! node) = c \<and> in_durable (sf_inodes fs ! node) = c \<and> (\<forall>m \<in> set (sf_dirty fs). mu_node m \<noteq> node))"

definition hits :: "(string \<times> nat \<times> bytes) option \<Rightarrow> SimFS \<Rightarrow> sim_op \<Rightarrow> bool" where
  "hits K fs op \<longleftrightarrow> (\<exists>p node c. K = Some (p, node, c) \<and> touches p node fs op)"

lemma survivors_other:
  assumes "\<forall>m \<in> set ms. mu_node m \<noteq> node"
  shows "survivors durable retain remaining ms surv node = surv node"
  using assms by (induction durable retain remaining ms surv rule: survivors.induct) (auto simp: Let_def)

lemma keeps_node: "keeps (Some (p, node, c)) fs \<Longrightarrow> node < length (sf_inodes fs) \<and> node \<in> snd ` set (sf_durableNames fs)"
  by (auto simp: keeps_def sim_wf_def dest!: map_of_SomeD) force

lemma keeps_crash:
  assumes "keeps K fs"
  shows "keeps K (crashLocked k fs)"
proof -
  have "sim_wf (crashLocked k fs)" using assms by (auto simp: keeps_def sim_wf_def crashLocked_def Let_def)
  moreover have "in_data (sf_inodes (crashLocked k fs) ! node) = c \<and> in_durable (sf_inodes (crashLocked k fs) ! node) = c"
    if K: "K = Some (p, node, c)" for p node c
    using keeps_node [OF assms [unfolded K]] assms [unfolded K keeps_def] by (simp add: crashLocked_def Let_def crash_node_def survivors_other)
  ultimately show ?thesis using assms by (simp add: keeps_def crashLocked_def Let_def)
qed

lemma keeps_bookkeeping [simp]:
  "keeps K (fs\<lparr>sf_opCounts := a\<rparr>) = keeps K fs" "keeps K (fs\<lparr>sf_events := b\<rparr>) = keeps K fs"
  "keeps K (fs\<lparr>sf_crashFaults := u\<rparr>) = keeps K fs" "keeps K (fs\<lparr>sf_errorFaults := v\<rparr>) = keeps K fs"
  "keeps K (fs\<lparr>sf_crashed := w\<rparr>) = keeps K fs"
  by (simp_all add: keeps_def sim_wf_def)

lemma keeps_begin: "beginLocked op p q fs = (fs', r) \<Longrightarrow> keeps K fs \<Longrightarrow> keeps K fs'"
  by (auto simp: beginLocked_def Let_def split: if_splits option.splits intro!: keeps_crash)

lemma keeps_finish: "finishLocked ev fs = (fs', r) \<Longrightarrow> keeps K fs \<Longrightarrow> keeps K fs'"
  by (auto simp: finishLocked_def Let_def split: option.splits intro!: keeps_crash)

lemma keeps_fst_finish: "keeps K fs \<Longrightarrow> keeps K (fst (finishLocked ev fs))"
  by (rule keeps_finish [OF prod.collapse [symmetric]])

lemma keeps_file_begin: "file_beginLocked op h fs = (fs', r) \<Longrightarrow> keeps K fs \<Longrightarrow> keeps K fs'"
  by (auto simp: file_beginLocked_def Let_def split: if_splits dest: keeps_begin)

section \<open>The effects of the operations\<close>

lemma keeps_newFile:
  assumes "newFile node p off fs = (fs', h)" "keeps K fs" "node < length (sf_inodes fs)"
  shows "keeps K fs'"
  using assms by (auto simp: newFile_def keeps_def sim_wf_def)

lemma keeps_create:
  assumes "keeps K fs" "map_of (sf_live fs) p = None"
  shows "keeps K (fs\<lparr>sf_inodes := sf_inodes fs @ [x], sf_live := AList.update p (length (sf_inodes fs)) (sf_live fs)\<rparr>)"
  using assms keeps_node [of _ _ _ fs] frameD(1) [OF frame_create [of fs "{}" p x]]
  by (auto simp: keeps_def sim_wf_def nth_append update_conv' distinct_update simp del: sim_abs_simps(1))

lemma keeps_live:
  assumes "keeps K fs" "distinct (map fst l)" "\<And>q i. (q, i) \<in> set l \<Longrightarrow> i < length (sf_inodes fs)"
    and "\<And>p node c. K = Some (p, node, c) \<Longrightarrow> map_of l p = map_of (sf_live fs) p"
  shows "keeps K (fs\<lparr>sf_live := l\<rparr>)"
  using assms by (auto simp: keeps_def sim_wf_def)

lemma keeps_inodes_files:
  assumes "keeps K fs" "length g = length (sf_inodes fs)" "length fl = length (sf_files fs)" "\<And>i. i < length fl \<Longrightarrow> sm_node (fl ! i) = sm_node (sf_files fs ! i)"
    and "\<And>p node c. K = Some (p, node, c) \<Longrightarrow> in_data (g ! node) = c \<and> in_durable (g ! node) = c \<and> (\<forall>m \<in> set d. mu_node m \<noteq> node)"
  shows "keeps K (fs\<lparr>sf_inodes := g, sf_files := fl, sf_dirty := d\<rparr>)"
proof -
  have "\<forall>f \<in> set fl. sm_node f < length (sf_inodes fs)"
    using assms(1,3,4) unfolding keeps_def sim_wf_def sim_abs_simps by (metis in_set_conv_nth)
  then show ?thesis using assms(1,2,5) by (auto simp: keeps_def sim_wf_def)
qed

lemma map_of_filter_key: "map_of (filter (\<lambda>p. P (fst p)) xs) k = (if P k then map_of xs k else None)"
  by (induction xs) auto

lemma fold_update:
  assumes "distinct (map fst xs)"
  shows "map_of (fold (\<lambda>p. AList.update (fst p) (snd p)) xs ys) = map_of ys ++ map_of xs"
  using assms
proof (induction xs arbitrary: ys)
  case (Cons x xs)
  then have "fst x \<notin> dom (map_of xs)" by (simp add: dom_map_of_conv_image_fst)
  with Cons show ?case by (auto simp: update_conv' map_add_def fun_eq_iff split: option.splits)
qed simp

lemma fold_update_distinct: "distinct (map fst ys) \<Longrightarrow> distinct (map fst (fold (\<lambda>p. AList.update (fst p) (snd p)) xs ys))"
  by (induction xs arbitrary: ys) (simp_all add: distinct_update)

lemma fold_update_in: "(q, i) \<in> set (fold (\<lambda>p. AList.update (fst p) (snd p)) xs ys) \<Longrightarrow> (q, i) \<in> set ys \<or> i \<in> snd ` set xs"
  by (induction xs arbitrary: ys) (auto dest!: update_snd)

lemma keeps_durable:
  assumes "keeps K fs"
  shows "keeps K (fs\<lparr>sf_durableNames := fold (\<lambda>p. AList.update (fst p) (snd p)) (filter (\<lambda>p. path_Dir (fst p) = name) (sf_live fs))
      (filter (\<lambda>p. path_Dir (fst p) \<noteq> name) (sf_durableNames fs))\<rparr>)"
proof -
  let ?l = "filter (\<lambda>p. path_Dir (fst p) = name) (sf_live fs)" and ?d = "filter (\<lambda>p. path_Dir (fst p) \<noteq> name) (sf_durableNames fs)"
  have dist: "distinct (map fst ?l)" "distinct (map fst ?d)" using assms by (auto simp: keeps_def sim_wf_def distinct_map_filter)
  have "i < length (sf_inodes fs)" if "(q, i) \<in> set (fold (\<lambda>p. AList.update (fst p) (snd p)) ?l ?d)" for q i
    using fold_update_in [OF that] assms by (auto simp: keeps_def sim_wf_def)
  then show ?thesis using assms dist fold_update_distinct [OF dist(2), of ?l]
    unfolding keeps_def sim_wf_def by (auto simp: fold_update map_add_def map_of_filter_key [of "\<lambda>q. path_Dir q = name"] map_of_filter_key [of "\<lambda>q. path_Dir q \<noteq> name"] simp del: map_of_eq_Some_iff split: option.splits)
qed

lemma keeps_set_data:
  assumes "keeps K fs" "\<And>p node c. K = Some (p, node, c) \<Longrightarrow> sm_node (sf_files fs ! h) \<noteq> node"
  shows "keeps K (set_data h d fs)"
  using assms keeps_inodes_files [of K fs "(sf_inodes fs)[sm_node (sf_files fs ! h) := x]" "sf_files fs" "sf_dirty fs" for x]
  by (auto simp: set_data_def Let_def keeps_def)

lemma keeps_set_offset: "keeps K fs \<Longrightarrow> keeps K (set_offset h off fs)"
  using keeps_inodes_files [of K fs "sf_inodes fs" "(sf_files fs)[h := (sf_files fs ! h)\<lparr>sm_offset := off\<rparr>]" "sf_dirty fs"]
  by (auto simp: set_offset_def keeps_def nth_update_any)

lemma keeps_dirty:
  assumes "keeps K fs" "\<And>p node c. K = Some (p, node, c) \<Longrightarrow> mu_node m \<noteq> node"
  shows "keeps K (fs\<lparr>sf_dirty := sf_dirty fs @ [m]\<rparr>)"
  using assms by (auto simp: keeps_def sim_wf_def)

lemma keeps_Write:
  assumes "keeps K fs" "\<not> hits K fs (DoWrite h b)" "h < length (sf_files fs)"
  shows "keeps K (fst (file_Write h b fs))"
proof -
  obtain fs1 r where r: "file_beginLocked FSOpWrite h fs = (fs1, r)" by fastforce
  note k1 = keeps_file_begin [OF r assms(1)]
  show ?thesis
  proof (cases r)
    case (Inr ev)
    then have node: "\<And>p node c. K = Some (p, node, c) \<Longrightarrow> sm_node (sf_files fs1 ! h) \<noteq> node"
      using assms(2) same_coreD [OF conjunct1 [OF file_begin_Inr [OF r [unfolded Inr]]]] by (auto simp: hits_def)
    let ?f = "sf_files fs1 ! h"
    have "keeps K (recordWriteLocked (sm_node ?f) (sm_offset ?f) b fs1)"
      using keeps_dirty [OF k1] node k1 by (auto simp: recordWriteLocked_def)
    then have "keeps K (set_offset h o' (set_data h d (recordWriteLocked (sm_node ?f) (sm_offset ?f) b fs1)))" for o' d
      using node by (intro keeps_set_offset keeps_set_data) auto
    then show ?thesis using r Inr k1 by (auto simp: file_Write_def Let_def split: prod.splits dest: keeps_finish)
  qed (use r k1 in \<open>auto simp: file_Write_def\<close>)
qed

lemma keeps_Truncate:
  assumes "keeps K fs" "\<not> hits K fs (DoTruncate h k)" "h < length (sf_files fs)"
  shows "keeps K (fst (file_Truncate h k fs))"
proof -
  obtain fs1 r where r: "file_beginLocked FSOpTruncate h fs = (fs1, r)" by fastforce
  note k1 = keeps_file_begin [OF r assms(1)]
  show ?thesis
  proof (cases r)
    case (Inr ev)
    then have node: "\<And>p node c. K = Some (p, node, c) \<Longrightarrow> sm_node (sf_files fs1 ! h) \<noteq> node"
      using assms(2) same_coreD [OF conjunct1 [OF file_begin_Inr [OF r [unfolded Inr]]]] by (auto simp: hits_def)
    let ?f = "sf_files fs1 ! h"
    let ?d = "fs1\<lparr>sf_dirty := sf_dirty fs1 @ [simMutationTruncate (sm_node ?f) (length (file_data h fs1)) (nat k)]\<rparr>"
    have "keeps K ?d" using keeps_dirty [OF k1] node by auto
    then have "keeps K (set_data h d ?d)" "keeps K (set_data h d fs1)" for d using node k1 by (auto intro!: keeps_set_data)
    then show ?thesis using r Inr k1 by (auto simp: file_Truncate_def Let_def intro!: keeps_fst_finish keeps_set_offset)
  qed (use r k1 in \<open>auto simp: file_Truncate_def\<close>)
qed

lemma keeps_open: "keeps K fs \<Longrightarrow> keeps K (fst (simfs_open p m fs))"
proof -
  assume k: "keeps K fs"
  obtain fs' r where r: "simfs_open p m fs = (fs', r)" by fastforce
  obtain fs1 b where b: "beginLocked (if m then FSOpOpenAppend else FSOpOpen) (Clean p) [] fs = (fs1, b)" by fastforce
  note k1 = keeps_begin [OF b k]
  from sim_open_cases [OF r b] show ?thesis
  proof (elim disjE exE conjE)
    fix ev node fs3 h
    assume n: "map_of (sf_live fs1) (Clean p) = Some node" and f: "finishLocked ev fs1 = (fs3, None)"
      and h: "newFile node (Clean p) (if m then length (in_data (sf_inodes fs1 ! node)) else 0) fs3 = (fs', h)"
    have "node < length (sf_inodes fs1)" using map_of_SomeD [OF n] k1 by (auto simp: keeps_def sim_wf_def)
    then show ?thesis using keeps_newFile [OF h keeps_finish [OF f k1]] same_coreD(6) [OF finish_None [OF f]] r by simp
  qed (use r k1 in \<open>auto dest: keeps_finish\<close>)
qed

lemma keeps_Create: "keeps K fs \<Longrightarrow> keeps K (fst (Create p fs))"
proof -
  assume k: "keeps K fs"
  obtain fs1 b where b: "beginLocked FSOpCreate (Clean p) [] fs = (fs1, b)" by fastforce
  note k1 = keeps_begin [OF b k]
  show ?thesis
  proof (cases "\<exists>ev. b = Inr ev \<and> map_of (sf_live fs1) (Clean p) = None")
    case True
    then obtain ev where ev: "b = Inr ev" "map_of (sf_live fs1) (Clean p) = None" by blast
    let ?fs2 = "fs1\<lparr>sf_inodes := sf_inodes fs1 @ [\<lparr>in_data = [], in_durable = []\<rparr>], sf_live := AList.update (Clean p) (length (sf_inodes fs1)) (sf_live fs1)\<rparr>"
    obtain fs3 e where f: "finishLocked ev ?fs2 = (fs3, e)" by fastforce
    note k3 = keeps_finish [OF f keeps_create [OF k1 ev(2)]]
    obtain fs4 h where h: "newFile (length (sf_inodes fs1)) (Clean p) 0 fs3 = (fs4, h)" by fastforce
    show ?thesis
    proof (cases e)
      case None
      then have "length (sf_inodes fs1) < length (sf_inodes fs3)" using same_coreD(6) [OF finish_None [OF f [unfolded None]]] by simp
      from keeps_newFile [OF h k3 this] show ?thesis using b ev f h None by (simp add: Create_def cleanPath_def Let_def)
    qed (use b ev f k3 in \<open>simp add: Create_def cleanPath_def Let_def\<close>)
  qed (use b k1 in \<open>cases b; auto simp: Create_def cleanPath_def Let_def\<close>)
qed

lemma keeps_update_live:
  assumes "keeps K fs" "node < length (sf_inodes fs)" "\<And>p n c. K = Some (p, n, c) \<Longrightarrow> q \<noteq> p"
  shows "keeps K (fs\<lparr>sf_live := AList.update q node (sf_live fs)\<rparr>)"
  using assms by (intro keeps_live) (auto simp: keeps_def sim_wf_def distinct_update update_conv' dest!: update_snd simp del: map_of_eq_Some_iff)

lemma keeps_delete_live:
  assumes "keeps K fs" "\<And>p n c. K = Some (p, n, c) \<Longrightarrow> q \<noteq> p"
  shows "keeps K (fs\<lparr>sf_live := AList.delete q (sf_live fs)\<rparr>)"
  using assms by (intro keeps_live) (auto simp: keeps_def sim_wf_def distinct_delete delete_conv' dest!: delete_snd simp del: map_of_eq_Some_iff)

lemma keeps_Remove:
  assumes "keeps K fs" "\<not> hits K fs (DoRemove p)"
  shows "keeps K (fst (Remove p fs))"
  using assms
  by (auto simp: Remove_def Let_def hits_def split: prod.splits sum.splits if_splits dest!: keeps_begin [OF _ assms(1)]
      intro!: keeps_fst_finish keeps_delete_live)

lemma keeps_Rename:
  assumes "keeps K fs" "\<not> hits K fs (DoRename p q)"
  shows "keeps K (fst (Rename p q fs))"
proof -
  have "keeps K (fs1\<lparr>sf_live := AList.update (cleanPath q) node (AList.delete (cleanPath p) (sf_live fs1))\<rparr>)"
    if k: "keeps K fs1" and n: "map_of (sf_live fs1) (cleanPath p) = Some node" for fs1 node
  proof -
    have "node < length (sf_inodes fs1)" using map_of_SomeD [OF n] k by (auto simp: keeps_def sim_wf_def)
    then show ?thesis using keeps_update_live [OF keeps_delete_live [OF k, of "cleanPath p"], of node "cleanPath q"] assms(2) by (auto simp: hits_def)
  qed
  then show ?thesis
    by (auto simp: Rename_def Let_def split: prod.splits sum.splits option.splits dest!: keeps_begin [OF _ assms(1)] intro!: keeps_fst_finish)
qed

lemma keeps_Link:
  assumes "keeps K fs"
  shows "keeps K (fst (Link p q fs))"
proof -
  have "keeps K (fs1\<lparr>sf_live := AList.update (cleanPath q) node (sf_live fs1)\<rparr>)"
    if k: "keeps K fs1" and n: "map_of (sf_live fs1) (cleanPath p) = Some node" "map_of (sf_live fs1) (cleanPath q) = None" for fs1 node
  proof -
    have "node < length (sf_inodes fs1)" using map_of_SomeD [OF n(1)] k by (auto simp: keeps_def sim_wf_def)
    then show ?thesis using n(2) k by (intro keeps_update_live [OF k]) (auto simp: keeps_def simp del: map_of_eq_Some_iff)
  qed
  then show ?thesis
    by (auto simp: Link_def Let_def split: prod.splits sum.splits option.splits dest!: keeps_begin [OF _ assms(1)] intro!: keeps_fst_finish)
qed

lemma keeps_reads:
  assumes "keeps K fs"
  shows "keeps K (fst (fs_List p fs))" "keeps K (fst (Stat p fs))" "keeps K (fst (file_Read h n fs))" "keeps K (fst (file_ReadAt_at h n off fs))"
  by (auto simp: fs_List_def Stat_def file_Read_def file_ReadAt_at_def Let_def split: prod.splits sum.splits option.splits
      dest!: keeps_begin [OF _ assms] keeps_file_begin [OF _ assms] intro: keeps_finish keeps_set_offset)

lemma keeps_SyncDir:
  assumes "keeps K fs"
  shows "keeps K (fst (SyncDir p fs))"
  by (auto simp: SyncDir_def Let_def split: prod.splits sum.splits dest!: keeps_begin [OF _ assms] intro!: keeps_fst_finish keeps_durable)

lemma keeps_synced:
  assumes "keeps K fs"
  shows "keeps K (clearDirtyLocked n (fs\<lparr>sf_inodes := (sf_inodes fs)[n := (sf_inodes fs ! n)\<lparr>in_durable := in_data (sf_inodes fs ! n)\<rparr>]\<rparr>))"
proof (cases K)
  case (Some x)
  obtain p node c where x: "x = (p, node, c)" by (cases x)
  show ?thesis using assms keeps_node [OF assms [unfolded Some x]] unfolding Some x
    by (auto simp: keeps_def sim_wf_def clearDirtyLocked_def nth_update_any)
qed (use assms in \<open>auto simp: keeps_def sim_wf_def clearDirtyLocked_def\<close>)

lemma keeps_Sync:
  assumes "keeps K fs"
  shows "keeps K (fst (file_Sync h fs))"
  by (auto simp: file_Sync_def file_data_def Let_def split: prod.splits sum.splits dest!: keeps_file_begin [OF _ assms] intro!: keeps_fst_finish keeps_synced)

lemma keeps_Close:
  assumes "keeps K fs"
  shows "keeps K (fst (file_Close h fs))"
proof -
  have "keeps K (fs1\<lparr>sf_files := (sf_files fs1)[h := (sf_files fs1 ! h)\<lparr>sm_closed := True\<rparr>]\<rparr>)" if "keeps K fs1" for fs1
    using keeps_inodes_files [OF that, of "sf_inodes fs1" "(sf_files fs1)[h := (sf_files fs1 ! h)\<lparr>sm_closed := True\<rparr>]" "sf_dirty fs1"] that
    by (auto simp: keeps_def nth_update_any)
  then show ?thesis using assms
    by (auto simp: file_Close_def Let_def split: prod.splits sum.splits dest!: keeps_file_begin [OF _ assms] intro!: keeps_fst_finish)
qed

lemma keeps_exec:
  assumes "keeps K fs" "\<not> hits K fs op"
  shows "keeps K (sim_exec op fs)"
  using assms
  by (cases op) (auto simp: on_handle_def keeps_Create keeps_open simfs_Open_def simfs_OpenAppend_def keeps_SyncDir keeps_Rename keeps_Link
      keeps_Remove keeps_reads keeps_Write keeps_Sync keeps_Truncate keeps_Close Crash_def keeps_crash Recover_def
      SetCrashSchedule_def SetErrorSchedule_def ResetEvents_def split: sum.splits)

lemma keeps_run:
  assumes "keeps (Some (p, node, c)) fs" "untouched p node ops fs"
  shows "keeps (Some (p, node, c)) (sim_run ops fs)"
  using assms
proof (induction ops arbitrary: fs)
  case (Cons op ops)
  have "keeps (Some (p, node, c)) (sim_exec op fs)" using Cons.prems by (intro keeps_exec) (simp_all add: hits_def)
  then show ?case using Cons by (simp add: sim_run_def)
qed (simp add: sim_run_def)

lemma wf_run: "sim_wf fs \<Longrightarrow> sim_wf (sim_run ops fs)"
proof (induction ops arbitrary: fs)
  case (Cons op ops)
  have "keeps None (sim_exec op fs)" using Cons.prems by (intro keeps_exec) (simp_all add: keeps_def hits_def)
  then show ?case using Cons.IH by (simp add: sim_run_def keeps_def)
qed (simp add: sim_run_def)

lemma sync_dir_keeps:
  assumes "sim_wf fs" "h < length (sf_files fs)" "file_Sync h fs = (fs1, None)" "SyncDir d fs1 = (fs2, None)"
    and "map_of (sf_live fs) p = Some (sm_node (sf_files fs ! h))" "path_Dir p = cleanPath d"
  shows "keeps (Some (p, sm_node (sf_files fs ! h), file_data h fs)) fs2"
proof -
  let ?n = "sm_node (sf_files fs ! h)"
  let ?g = "\<lambda>fs. clearDirtyLocked ?n (fs\<lparr>sf_inodes := (sf_inodes fs)[?n := (sf_inodes fs ! ?n)\<lparr>in_durable := in_data (sf_inodes fs ! ?n)\<rparr>]\<rparr>)"
  have n: "?n < length (sf_inodes fs)" using assms(1,2) by (simp add: sim_wf_def)
  obtain fs0 ev where b: "file_beginLocked FSOpFileSync h fs = (fs0, Inr ev)"
    using assms(3) by (auto simp: file_Sync_def split: prod.splits sum.splits)
  note c0 = same_coreD [OF conjunct1 [OF file_begin_Inr [OF b]]]
  have f1: "finishLocked ev (?g fs0) = (fs1, None)" using assms(3) b c0 by (simp add: file_Sync_def Let_def file_data_def)
  note c1 = same_coreD [OF finish_None [OF f1]]
  obtain fs3 ev2 where b2: "beginLocked FSOpDirSync (cleanPath d) [] fs1 = (fs3, Inr ev2)"
    using assms(4) by (auto simp: SyncDir_def Let_def split: prod.splits sum.splits)
  note c3 = same_coreD [OF conjunct1 [OF begin_Inr [OF b2]]]
  have f2: "finishLocked ev2 (fs3\<lparr>sf_durableNames := fold (\<lambda>p. AList.update (fst p) (snd p)) (filter (\<lambda>p. path_Dir (fst p) = cleanPath d) (sf_live fs3))
      (filter (\<lambda>p. path_Dir (fst p) \<noteq> cleanPath d) (sf_durableNames fs3))\<rparr>) = (fs2, None)"
    using assms(4) b2 by (simp add: SyncDir_def Let_def)
  note c2 = same_coreD [OF finish_None [OF f2]]
  have wf: "sim_wf fs2"
  proof -
    have "keeps None fs" using assms(1) by (simp add: keeps_def)
    from keeps_SyncDir [OF keeps_Sync [OF this, of h], of d] show ?thesis using assms(3,4) by (simp add: keeps_def)
  qed
  have "distinct (map fst (filter (\<lambda>p. path_Dir (fst p) = cleanPath d) (sf_live fs)))"
    using assms(1) by (simp add: sim_wf_def distinct_map_filter)
  then have "map_of (sf_durableNames fs2) p = Some ?n"
    using assms(5,6) c0 c1 c2 c3
    by (simp add: clearDirtyLocked_def fold_update map_add_def map_of_filter_key [of "\<lambda>q. path_Dir q = cleanPath d"] del: map_of_eq_Some_iff)
  then show ?thesis using wf assms(5) n c0 c1 c2 c3
    by (simp add: keeps_def clearDirtyLocked_def file_data_def del: map_of_eq_Some_iff)
qed

text \<open>C15. In every state that any sequence of operations can reach in the simulated file system: when the
  sync of an open file succeeds and then the sync of the directory of a name of that file, the name
  and the bytes the file had survive every continuation that does not write or truncate the file and
  does not remove, rename or replace the name. The continuation may contain operations on other
  files, injected errors, crashes that retain any number of unsynced bytes, and recoveries.
\<close>

theorem synced_file_survives:
  assumes "fs = sim_run before NewSimFS" "h < length (sf_files fs)"
    and "map_of (sf_live fs) (cleanPath name) = Some (sm_node (sf_files fs ! h))" "path_Dir (cleanPath name) = cleanPath dir"
    and "file_Sync h fs = (fs1, None)" "SyncDir dir fs1 = (fs2, None)"
    and "untouched (cleanPath name) (sm_node (sf_files fs ! h)) after fs2"
  shows "LiveBytes name (sim_run after fs2) = Inr (file_data h fs) \<and> DurableBytes name (sim_run after fs2) = Inr (file_data h fs)"
proof -
  have "sim_wf NewSimFS" by (simp add: sim_wf_def NewSimFS_def)
  then have "sim_wf fs" unfolding assms(1) by (rule wf_run)
  from keeps_run [OF sync_dir_keeps [OF this assms(2,5,6,3,4)] assms(7)]
  show ?thesis by (simp add: keeps_def LiveBytes_def DurableBytes_def del: map_of_eq_Some_iff)
qed

text \<open>The witness: a file is written and synced, an unsynced file is written, then the system crashes and recovers.\<close>

definition crash_demo :: "SimFS" where
  "crash_demo = sim_run [DoCreate ''d/a'', DoWrite 0 [1, 2, 3]] NewSimFS"

definition crash_demo_synced :: "SimFS" where
  "crash_demo_synced = fst (SyncDir ''d'' (fst (file_Sync 0 crash_demo)))"

definition crash_demo_after :: "sim_op list" where
  "crash_demo_after = [DoCreate ''d/b'', DoWrite 1 [9], DoCrash 0, DoRecover]"

lemma crash_demo_paths:
  "cleanPath ''d'' = ''d''" "cleanPath ''d/a'' = ''d/a''" "cleanPath ''d/b'' = ''d/b''" "path_Dir ''d/a'' = ''d''" "path_Dir ''d/b'' = ''d''"
  by code_simp+

lemmas crash_demo_ops = crash_demo_paths sim_run_def NewSimFS_def Create_def file_Write_def file_Sync_def SyncDir_def Let_def
  beginLocked_def finishLocked_def file_beginLocked_def newFile_def recordWriteLocked_def set_data_def set_offset_def
  file_data_def overwrite_def zeros_def clearDirtyLocked_def on_handle_def max_int_def

lemma crash_demo_facts:
  "0 < length (sf_files crash_demo)"
  "map_of (sf_live crash_demo) (cleanPath ''d/a'') = Some (sm_node (sf_files crash_demo ! 0))"
  "path_Dir (cleanPath ''d/a'') = cleanPath ''d''"
  "snd (file_Sync 0 crash_demo) = None" "snd (SyncDir ''d'' (fst (file_Sync 0 crash_demo))) = None"
  "untouched (cleanPath ''d/a'') (sm_node (sf_files crash_demo ! 0)) crash_demo_after crash_demo_synced"
  "file_data 0 crash_demo = [1, 2, 3]"
  by (simp_all add: crash_demo_def crash_demo_synced_def crash_demo_after_def crash_demo_ops)

theorem synced_file_survives_witness:
  "file_data 0 crash_demo = [1, 2, 3] \<and> LiveBytes ''d/a'' (sim_run crash_demo_after crash_demo_synced) = Inr [1, 2, 3]
     \<and> DurableBytes ''d/a'' (sim_run crash_demo_after crash_demo_synced) = Inr [1, 2, 3]"
proof -
  have s: "file_Sync 0 crash_demo = (fst (file_Sync 0 crash_demo), None)" by (rule prod_eqI) (simp_all add: crash_demo_facts)
  have d: "SyncDir ''d'' (fst (file_Sync 0 crash_demo)) = (crash_demo_synced, None)"
    by (rule prod_eqI) (simp_all add: crash_demo_facts crash_demo_synced_def)
  from synced_file_survives [OF crash_demo_def crash_demo_facts(1-3) s d crash_demo_facts(6)] show ?thesis
    by (simp add: crash_demo_facts)
qed

end
