(* ===== verification/Lsm_Engine.thy ===== *)
theory Lsm_Engine
  imports Lsm_Fs Lsm_Skiplist Lsm_Manifest Lsm_Merge
begin

text \<open>
  The storage engine, \<open>internal/lsm/engine.go\<close>, with the file operations of \<open>manifest.go\<close> and the
  engine side of \<open>compaction.go\<close>. An operation takes the engine and the state of the file system and
  returns both with its result; an outer \<open>None\<close> is a panic or a loop that does not end. The file
  system is given by its operations \<open>F\<close>, the protobuf codec of version edits by \<open>marshal\<close> and
  \<open>unmarshal\<close>. All methods hold the engine's lock for their whole body, so locking is left out. The
  texts of error messages are left out, wrapped causes are kept. A table handle is identified by its
  value, since every open file has a handle of its own. The test hook of the compaction is left out.
\<close>

section \<open>Errors\<close>

datatype lsm_error =
    EngineClosed | FailStopped lsm_error | NilRand | NegativeThreshold
  | AppliedRegresses u64 u64 | FlushRegresses u64 u64 | FlushUnapplied u64 u64 | ActiveBeyondTarget | ImmutableBeyondTarget
  | NoFilesystem | EmptyImmutable | MaxSeqBeyondWatermark | FileNumberExhausted
  | FsFailed fs_error | SstFailed sst_error | FrameFailed frame_error | ReplayFailed manifest_error | InvalidEdit edit_error
  | ManifestReadFailed | ManifestCorrupt "lsm_error option" | ShortManifestWrite | Uncertain lsm_error
  | VersionConflict u64
  | CompactionTierExhausted | WrongInputCount | TierMismatch | DuplicateInput | InputNotPublished | EmptyCompaction
  | Joined "lsm_error list"

text \<open>\<open>errors.Join\<close> drops the nil errors; without any other it is nil.\<close>

definition errors_Join :: "lsm_error option list \<Rightarrow> lsm_error option" where
  "errors_Join es = (let l = List.map_filter id es in if l = [] then None else Some (Joined l))"

fun isUncertainManifestAppend :: "lsm_error \<Rightarrow> bool" where
  "isUncertainManifestAppend (Uncertain err) = True"
| "isUncertainManifestAppend (FailStopped err) = isUncertainManifestAppend err"
| "isUncertainManifestAppend (ManifestCorrupt (Some err)) = isUncertainManifestAppend err"
| "isUncertainManifestAppend (Joined errs) = (\<exists>err \<in> set errs. isUncertainManifestAppend err)"
| "isUncertainManifestAppend _ = False"

abbreviation fs_err :: "fs_error option \<Rightarrow> lsm_error option" where
  "fs_err e \<equiv> map_option FsFailed e"

text \<open>A close error other than \<open>ErrFSClosed\<close> leaves the handle open.\<close>

definition still_open :: "fs_error option \<Rightarrow> bool" where
  "still_open e \<longleftrightarrow> e \<noteq> None \<and> e \<noteq> Some ErrFSClosed"

section \<open>State\<close>

record immutableMemtable =
  im_list :: skipList
  im_count :: nat
  im_maxSeq :: u64
  im_watermark :: u64

record 'h tableHandle =
  th_metadata :: fileMetadata
  th_file :: 'h
  th_reader :: "SSTableReader option"
  th_size :: int

record 'h obsoleteFile =
  ob_path :: string
  ob_file :: "'h option"

record 'h Engine =
  en_rnd :: Lsm_Skiplist.Rand
  en_list :: skipList
  en_activeSize :: int
  en_activeCount :: nat
  en_activeMaxSeq :: u64
  en_immutables :: "immutableMemtable list"
  en_flushThreshold :: int
  en_appliedIndex :: u64
  en_manifest :: manifestState
  en_tables :: "'h tableHandle list"
  en_nextFileNumber :: u64
  en_fs :: bool
  en_dir :: string
  en_poisoned :: "lsm_error option"
  en_unresolved :: "'h list"
  en_obsolete :: "'h obsoleteFile list"
  en_obsoleteDirDirty :: bool
  en_disableAutoCompaction :: bool
  en_readWithBloom :: bool
  en_completedFlushes :: u64
  en_completedCompactions :: u64
  en_closed :: bool

definition DefaultFlushThreshold :: int where
  "DefaultFlushThreshold = 4 * 2 ^ 20"

definition NewEngine :: "Lsm_Skiplist.Rand option \<Rightarrow> 'h Engine option" where
  "NewEngine rnd =
     (case rnd of
        None \<Rightarrow> None
      | Some rnd \<Rightarrow> Some \<lparr>en_rnd = rnd, en_list = newSkipList 0, en_activeSize = 0, en_activeCount = 0, en_activeMaxSeq = 0,
          en_immutables = [], en_flushThreshold = 0, en_appliedIndex = 0, en_manifest = newManifestState, en_tables = [],
          en_nextFileNumber = 1, en_fs = False, en_dir = [], en_poisoned = None, en_unresolved = [], en_obsolete = [],
          en_obsoleteDirDirty = False, en_disableAutoCompaction = False, en_readWithBloom = True, en_completedFlushes = 0,
          en_completedCompactions = 0, en_closed = False\<rparr>)"

section \<open>The manifest file\<close>

definition manifestFilename :: string where
  "manifestFilename = ''MANIFEST''"

definition createManifest :: "('s, 'h) FS \<Rightarrow> string \<Rightarrow> string \<Rightarrow> 's \<Rightarrow> 's \<times> lsm_error option" where
  "createManifest F dir path s =
     (case op_Create F path s of
        (s, Inl err) \<Rightarrow> (s, Some (FsFailed err))
      | (s, Inr file) \<Rightarrow>
     (case op_Sync F file s of
        (s, Some err) \<Rightarrow> (case op_Close F file s of (s, closeErr) \<Rightarrow> (s, errors_Join [Some (FsFailed err), fs_err closeErr]))
      | (s, None) \<Rightarrow>
     (case op_Close F file s of
        (s, Some err) \<Rightarrow> (s, Some (FsFailed err))
      | (s, None) \<Rightarrow> (case op_SyncDir F dir s of (s, err) \<Rightarrow> (s, fs_err err)))))"

definition truncateManifest :: "('s, 'h) FS \<Rightarrow> string \<Rightarrow> int \<Rightarrow> 's \<Rightarrow> 's \<times> lsm_error option" where
  "truncateManifest F path fsize s =
     (case op_OpenAppend F path s of
        (s, Inl err) \<Rightarrow> (s, Some (FsFailed err))
      | (s, Inr file) \<Rightarrow>
     (case op_Truncate F file fsize s of
        (s, Some err) \<Rightarrow> (case op_Close F file s of (s, closeErr) \<Rightarrow> (s, errors_Join [Some (FsFailed err), fs_err closeErr]))
      | (s, None) \<Rightarrow>
     (case op_Sync F file s of
        (s, Some err) \<Rightarrow> (case op_Close F file s of (s, closeErr) \<Rightarrow> (s, errors_Join [Some (FsFailed err), fs_err closeErr]))
      | (s, None) \<Rightarrow> (case op_Close F file s of (s, err) \<Rightarrow> (s, fs_err err)))))"

definition syncManifest :: "('s, 'h) FS \<Rightarrow> string \<Rightarrow> 's \<Rightarrow> 's \<times> lsm_error option" where
  "syncManifest F path s =
     (case op_OpenAppend F path s of
        (s, Inl err) \<Rightarrow> (s, Some (FsFailed err))
      | (s, Inr file) \<Rightarrow>
     (case op_Sync F file s of
        (s, Some err) \<Rightarrow> (case op_Close F file s of (s, closeErr) \<Rightarrow> (s, errors_Join [Some (FsFailed err), fs_err closeErr]))
      | (s, None) \<Rightarrow> (case op_Close F file s of (s, err) \<Rightarrow> (s, fs_err err))))"

definition loadManifest :: "('s, 'h) FS \<Rightarrow> (bytes \<Rightarrow> VersionEdit option) \<Rightarrow> string \<Rightarrow> 's \<Rightarrow> 's \<times> (lsm_error + manifestState)" where
  "loadManifest F unmarshal dir s =
     (let path = path_Join [dir, manifestFilename]
      in case op_Stat F path s of
           (s, Inl err) \<Rightarrow>
             if err = ErrNotExist
             then (case createManifest F dir path s of (s, Some err) \<Rightarrow> (s, Inl err) | (s, None) \<Rightarrow> (s, Inr newManifestState))
             else (s, Inl (FsFailed err))
         | (s, Inr info) \<Rightarrow>
             if fi_IsDir info \<or> fi_Size info < 0 then (s, Inl (ManifestCorrupt None))
             else (case checkedManifestInt (nat (fi_Size info)) of
                     Inl err \<Rightarrow> (s, Inl (ManifestCorrupt (Some (FrameFailed err))))
                   | Inr fsize \<Rightarrow>
                  (case op_Open F path s of
                     (s, Inl err) \<Rightarrow> (s, Inl (FsFailed err))
                   | (s, Inr file) \<Rightarrow>
                       (let data = readAtFull (op_view F file s) fsize 0
                        in case op_Close F file s of
                             (s, closeErr) \<Rightarrow>
                               (case data of
                                  None \<Rightarrow> (s, Inl (Joined (List.map_filter id [Some ManifestReadFailed, fs_err closeErr])))
                                | Some data \<Rightarrow>
                                    (case closeErr of
                                       Some err \<Rightarrow> (s, Inl (FsFailed err))
                                     | None \<Rightarrow>
                                         (case replayManifestBytes unmarshal data of
                                            Inl err \<Rightarrow> (s, Inl (ReplayFailed err))
                                          | Inr (state, complete, torn) \<Rightarrow>
                                              if torn
                                              then (case truncateManifest F path (int complete) s of
                                                      (s, Some err) \<Rightarrow> (s, Inl err) | (s, None) \<Rightarrow> (s, Inr state))
                                              else (s, Inr state))))))))"

text \<open>The result of an append: whether it is committed, a handle that could not be closed, and the error.\<close>

definition appendManifestEdit :: "('s, 'h) FS \<Rightarrow> (VersionEdit \<Rightarrow> bytes option) \<Rightarrow> string \<Rightarrow> VersionEdit \<Rightarrow> 's
    \<Rightarrow> 's \<times> bool \<times> 'h option \<times> lsm_error option" where
  "appendManifestEdit F marshal dir edit s =
     (case encodeManifestFrame marshal (Some edit) of
        Inl err \<Rightarrow> (s, False, None, Some (FrameFailed err))
      | Inr encoded \<Rightarrow>
          (case op_OpenAppend F (path_Join [dir, manifestFilename]) s of
             (s, Inl err) \<Rightarrow> (s, False, None, Some (FsFailed err))
           | (s, Inr file) \<Rightarrow>
               (case op_Write F file encoded s of
                  (s, written, writeErr) \<Rightarrow>
                    if writeErr \<noteq> None \<or> written \<noteq> length encoded
                    then (let writeErr = (case writeErr of None \<Rightarrow> ShortManifestWrite | Some err \<Rightarrow> FsFailed err)
                          in case op_Close F file s of
                               (s, closeErr) \<Rightarrow> (s, False, if still_open closeErr then Some file else None,
                                  map_option Uncertain (errors_Join [Some writeErr, fs_err closeErr])))
                    else (case op_Sync F file s of
                            (s, Some syncErr) \<Rightarrow>
                              (case op_Close F file s of
                                 (s, closeErr) \<Rightarrow> (s, False, if still_open closeErr then Some file else None,
                                    map_option Uncertain (errors_Join [Some (FsFailed syncErr), fs_err closeErr])))
                          | (s, None) \<Rightarrow>
                              (case op_Close F file s of
                                 (s, Some closeErr) \<Rightarrow>
                                   (s, True, if still_open (Some closeErr) then Some file else None, Some (FsFailed closeErr))
                               | (s, None) \<Rightarrow> (s, True, None, None))))))"

section \<open>Handles\<close>

definition checkOpenLocked :: "'h Engine \<Rightarrow> lsm_error option" where
  "checkOpenLocked e =
     (if en_closed e then Some EngineClosed
      else case en_poisoned e of Some err \<Rightarrow> Some (FailStopped err) | None \<Rightarrow> None)"

definition poisonLocked :: "lsm_error \<Rightarrow> 'h Engine \<Rightarrow> 'h Engine" where
  "poisonLocked err e = (if en_poisoned e = None then e\<lparr>en_poisoned := Some err\<rparr> else e)"

definition closeFileRetainingLocked :: "('s, 'h) FS \<Rightarrow> 'h option \<Rightarrow> 'h Engine \<Rightarrow> 's \<Rightarrow> 'h Engine \<times> 's \<times> lsm_error option" where
  "closeFileRetainingLocked F file e s =
     (case file of
        None \<Rightarrow> (e, s, None)
      | Some h \<Rightarrow>
          (case op_Close F h s of
             (s, err) \<Rightarrow> (if still_open err then e\<lparr>en_unresolved := en_unresolved e @ [h]\<rparr> else e, s, fs_err err)))"

fun close_handles :: "('s, 'h) FS \<Rightarrow> ('a \<Rightarrow> 'h) \<Rightarrow> 'a list \<Rightarrow> 's \<Rightarrow> 'a list \<Rightarrow> lsm_error option \<Rightarrow> 's \<times> 'a list \<times> lsm_error option" where
  "close_handles F f [] s unresolved err = (s, unresolved, err)"
| "close_handles F f (x # xs) s unresolved err =
     (case op_Close F (f x) s of
        (s, closeErr) \<Rightarrow>
          if still_open closeErr then close_handles F f xs s (unresolved @ [x]) (errors_Join [err, fs_err closeErr])
          else close_handles F f xs s unresolved err)"

definition closeTables :: "('s, 'h) FS \<Rightarrow> 'h Engine \<Rightarrow> 's \<Rightarrow> 'h Engine \<times> 's \<times> lsm_error option" where
  "closeTables F e s =
     (case close_handles F th_file (en_tables e) s [] None of (s, unresolved, err) \<Rightarrow> (e\<lparr>en_tables := unresolved\<rparr>, s, err))"

definition closeUnresolvedLocked :: "('s, 'h) FS \<Rightarrow> 'h Engine \<Rightarrow> 's \<Rightarrow> 'h Engine \<times> 's \<times> lsm_error option" where
  "closeUnresolvedLocked F e s =
     (case close_handles F id (en_unresolved e) s [] None of (s, unresolved, err) \<Rightarrow> (e\<lparr>en_unresolved := unresolved\<rparr>, s, err))"

section \<open>Obsolete files\<close>

text \<open>The loop of \<open>reconcileObsoleteLocked\<close>: the files that stay pending, the dirty mark and the combined error.\<close>

fun reconcile_loop :: "('s, 'h) FS \<Rightarrow> 'h obsoleteFile list \<Rightarrow> 's \<Rightarrow> 'h obsoleteFile list \<Rightarrow> bool \<Rightarrow> lsm_error option
    \<Rightarrow> 's \<times> 'h obsoleteFile list \<times> bool \<times> lsm_error option" where
  "reconcile_loop F [] s pending dirty combined = (s, pending, dirty, combined)"
| "reconcile_loop F (ob # obs) s pending dirty combined =
     (case (case ob_file ob of None \<Rightarrow> (s, None) | Some h \<Rightarrow> op_Close F h s) of
        (s, closeErr) \<Rightarrow>
          if still_open closeErr
          then reconcile_loop F obs s (pending @ [ob]) dirty (errors_Join [combined, fs_err closeErr])
          else (let ob = ob\<lparr>ob_file := None\<rparr>
                in case op_Remove F (ob_path ob) s of
                     (s, removeErr) \<Rightarrow>
                       if removeErr = None \<or> removeErr = Some ErrNotExist then reconcile_loop F obs s pending True combined
                       else reconcile_loop F obs s (pending @ [ob]) True (errors_Join [combined, fs_err removeErr])))"

definition reconcileObsoleteLocked :: "('s, 'h) FS \<Rightarrow> 'h Engine \<Rightarrow> 's \<Rightarrow> 'h Engine \<times> 's \<times> lsm_error option" where
  "reconcileObsoleteLocked F e s =
     (if \<not> en_fs e then (e, s, None)
      else case reconcile_loop F (en_obsolete e) s [] (en_obsoleteDirDirty e) None of
             (s, pending, dirty, combined) \<Rightarrow>
               (let e = e\<lparr>en_obsolete := pending, en_obsoleteDirDirty := dirty\<rparr>
                in if dirty
                   then (case op_SyncDir F (en_dir e) s of
                           (s, Some err) \<Rightarrow> (e, s, errors_Join [combined, Some (FsFailed err)])
                         | (s, None) \<Rightarrow> (e\<lparr>en_obsoleteDirDirty := False\<rparr>, s, combined))
                   else (e, s, combined)))"

definition discardCompactionOutputLocked :: "('s, 'h) FS \<Rightarrow> string \<Rightarrow> 'h option \<Rightarrow> lsm_error option \<Rightarrow> 'h Engine \<Rightarrow> 's
    \<Rightarrow> 'h Engine \<times> 's \<times> lsm_error option" where
  "discardCompactionOutputLocked F path file cause e s =
     (case reconcileObsoleteLocked F (e\<lparr>en_obsolete := en_obsolete e @ [\<lparr>ob_path = path, ob_file = file\<rparr>]\<rparr>) s of
        (e, s, err) \<Rightarrow> (e, s, errors_Join [cause, err]))"

section \<open>Tables\<close>

definition defaultFileNumberWidth :: nat where
  "defaultFileNumberWidth = 6"

definition table_name :: "u64 \<Rightarrow> string" where
  "table_name number =
     (let s = decimal (unat number) in replicate (defaultFileNumberWidth - length s) (digit 0) @ s @ sstableFilenameSuffix)"

definition allocateFilenameLocked :: "'h Engine \<Rightarrow> 'h Engine \<times> (lsm_error + string)" where
  "allocateFilenameLocked e =
     (if en_nextFileNumber e = 0 \<or> en_nextFileNumber e = - 1 then (e, Inl FileNumberExhausted)
      else (e\<lparr>en_nextFileNumber := en_nextFileNumber e + 1\<rparr>, Inr (table_name (en_nextFileNumber e))))"

text \<open>\<open>strconv.ParseUint\<close> with base 10 and 64 bits.\<close>

definition ParseUint :: "string \<Rightarrow> u64 option" where
  "ParseUint s =
     (if s = [] \<or> \<not> list_all is_digit s \<or> parse_decimal s \<ge> 2 ^ 64 then None else Some (of_nat (parse_decimal s)))"

definition nextFileNumber :: "(string \<times> fileMetadata) list \<Rightarrow> u64" where
  "nextFileNumber files =
     fold (\<lambda>name nxt. case ParseUint (TrimSuffix name sstableFilenameSuffix) of
                         Some number \<Rightarrow> if number \<ge> nxt \<and> number \<noteq> - 1 then number + 1 else nxt
                       | None \<Rightarrow> nxt) (map fst files) 1"

text \<open>The handle is returned also with an error, when the file was opened.\<close>

definition openTableOwned :: "('s, 'h) FS \<Rightarrow> string \<Rightarrow> fileMetadata \<Rightarrow> u64 \<Rightarrow> 's
    \<Rightarrow> ('s \<times> 'h tableHandle option \<times> lsm_error option) option" where
  "openTableOwned F dir metadata maxSequence s =
     (let path = path_Join [dir, fm_file metadata]
      in case op_Stat F path s of
           (s, Inl err) \<Rightarrow> Some (s, None, Some (ManifestCorrupt (Some (FsFailed err))))
         | (s, Inr info) \<Rightarrow>
             if fi_IsDir info \<or> fi_Size info < 0 then Some (s, None, Some (ManifestCorrupt None))
             else (case op_Open F path s of
                     (s, Inl err) \<Rightarrow> Some (s, None, Some (ManifestCorrupt (Some (FsFailed err))))
                   | (s, Inr file) \<Rightarrow>
                       (let handle = \<lparr>th_metadata = metadata, th_file = file, th_reader = None, th_size = fi_Size info\<rparr>
                        in case OpenSSTable (Some (op_view F file s)) (fi_Size info) of
                             Inl err \<Rightarrow> Some (s, Some handle, Some (ManifestCorrupt (Some (SstFailed err))))
                           | Inr reader \<Rightarrow>
                               (let handle = handle\<lparr>th_reader := Some reader\<rparr>
                                in if EntryCount reader \<noteq> fm_count metadata \<or> sr_minKey reader \<noteq> fm_minKey metadata
                                      \<or> sr_maxKey reader \<noteq> fm_maxKey metadata
                                   then Some (s, Some handle, Some (ManifestCorrupt None))
                                   else (case AllEntries reader of
                                           None \<Rightarrow> None
                                         | Some (Inl err) \<Rightarrow> Some (s, Some handle, Some (ManifestCorrupt (Some (SstFailed err))))
                                         | Some (Inr entries) \<Rightarrow>
                                             if \<exists>entry \<in> set entries. te_Seq entry > maxSequence
                                             then Some (s, Some handle, Some (ManifestCorrupt None))
                                             else Some (s, Some handle, None))))))"

definition openTable :: "('s, 'h) FS \<Rightarrow> fileMetadata \<Rightarrow> u64 \<Rightarrow> 'h Engine \<Rightarrow> 's
    \<Rightarrow> ('h Engine \<times> 's \<times> (lsm_error option + 'h tableHandle)) option" where
  "openTable F metadata maxSequence e s =
     (case openTableOwned F (en_dir e) metadata maxSequence s of
        None \<Rightarrow> None
      | Some (s, Some table, None) \<Rightarrow> Some (e, s, Inr table)
      | Some (s, None, err) \<Rightarrow> Some (e, s, Inl err)
      | Some (s, Some table, Some err) \<Rightarrow>
          (case closeFileRetainingLocked F (Some (th_file table)) e s of
             (e, s, closeErr) \<Rightarrow> Some (e, s, Inl (errors_Join [Some err, closeErr]))))"

text \<open>A read of a table goes through its file handle in the current state.\<close>

definition table_reader :: "('s, 'h) FS \<Rightarrow> 's \<Rightarrow> 'h tableHandle \<Rightarrow> SSTableReader option" where
  "table_reader F s t = map_option (\<lambda>r. r\<lparr>sr_r := op_view F (th_file t) s\<rparr>) (th_reader t)"

section \<open>Compaction\<close>

definition compactionFanIn :: nat where
  "compactionFanIn = 4"

abbreviation table_file_name :: "'h tableHandle \<Rightarrow> string" where
  "table_file_name t \<equiv> fm_file (th_metadata t)"

definition selectCompactionInputs :: "'h tableHandle list \<Rightarrow> (u32 \<times> 'h tableHandle list) option" where
  "selectCompactionInputs tables =
     (let byTier = (\<lambda>tier. filter (\<lambda>t. fm_tier (th_metadata t) = tier) tables);
          tiers = filter (\<lambda>tier. length (byTier tier) \<ge> compactionFanIn) (remdups (map (\<lambda>t. fm_tier (th_metadata t)) tables))
      in if tiers = [] then None
         else let tier = hd (sort tiers)
              in Some (tier, take compactionFanIn (sort_key table_file_name (byTier tier))))"

text \<open>\<open>Write\<close> of an open file, as the target of a table writer.\<close>

definition file_sink :: "('s, 'h) FS \<Rightarrow> 'h \<Rightarrow> bytes \<Rightarrow> 's \<Rightarrow> 's \<times> nat \<times> bool" where
  "file_sink F h b s = (case op_Write F h b s of (s, n, err) \<Rightarrow> (s, n, err \<noteq> None))"

definition buildCompactionOutputLocked :: "('s, 'h) FS \<Rightarrow> u32 \<Rightarrow> 'h tableHandle list \<Rightarrow> 'h Engine \<Rightarrow> 's
    \<Rightarrow> ('h Engine \<times> 's \<times> (lsm_error option + 'h tableHandle)) option" where
  "buildCompactionOutputLocked F tier inputs e s =
     (case allocateFilenameLocked e of
        (e, Inl err) \<Rightarrow> Some (e, s, Inl (Some err))
      | (e, Inr filename) \<Rightarrow>
          (let path = path_Join [en_dir e, filename];
               discard = (\<lambda>file cause e s. case discardCompactionOutputLocked F path file (Some cause) e s of (e, s, err) \<Rightarrow> Some (e, s, Inl err))
           in case op_Create F path s of
                (s, Inl err) \<Rightarrow> discard None (FsFailed err) e s
              | (s, Inr file) \<Rightarrow>
             (case newKWayMergeIterator iterator_Next (map (\<lambda>t. Some (newSSTableEntryIterator (table_reader F s t))) inputs) of
                None \<Rightarrow> None
              | Some (Inl err) \<Rightarrow> discard (Some file) (SstFailed err) e s
              | Some (Inr merge) \<Rightarrow>
             (case fill_output iterator_Next merge [] [] 0 (NewSSTableWriter (Some s)) of
                None \<Rightarrow> None
              | Some (Inl err) \<Rightarrow> discard (Some file) (SstFailed err) e s
              | Some (Inr (firstKey, lastKey, cnt, writer)) \<Rightarrow>
                  if cnt = 0 then discard (Some file) EmptyCompaction e s
                  else (case Finish (file_sink F file) writer of
                          None \<Rightarrow> None
                        | Some (writer, ferr) \<Rightarrow>
                            (let s = the (sw_w writer)
                             in case ferr of
                                  Some err \<Rightarrow> discard (Some file) (SstFailed err) e s
                                | None \<Rightarrow>
                               (case op_Sync F file s of
                                  (s, Some err) \<Rightarrow> discard (Some file) (FsFailed err) e s
                                | (s, None) \<Rightarrow>
                               (case op_Close F file s of
                                  (s, Some err) \<Rightarrow> discard (Some file) (FsFailed err) e s
                                | (s, None) \<Rightarrow>
                               (case op_SyncDir F (en_dir e) s of
                                  (s, Some err) \<Rightarrow> discard None (FsFailed err) e s
                                | (s, None) \<Rightarrow>
                                    (let metadata = \<lparr>fm_tier = tier, fm_file = filename, fm_minKey = firstKey, fm_maxKey = lastKey, fm_count = cnt\<rparr>
                                     in case openTableOwned F (en_dir e) metadata (ms_flushedIndex (en_manifest e)) s of
                                          None \<Rightarrow> None
                                        | Some (s, table, Some err) \<Rightarrow> discard (map_option th_file table) err e s
                                        | Some (s, table, None) \<Rightarrow> Some (e, s, Inr (the table))))))))))))"

definition commitCompactionLocked :: "('s, 'h) FS \<Rightarrow> (VersionEdit \<Rightarrow> bytes option) \<Rightarrow> VersionEdit \<Rightarrow> 'h tableHandle \<Rightarrow> 'h tableHandle list
    \<Rightarrow> 'h Engine \<Rightarrow> 's \<Rightarrow> 'h Engine \<times> 's \<times> lsm_error option" where
  "commitCompactionLocked F marshal edit output selected e s =
     (let path = path_Join [en_dir e, table_file_name output]
      in case manifest_apply (Some edit) (en_manifest e) of
           Inl err \<Rightarrow> discardCompactionOutputLocked F path (Some (th_file output)) (Some (InvalidEdit err)) e s
         | Inr nxt \<Rightarrow>
             (case appendManifestEdit F marshal (en_dir e) edit s of
                (s, committed, unresolved, appendErr) \<Rightarrow>
                  (let e = (case unresolved of None \<Rightarrow> e | Some h \<Rightarrow> e\<lparr>en_unresolved := en_unresolved e @ [h]\<rparr>)
                   in if \<not> committed
                      then (if (case appendErr of None \<Rightarrow> False | Some err \<Rightarrow> isUncertainManifestAppend err)
                            then (case op_Close F (th_file output) s of
                                    (s, closeErr) \<Rightarrow>
                                      (let e = poisonLocked (the appendErr) e;
                                           e = (if still_open closeErr then e\<lparr>en_unresolved := en_unresolved e @ [th_file output]\<rparr> else e)
                                       in (e, s, errors_Join [appendErr, fs_err closeErr])))
                            else discardCompactionOutputLocked F path (Some (th_file output)) appendErr e s)
                      else (let published = sort_key table_file_name (filter (\<lambda>t. t \<notin> set selected) (en_tables e) @ [output]);
                                obsoleteInputs = sort_key table_file_name (remdups selected);
                                e = e\<lparr>en_manifest := nxt, en_tables := published,
                                      en_obsolete := en_obsolete e @ map (\<lambda>t. \<lparr>ob_path = path_Join [en_dir e, table_file_name t], ob_file = Some (th_file t)\<rparr>) obsoleteInputs,
                                      en_completedCompactions := en_completedCompactions e + 1\<rparr>
                            in case reconcileObsoleteLocked F e s of (e, s, cleanupErr) \<Rightarrow> (e, s, errors_Join [appendErr, cleanupErr])))))"

definition compactInputsLocked :: "('s, 'h) FS \<Rightarrow> (VersionEdit \<Rightarrow> bytes option) \<Rightarrow> u32 \<Rightarrow> 'h tableHandle list \<Rightarrow> 'h Engine \<Rightarrow> 's
    \<Rightarrow> ('h Engine \<times> 's \<times> lsm_error option) option" where
  "compactInputsLocked F marshal tier inputs e s =
     (if length inputs \<noteq> compactionFanIn then Some (e, s, Some WrongInputCount)
      else let inputs = sort_key table_file_name inputs
           in if \<exists>t \<in> set inputs. fm_tier (th_metadata t) \<noteq> tier then Some (e, s, Some TierMismatch)
              else if \<not> distinct inputs then Some (e, s, Some DuplicateInput)
              else if \<exists>t \<in> set inputs. t \<notin> set (en_tables e) then Some (e, s, Some InputNotPublished)
              else (case buildCompactionOutputLocked F (tier + 1) inputs e s of
                      None \<Rightarrow> None
                    | Some (e, s, Inl err) \<Rightarrow> Some (e, s, err)
                    | Some (e, s, Inr output) \<Rightarrow>
                        (let edit = \<lparr>ve_AddedFiles = [Some (metadata_proto (th_metadata output))],
                               ve_RemovedFiles = map table_file_name inputs, ve_FlushedIndex = ms_flushedIndex (en_manifest e)\<rparr>
                         in Some (commitCompactionLocked F marshal edit output inputs e s))))"

partial_function (option) compact_loop :: "('s, 'h) FS \<Rightarrow> (VersionEdit \<Rightarrow> bytes option) \<Rightarrow> 'h Engine \<Rightarrow> 's
    \<Rightarrow> ('h Engine \<times> 's \<times> lsm_error option) option" where
  "compact_loop F marshal e s =
     (case selectCompactionInputs (en_tables e) of
        None \<Rightarrow> Some (e, s, None)
      | Some (tier, inputs) \<Rightarrow>
          if tier = - 1 then Some (e, s, Some CompactionTierExhausted)
          else (case compactInputsLocked F marshal tier inputs e s of
                  None \<Rightarrow> None
                | Some (e, s, Some err) \<Rightarrow> Some (e, s, Some err)
                | Some (e, s, None) \<Rightarrow> compact_loop F marshal e s))"

definition compactAllLocked :: "('s, 'h) FS \<Rightarrow> (VersionEdit \<Rightarrow> bytes option) \<Rightarrow> 'h Engine \<Rightarrow> 's
    \<Rightarrow> ('h Engine \<times> 's \<times> lsm_error option) option" where
  "compactAllLocked F marshal e s =
     (case reconcileObsoleteLocked F e s of
        (e, s, Some err) \<Rightarrow> Some (e, s, Some err)
      | (e, s, None) \<Rightarrow> compact_loop F marshal e s)"

definition compact :: "('s, 'h) FS \<Rightarrow> (VersionEdit \<Rightarrow> bytes option) \<Rightarrow> 'h Engine \<Rightarrow> 's
    \<Rightarrow> ('h Engine \<times> 's \<times> lsm_error option) option" where
  "compact F marshal e s =
     (case checkOpenLocked e of Some err \<Rightarrow> Some (e, s, Some err) | None \<Rightarrow> compactAllLocked F marshal e s)"

section \<open>Flushing\<close>

text \<open>The result of a commit: whether the edit is durable, and the error.\<close>

definition commitEditLocked :: "('s, 'h) FS \<Rightarrow> (VersionEdit \<Rightarrow> bytes option) \<Rightarrow> VersionEdit \<Rightarrow> 'h tableHandle option \<Rightarrow> 'h Engine \<Rightarrow> 's
    \<Rightarrow> 'h Engine \<times> 's \<times> bool \<times> lsm_error option" where
  "commitEditLocked F marshal edit table e s =
     (case manifest_apply (Some edit) (en_manifest e) of
        Inl err \<Rightarrow>
          (case closeFileRetainingLocked F (map_option th_file table) e s of
             (e, s, closeErr) \<Rightarrow> (e, s, False, errors_Join [Some (InvalidEdit err), closeErr]))
      | Inr nxt \<Rightarrow>
          (case appendManifestEdit F marshal (en_dir e) edit s of
             (s, committed, unresolved, appendErr) \<Rightarrow>
               (let e = (case unresolved of None \<Rightarrow> e | Some h \<Rightarrow> e\<lparr>en_unresolved := en_unresolved e @ [h]\<rparr>)
                in if \<not> committed
                   then (let e = (if (case appendErr of None \<Rightarrow> False | Some err \<Rightarrow> isUncertainManifestAppend err)
                                  then poisonLocked (the appendErr) e else e)
                         in case table of
                              None \<Rightarrow> (e, s, False, appendErr)
                            | Some t \<Rightarrow>
                                (case closeFileRetainingLocked F (Some (th_file t)) e s of
                                   (e, s, closeErr) \<Rightarrow> (e, s, False, errors_Join [appendErr, closeErr])))
                   else (let e = e\<lparr>en_manifest := nxt\<rparr>;
                             e = (case table of None \<Rightarrow> e | Some t \<Rightarrow> e\<lparr>en_tables := en_tables e @ [t]\<rparr>)
                         in (e, s, True, appendErr)))))"

text \<open>One call of the function that \<open>flushOldestLocked\<close> passes to \<open>forEach\<close>.\<close>

definition flush_entry :: "bytes \<Rightarrow> bytes \<Rightarrow> bool \<Rightarrow> u64 \<Rightarrow> bytes \<times> bytes \<times> u64 \<times> 'f SSTableWriter \<times> sst_error option
    \<Rightarrow> (bytes \<times> bytes \<times> u64 \<times> 'f SSTableWriter \<times> sst_error option) \<times> bool" where
  "flush_entry key v tombstone seq st =
     (case st of
        (firstKey, lastKey, cnt, writer, addErr) \<Rightarrow>
          (let firstKey = (if cnt = 0 then cloneBytes key else firstKey);
               lastKey = cloneBytes key
           in case writer_Add \<lparr>te_Key = key, te_Seq = seq, te_Value = v, te_Tombstone = tombstone\<rparr> writer of
                Inl err \<Rightarrow> ((firstKey, lastKey, cnt + 1, writer, Some err), False)
              | Inr writer \<Rightarrow> ((firstKey, lastKey, cnt + 1, writer, None), True)))"

definition flushOldestLocked :: "('s, 'h) FS \<Rightarrow> (VersionEdit \<Rightarrow> bytes option) \<Rightarrow> 'h Engine \<Rightarrow> 's
    \<Rightarrow> ('h Engine \<times> 's \<times> lsm_error option) option" where
  "flushOldestLocked F marshal e s =
     (let immutable = hd (en_immutables e)
      in if im_count immutable = 0 then Some (e, s, Some EmptyImmutable)
         else if im_maxSeq immutable > im_watermark immutable then Some (e, s, Some MaxSeqBeyondWatermark)
         else (case allocateFilenameLocked e of
                 (e, Inl err) \<Rightarrow> Some (e, s, Some err)
               | (e, Inr filename) \<Rightarrow>
              (case op_Create F (path_Join [en_dir e, filename]) s of
                 (s, Inl err) \<Rightarrow> Some (e, s, Some (FsFailed err))
               | (s, Inr file) \<Rightarrow>
              (let fail = (\<lambda>cause e s. case closeFileRetainingLocked F (Some file) e s of (e, s, closeErr) \<Rightarrow> Some (e, s, errors_Join [Some cause, closeErr]))
               in case forEach flush_entry (im_list immutable) ([], [], 0, NewSSTableWriter (Some s), None) of
                    None \<Rightarrow> None
                  | Some (firstKey, lastKey, cnt, writer, Some err) \<Rightarrow> fail (SstFailed err) e s
                  | Some (firstKey, lastKey, cnt, writer, None) \<Rightarrow>
                 (case Finish (file_sink F file) writer of
                    None \<Rightarrow> None
                  | Some (writer, ferr) \<Rightarrow>
                      (let s = the (sw_w writer)
                       in case ferr of
                            Some err \<Rightarrow> fail (SstFailed err) e s
                          | None \<Rightarrow>
                         (case op_Sync F file s of
                            (s, Some err) \<Rightarrow> fail (FsFailed err) e s
                          | (s, None) \<Rightarrow>
                         (case closeFileRetainingLocked F (Some file) e s of
                            (e, s, Some err) \<Rightarrow> Some (e, s, Some err)
                          | (e, s, None) \<Rightarrow>
                         (case op_SyncDir F (en_dir e) s of
                            (s, Some err) \<Rightarrow> Some (e, s, Some (FsFailed err))
                          | (s, None) \<Rightarrow>
                         (case tableSizeClass (int (sw_size writer)) of
                            None \<Rightarrow> None
                          | Some tier \<Rightarrow>
                              (let metadata = \<lparr>fm_tier = tier, fm_file = filename, fm_minKey = firstKey, fm_maxKey = lastKey, fm_count = cnt\<rparr>
                               in case openTable F metadata (im_watermark immutable) e s of
                                    None \<Rightarrow> None
                                  | Some (e, s, Inl err) \<Rightarrow> Some (e, s, err)
                                  | Some (e, s, Inr table) \<Rightarrow>
                                      (let edit = \<lparr>ve_AddedFiles = [Some (metadata_proto metadata)], ve_RemovedFiles = [],
                                             ve_FlushedIndex = im_watermark immutable\<rparr>
                                       in case commitEditLocked F marshal edit (Some table) e s of
                                            (e, s, committed, err) \<Rightarrow>
                                              if \<not> committed then Some (e, s, err)
                                              else (let e = e\<lparr>en_completedFlushes := en_completedFlushes e + 1, en_immutables := tl (en_immutables e)\<rparr>
                                                    in if err = None \<and> \<not> en_disableAutoCompaction e then compactAllLocked F marshal e s
                                                       else Some (e, s, err))))))))))))))"

definition freezeLocked :: "u64 \<Rightarrow> 'h Engine \<Rightarrow> 'h Engine" where
  "freezeLocked watermark e =
     e\<lparr>en_immutables := en_immutables e @ [\<lparr>im_list = en_list e, im_count = en_activeCount e, im_maxSeq = en_activeMaxSeq e, im_watermark = watermark\<rparr>],
       en_list := newSkipList (sl_draws (en_list e)), en_activeSize := 0, en_activeCount := 0, en_activeMaxSeq := 0\<rparr>"

partial_function (option) flush_immutables :: "('s, 'h) FS \<Rightarrow> (VersionEdit \<Rightarrow> bytes option) \<Rightarrow> 'h Engine \<Rightarrow> 's
    \<Rightarrow> ('h Engine \<times> 's \<times> lsm_error option) option" where
  "flush_immutables F marshal e s =
     (if en_immutables e = [] then Some (e, s, None)
      else (case flushOldestLocked F marshal e s of
              None \<Rightarrow> None
            | Some (e, s, Some err) \<Rightarrow> Some (e, s, Some err)
            | Some (e, s, None) \<Rightarrow> flush_immutables F marshal e s))"

definition flushThroughLocked :: "('s, 'h) FS \<Rightarrow> (VersionEdit \<Rightarrow> bytes option) \<Rightarrow> u64 \<Rightarrow> 'h Engine \<Rightarrow> 's
    \<Rightarrow> ('h Engine \<times> 's \<times> lsm_error option) option" where
  "flushThroughLocked F marshal index e s =
     (let flushed = ms_flushedIndex (en_manifest e)
      in if \<not> en_fs e
         then Some (e, s, if en_activeCount e = 0 \<and> en_immutables e = [] \<and> index = flushed then None else Some NoFilesystem)
         else if index < flushed then Some (e, s, Some (FlushRegresses flushed index))
         else if index > en_appliedIndex e \<and> index > flushed then Some (e, s, Some (FlushUnapplied index (en_appliedIndex e)))
         else if en_activeMaxSeq e > index then Some (e, s, Some ActiveBeyondTarget)
         else if \<exists>immutable \<in> set (en_immutables e). im_watermark immutable > index then Some (e, s, Some ImmutableBeyondTarget)
         else let e = (if en_activeCount e \<noteq> 0 then freezeLocked index e else e)
              in case flush_immutables F marshal e s of
                   None \<Rightarrow> None
                 | Some (e, s, Some err) \<Rightarrow> Some (e, s, Some err)
                 | Some (e, s, None) \<Rightarrow>
                     if index > ms_flushedIndex (en_manifest e)
                     then (case commitEditLocked F marshal \<lparr>ve_AddedFiles = [], ve_RemovedFiles = [], ve_FlushedIndex = index\<rparr> None e s of
                             (e, s, committed, err) \<Rightarrow> Some (e, s, err))
                     else Some (e, s, None))"

definition FlushThrough :: "('s, 'h) FS \<Rightarrow> (VersionEdit \<Rightarrow> bytes option) \<Rightarrow> u64 \<Rightarrow> 'h Engine \<Rightarrow> 's
    \<Rightarrow> ('h Engine \<times> 's \<times> lsm_error option) option" where
  "FlushThrough F marshal index e s =
     (case checkOpenLocked e of Some err \<Rightarrow> Some (e, s, Some err) | None \<Rightarrow> flushThroughLocked F marshal index e s)"

definition ForceFlush :: "('s, 'h) FS \<Rightarrow> (VersionEdit \<Rightarrow> bytes option) \<Rightarrow> 'h Engine \<Rightarrow> 's
    \<Rightarrow> ('h Engine \<times> 's \<times> lsm_error option) option" where
  "ForceFlush F marshal e s =
     (case checkOpenLocked e of Some err \<Rightarrow> Some (e, s, Some err) | None \<Rightarrow> flushThroughLocked F marshal (en_appliedIndex e) e s)"

section \<open>Writes\<close>

definition advanceAppliedForWriteLocked :: "u64 \<Rightarrow> 'h Engine \<Rightarrow> 'h Engine" where
  "advanceAppliedForWriteLocked seq e = (if seq > en_appliedIndex e then e\<lparr>en_appliedIndex := seq\<rparr> else e)"

definition memtableEntrySize :: "bytes \<Rightarrow> bytes \<Rightarrow> bool \<Rightarrow> int" where
  "memtableEntrySize key v tombstone =
     (let n = of_nat (length key) + 8 + 1 :: u64;
          n = (if \<not> tombstone then n + of_nat (length v) else n)
      in if unat n > max_int then int max_int else int (unat n))"

definition putActiveLocked :: "bytes \<Rightarrow> bytes \<Rightarrow> bool \<Rightarrow> u64 \<Rightarrow> 'h Engine \<Rightarrow> ('h Engine \<times> bool) option" where
  "putActiveLocked key v tombstone seq e =
     (case sl_get key (en_list e) of
        None \<Rightarrow> None
      | Some found \<Rightarrow>
          if (case found of Some (oldValue, oldTombstone, oldSeq) \<Rightarrow> seq \<le> oldSeq | None \<Rightarrow> False) then Some (e, False)
          else let e = (case found of
                          Some (oldValue, oldTombstone, oldSeq) \<Rightarrow> e\<lparr>en_activeSize := en_activeSize e - memtableEntrySize key oldValue oldTombstone\<rparr>
                        | None \<Rightarrow> e\<lparr>en_activeCount := en_activeCount e + 1\<rparr>)
               in case sl_put (en_rnd e) (cloneBytes key) (cloneBytes v) tombstone seq (en_list e) of
                    None \<Rightarrow> None
                  | Some (l, False) \<Rightarrow> None
                  | Some (l, True) \<Rightarrow>
                      (let e = e\<lparr>en_list := l, en_activeSize := en_activeSize e + memtableEntrySize key v tombstone\<rparr>
                       in Some (if seq > en_activeMaxSeq e then e\<lparr>en_activeMaxSeq := seq\<rparr> else e, True)))"

definition shouldFlushLocked :: "'h Engine \<Rightarrow> bool" where
  "shouldFlushLocked e \<longleftrightarrow> en_fs e \<and> en_flushThreshold e > 0 \<and> en_activeSize e \<ge> en_flushThreshold e"

definition automaticFlushTargetLocked :: "'h Engine \<Rightarrow> u64" where
  "automaticFlushTargetLocked e = max (en_appliedIndex e) (ms_flushedIndex (en_manifest e))"

text \<open>The common body of \<open>putLocked\<close> and \<open>deleteLocked\<close>.\<close>

definition write_locked :: "('s, 'h) FS \<Rightarrow> (VersionEdit \<Rightarrow> bytes option) \<Rightarrow> bytes \<Rightarrow> bytes \<Rightarrow> bool \<Rightarrow> u64 \<Rightarrow> 'h Engine \<Rightarrow> 's
    \<Rightarrow> ('h Engine \<times> 's \<times> lsm_error option) option" where
  "write_locked F marshal key v tombstone seq e s =
     (case checkOpenLocked e of
        Some err \<Rightarrow> Some (e, s, Some err)
      | None \<Rightarrow>
          (let e = advanceAppliedForWriteLocked seq e
           in case putActiveLocked key v tombstone seq e of
                None \<Rightarrow> None
              | Some (e, accepted) \<Rightarrow>
                  if accepted \<and> shouldFlushLocked e then flushThroughLocked F marshal (automaticFlushTargetLocked e) e s
                  else Some (e, s, None)))"

definition putLocked :: "('s, 'h) FS \<Rightarrow> (VersionEdit \<Rightarrow> bytes option) \<Rightarrow> bytes \<Rightarrow> bytes \<Rightarrow> u64 \<Rightarrow> 'h Engine \<Rightarrow> 's
    \<Rightarrow> ('h Engine \<times> 's \<times> lsm_error option) option" where
  "putLocked F marshal key v seq e s = write_locked F marshal key v False seq e s"

definition deleteLocked :: "('s, 'h) FS \<Rightarrow> (VersionEdit \<Rightarrow> bytes option) \<Rightarrow> bytes \<Rightarrow> u64 \<Rightarrow> 'h Engine \<Rightarrow> 's
    \<Rightarrow> ('h Engine \<times> 's \<times> lsm_error option) option" where
  "deleteLocked F marshal key seq e s = write_locked F marshal key [] True seq e s"

definition advanceAppliedIndexLocked :: "u64 \<Rightarrow> 'h Engine \<Rightarrow> 'h Engine \<times> lsm_error option" where
  "advanceAppliedIndexLocked index e =
     (case checkOpenLocked e of
        Some err \<Rightarrow> (e, Some err)
      | None \<Rightarrow>
          if index < en_appliedIndex e then (e, Some (AppliedRegresses (en_appliedIndex e) index))
          else (e\<lparr>en_appliedIndex := index\<rparr>, None))"

definition Put :: "('s, 'h) FS \<Rightarrow> (VersionEdit \<Rightarrow> bytes option) \<Rightarrow> bytes \<Rightarrow> bytes \<Rightarrow> u64 \<Rightarrow> 'h Engine \<Rightarrow> 's
    \<Rightarrow> ('h Engine \<times> 's \<times> lsm_error option) option" where
  "Put F marshal key v seq e s = putLocked F marshal key v seq e s"

definition Delete :: "('s, 'h) FS \<Rightarrow> (VersionEdit \<Rightarrow> bytes option) \<Rightarrow> bytes \<Rightarrow> u64 \<Rightarrow> 'h Engine \<Rightarrow> 's
    \<Rightarrow> ('h Engine \<times> 's \<times> lsm_error option) option" where
  "Delete F marshal key seq e s = deleteLocked F marshal key seq e s"

definition AdvanceAppliedIndex :: "u64 \<Rightarrow> 'h Engine \<Rightarrow> 'h Engine \<times> lsm_error option" where
  "AdvanceAppliedIndex index e = advanceAppliedIndexLocked index e"

definition engine_AppliedIndex :: "'h Engine \<Rightarrow> u64" where
  "engine_AppliedIndex e = en_appliedIndex e"

definition FlushedIndex :: "'h Engine \<Rightarrow> u64" where
  "FlushedIndex e = ms_flushedIndex (en_manifest e)"

section \<open>Reads\<close>

text \<open>A version of a key: its value, whether it is a tombstone, and its sequence number.\<close>

type_synonym version = "bytes \<times> bool \<times> u64"

definition consider_version :: "version option \<Rightarrow> version option \<Rightarrow> lsm_error + version option" where
  "consider_version cand best =
     (case cand of
        None \<Rightarrow> Inr best
      | Some (candidateValue, candidateTombstone, candidateSeq) \<Rightarrow>
          (case best of
             None \<Rightarrow> Inr cand
           | Some (value, tombstone, seq) \<Rightarrow>
               if candidateSeq > seq then Inr cand
               else if candidateSeq = seq \<and> (candidateTombstone \<noteq> tombstone \<or> candidateValue \<noteq> value) then Inl (VersionConflict seq)
               else Inr best))"

fun lookup_memtables :: "bytes \<Rightarrow> skipList list \<Rightarrow> version option \<Rightarrow> (lsm_error + version option) option" where
  "lookup_memtables key [] best = Some (Inr best)"
| "lookup_memtables key (l # ls) best =
     (case sl_get key l of
        None \<Rightarrow> None
      | Some cand \<Rightarrow> (case consider_version cand best of Inl err \<Rightarrow> Some (Inl err) | Inr best \<Rightarrow> lookup_memtables key ls best))"

fun lookup_tables :: "('s, 'h) FS \<Rightarrow> 's \<Rightarrow> bool \<Rightarrow> bytes \<Rightarrow> 'h tableHandle list \<Rightarrow> version option \<Rightarrow> (lsm_error + version option) option" where
  "lookup_tables F s bloom key [] best = Some (Inr best)"
| "lookup_tables F s bloom key (t # ts) best =
     (case table_reader F s t of
        None \<Rightarrow> None
      | Some reader \<Rightarrow>
          (case reader_get reader key bloom of
             None \<Rightarrow> None
           | Some (Inl err) \<Rightarrow> Some (Inl (SstFailed err))
           | Some (Inr cand) \<Rightarrow>
               (case consider_version (map_option (\<lambda>c. (te_Value c, te_Tombstone c, te_Seq c)) cand) best of
                  Inl err \<Rightarrow> Some (Inl err) | Inr best \<Rightarrow> lookup_tables F s bloom key ts best)))"

definition lookupLocked :: "('s, 'h) FS \<Rightarrow> bytes \<Rightarrow> 'h Engine \<Rightarrow> 's \<Rightarrow> (lsm_error + version option) option" where
  "lookupLocked F key e s =
     (if en_closed e then Some (Inl EngineClosed)
      else case lookup_memtables key (en_list e # map im_list (en_immutables e)) None of
             None \<Rightarrow> None
           | Some (Inl err) \<Rightarrow> Some (Inl err)
           | Some (Inr best) \<Rightarrow> lookup_tables F s (en_readWithBloom e) key (en_tables e) best)"

definition Lookup :: "('s, 'h) FS \<Rightarrow> bytes \<Rightarrow> 'h Engine \<Rightarrow> 's \<Rightarrow> (lsm_error + version option) option" where
  "Lookup F key e s = lookupLocked F key e s"

definition readLocked :: "('s, 'h) FS \<Rightarrow> bytes \<Rightarrow> 'h Engine \<Rightarrow> 's \<Rightarrow> (lsm_error + bytes option) option" where
  "readLocked F key e s =
     (case lookupLocked F key e s of
        None \<Rightarrow> None
      | Some (Inl err) \<Rightarrow> Some (Inl err)
      | Some (Inr None) \<Rightarrow> Some (Inr None)
      | Some (Inr (Some (v, tombstone, seq))) \<Rightarrow> Some (Inr (if tombstone then None else Some v)))"

definition engine_Read :: "('s, 'h) FS \<Rightarrow> bytes \<Rightarrow> 'h Engine \<Rightarrow> 's \<Rightarrow> (lsm_error + bytes option) option" where
  "engine_Read F key e s = readLocked F key e s"

definition engine_Get :: "('s, 'h) FS \<Rightarrow> bytes \<Rightarrow> 'h Engine \<Rightarrow> 's \<Rightarrow> version option option" where
  "engine_Get F key e s =
     (case Lookup F key e s of None \<Rightarrow> None | Some (Inl err) \<Rightarrow> Some None | Some (Inr v) \<Rightarrow> Some v)"

definition Entries :: "'h Engine \<Rightarrow> TableEntry list option" where
  "Entries e = forEach (\<lambda>key v tombstone seq out.
     (out @ [\<lparr>te_Key = cloneBytes key, te_Seq = seq, te_Value = cloneBytes v, te_Tombstone = tombstone\<rparr>], True)) (en_list e) []"

definition PendingImmutables :: "'h Engine \<Rightarrow> nat" where
  "PendingImmutables e = length (en_immutables e)"

definition ReferencedSSTables :: "'h Engine \<Rightarrow> string list" where
  "ReferencedSSTables e = map fm_file (sortedManifestFiles (ms_files (en_manifest e)))"

section \<open>Opening and closing\<close>

record Options =
  op_Rand :: "Lsm_Skiplist.Rand option"
  op_FlushThreshold :: int
  op_SkipBloom :: bool
  op_DisableAutoCompaction :: bool

fun open_tables :: "('s, 'h) FS \<Rightarrow> fileMetadata list \<Rightarrow> 'h Engine \<Rightarrow> 's \<Rightarrow> ('h Engine \<times> 's \<times> lsm_error option) option" where
  "open_tables F [] e s = Some (e, s, None)"
| "open_tables F (m # ms) e s =
     (case openTable F m (ms_flushedIndex (en_manifest e)) e s of
        None \<Rightarrow> None
      | Some (e, s, Inl err) \<Rightarrow> Some (e, s, err)
      | Some (e, s, Inr table) \<Rightarrow> open_tables F ms (e\<lparr>en_tables := en_tables e @ [table]\<rparr>) s)"

definition openReferencedTables :: "('s, 'h) FS \<Rightarrow> 'h Engine \<Rightarrow> 's \<Rightarrow> ('h Engine \<times> 's \<times> lsm_error option) option" where
  "openReferencedTables F e s = open_tables F (sortedManifestFiles (ms_files (en_manifest e))) e s"

fun sync_tables :: "('s, 'h) FS \<Rightarrow> 'h tableHandle list \<Rightarrow> 's \<Rightarrow> 's \<times> lsm_error option" where
  "sync_tables F [] s = (s, None)"
| "sync_tables F (t # ts) s =
     (case op_Sync F (th_file t) s of (s, Some err) \<Rightarrow> (s, Some (FsFailed err)) | (s, None) \<Rightarrow> sync_tables F ts s)"

definition syncRecoveredVersion :: "('s, 'h) FS \<Rightarrow> 'h Engine \<Rightarrow> 's \<Rightarrow> 's \<times> lsm_error option" where
  "syncRecoveredVersion F e s =
     (case sync_tables F (en_tables e) s of
        (s, Some err) \<Rightarrow> (s, Some err)
      | (s, None) \<Rightarrow>
     (case op_SyncDir F (en_dir e) s of
        (s, Some err) \<Rightarrow> (s, Some (FsFailed err))
      | (s, None) \<Rightarrow> syncManifest F (path_Join [en_dir e, manifestFilename]) s))"

fun remove_names :: "('s, 'h) FS \<Rightarrow> 'h Engine \<Rightarrow> string list \<Rightarrow> bool \<Rightarrow> 's \<Rightarrow> 's \<times> (lsm_error + bool)" where
  "remove_names F e [] removed s = (s, Inr removed)"
| "remove_names F e (name # names) removed s =
     (if \<not> HasSuffix name sstableFilenameSuffix \<or> map_of (ms_files (en_manifest e)) name \<noteq> None then remove_names F e names removed s
      else let path = path_Join [en_dir e, name]
           in case op_Stat F path s of
                (s, Inl err) \<Rightarrow> (s, Inl (FsFailed err))
              | (s, Inr info) \<Rightarrow>
                  if fi_IsDir info then remove_names F e names removed s
                  else (case op_Remove F path s of
                          (s, Some err) \<Rightarrow> (s, Inl (FsFailed err))
                        | (s, None) \<Rightarrow> remove_names F e names True s))"

definition removeOrphans :: "('s, 'h) FS \<Rightarrow> 'h Engine \<Rightarrow> 's \<Rightarrow> 's \<times> lsm_error option" where
  "removeOrphans F e s =
     (case op_List F (en_dir e) s of
        (s, Inl err) \<Rightarrow> (s, Some (FsFailed err))
      | (s, Inr names) \<Rightarrow>
          (case remove_names F e names False s of
             (s, Inl err) \<Rightarrow> (s, Some err)
           | (s, Inr removed) \<Rightarrow>
               if removed then (case op_SyncDir F (en_dir e) s of (s, err) \<Rightarrow> (s, fs_err err)) else (s, None)))"

definition open_failed :: "('s, 'h) FS \<Rightarrow> lsm_error option \<Rightarrow> 'h Engine \<Rightarrow> 's \<Rightarrow> 's \<times> lsm_error option" where
  "open_failed F err e s =
     (case closeTables F e s of
        (e, s, tablesErr) \<Rightarrow>
          (case closeUnresolvedLocked F e s of (e, s, unresolvedErr) \<Rightarrow> (s, errors_Join [err, tablesErr, unresolvedErr])))"

text \<open>The file system \<open>F\<close> stands for \<open>options.FS\<close>. The left result is the error of a failed open.\<close>

definition lsm_Open :: "('s, 'h) FS \<Rightarrow> (bytes \<Rightarrow> VersionEdit option) \<Rightarrow> string \<Rightarrow> Options \<Rightarrow> 's
    \<Rightarrow> ('s \<times> (lsm_error option + 'h Engine)) option" where
  "lsm_Open F unmarshal dir options s =
     (case op_Rand options of
        None \<Rightarrow> Some (s, Inl (Some NilRand))
      | Some rnd \<Rightarrow>
          (let threshold = (if op_FlushThreshold options = 0 then DefaultFlushThreshold else op_FlushThreshold options)
           in if threshold < 0 then Some (s, Inl (Some NegativeThreshold))
              else (case loadManifest F unmarshal dir s of
                      (s, Inl err) \<Rightarrow> Some (s, Inl (Some err))
                    | (s, Inr state) \<Rightarrow>
                        (let e = \<lparr>en_rnd = rnd, en_list = newSkipList 0, en_activeSize = 0, en_activeCount = 0, en_activeMaxSeq = 0,
                               en_immutables = [], en_flushThreshold = threshold, en_appliedIndex = 0, en_manifest = state, en_tables = [],
                               en_nextFileNumber = 1, en_fs = True, en_dir = dir, en_poisoned = None, en_unresolved = [], en_obsolete = [],
                               en_obsoleteDirDirty = False, en_disableAutoCompaction = op_DisableAutoCompaction options,
                               en_readWithBloom = \<not> op_SkipBloom options, en_completedFlushes = 0, en_completedCompactions = 0, en_closed = False\<rparr>
                         in case openReferencedTables F e s of
                              None \<Rightarrow> None
                            | Some (e, s, Some err) \<Rightarrow> (case open_failed F (Some err) e s of (s, err) \<Rightarrow> Some (s, Inl err))
                            | Some (e, s, None) \<Rightarrow>
                                (case syncRecoveredVersion F e s of
                                   (s, Some err) \<Rightarrow> (case open_failed F (Some err) e s of (s, err) \<Rightarrow> Some (s, Inl err))
                                 | (s, None) \<Rightarrow>
                                (case removeOrphans F e s of
                                   (s, Some err) \<Rightarrow> (case open_failed F (Some err) e s of (s, err) \<Rightarrow> Some (s, Inl err))
                                 | (s, None) \<Rightarrow> Some (s, Inr (e\<lparr>en_nextFileNumber := nextFileNumber (ms_files state)\<rparr>))))))))"

definition engine_Close :: "('s, 'h) FS \<Rightarrow> 'h Engine \<Rightarrow> 's \<Rightarrow> 'h Engine \<times> 's \<times> lsm_error option" where
  "engine_Close F e s =
     (case reconcileObsoleteLocked F (e\<lparr>en_closed := True\<rparr>) s of
        (e, s, cleanupErr) \<Rightarrow>
     (case closeUnresolvedLocked F e s of
        (e, s, unresolvedErr) \<Rightarrow>
     (case closeTables F e s of
        (e, s, tablesErr) \<Rightarrow> (e, s, errors_Join [cleanupErr, unresolvedErr, tablesErr]))))"

definition Abandon :: "'h Engine \<Rightarrow> 'h Engine" where
  "Abandon e = e\<lparr>en_closed := True\<rparr>"

definition SnapshotBenchmarkCounters :: "'h Engine \<Rightarrow> u64 \<times> u64" where
  "SnapshotBenchmarkCounters e = (en_completedFlushes e, en_completedCompactions e)"

end
