(* ===== verification/Lsm_Fallible.thy ===== *)
theory Lsm_Fallible
  imports Lsm_Fs Lsm_Merge
begin

text \<open>
  Reads of tables through a file that may fail: every reading routine of \<open>sstable.go\<close> and
  \<open>compaction.go\<close> either reports an error or gives what it gives on the bytes of the file. Reads
  never return wrong data.
\<close>

section \<open>Blocks and tables\<close>

lemma readAtFull_or_fails:
  "reads_or_fails r c \<Longrightarrow> readAtFull r n offset = None \<or> readAtFull r n offset = readAtFull (file_ReadAt c) n offset"
  by (simp add: reads_or_fails_def)

lemma readAtFull_Some: "reads_or_fails r c \<Longrightarrow> readAtFull r n offset = Some d \<Longrightarrow> readAtFull (file_ReadAt c) n offset = Some d"
  using readAtFull_or_fails [of r c n offset] by auto

lemma readBlock_or_fails:
  assumes "reads_or_fails r c"
  shows "(\<exists>err. readBlock r offset len = Inl err) \<or> readBlock r offset len = readBlock (file_ReadAt c) offset len"
  using readAtFull_or_fails [OF assms, of "unat len" "unat offset"] by (elim disjE) (simp_all add: readBlock_def uint64ToInt_def)

lemma reader_get_or_fails:
  assumes "reads_or_fails r c"
  shows "(\<exists>err. reader_get (R\<lparr>sr_r := r\<rparr>) key bloom = Some (Inl err))
    \<or> reader_get (R\<lparr>sr_r := r\<rparr>) key bloom = reader_get (R\<lparr>sr_r := file_ReadAt c\<rparr>) key bloom"
proof -
  let ?ix = "sr_index R ! (sort_Search (length (sr_index R)) (\<lambda>i. ix_firstKey (sr_index R ! i) > key) - 1)"
  from readBlock_or_fails [OF assms, of "ix_offset ?ix" "ix_length ?ix"] show ?thesis
    by (auto simp: reader_get_def Let_def split: option.split)
qed

lemma read_blocks_or_fails:
  assumes "reads_or_fails r c"
  shows "(\<exists>err. read_blocks (R\<lparr>sr_r := r\<rparr>) ixs es = Some (Inl err))
    \<or> read_blocks (R\<lparr>sr_r := r\<rparr>) ixs es = read_blocks (R\<lparr>sr_r := file_ReadAt c\<rparr>) ixs es"
proof (induction ixs arbitrary: es)
  case (Cons ix ixs)
  from readBlock_or_fails [OF assms, of "ix_offset ix" "ix_length ix"] show ?case
  proof
    assume "readBlock r (ix_offset ix) (ix_length ix) = readBlock (file_ReadAt c) (ix_offset ix) (ix_length ix)"
    then show ?thesis using Cons.IH by (auto split: sum.split option.split bool.split)
  qed auto
qed simp

lemma AllEntries_or_fails:
  assumes "reads_or_fails r c"
  shows "(\<exists>err. AllEntries (R\<lparr>sr_r := r\<rparr>) = Some (Inl err)) \<or> AllEntries (R\<lparr>sr_r := r\<rparr>) = AllEntries (R\<lparr>sr_r := file_ReadAt c\<rparr>)"
  using read_blocks_or_fails [OF assms, of R "sr_index R" "[]"] by (elim disjE exE) (simp_all add: AllEntries_def split: option.split sum.split)

lemma open_blocks_or_fails:
  assumes "reads_or_fails r c"
  shows "(\<exists>err. open_blocks r n md = Inl err)
    \<or> open_blocks r n md = map_sum id (\<lambda>R. R\<lparr>sr_r := r\<rparr>) (open_blocks (file_ReadAt c) n md)"
proof -
  from readBlock_or_fails [OF assms, of "get_u64 md 0" "get_u64 md 8"] readBlock_or_fails [OF assms, of "get_u64 md 16" "get_u64 md 24"]
  show ?thesis
    by (elim disjE exE) (auto simp: open_blocks_def Let_def split: sum.split option.split)
qed

lemma OpenSSTable_or_fails:
  assumes "reads_or_fails r c"
  shows "(\<exists>err. OpenSSTable (Some r) n = Inl err)
    \<or> OpenSSTable (Some r) n = map_sum id (\<lambda>R. R\<lparr>sr_r := r\<rparr>) (OpenSSTable (Some (file_ReadAt c)) n)"
proof -
  show ?thesis
  proof (cases "readAtFull r footerTrailer (nat n - footerTrailer)")
    case (Some trailer)
    then have t: "readAtFull (file_ReadAt c) footerTrailer (nat n - footerTrailer) = Some trailer" by (rule readAtFull_Some [OF assms])
    let ?m = "get_u32 trailer 4"
    show ?thesis
    proof (cases "readAtFull r ?m (nat n - footerTrailer - ?m)")
      case None
      then show ?thesis using Some t by (simp add: OpenSSTable_def Let_def)
    next
      case m: (Some md)
      then have "readAtFull (file_ReadAt c) ?m (nat n - footerTrailer - ?m) = Some md" by (rule readAtFull_Some [OF assms])
      then show ?thesis using Some t m open_blocks_or_fails [OF assms, of "nat n" md] by (auto simp: OpenSSTable_def Let_def)
    qed
  qed (simp add: OpenSSTable_def)
qed

section \<open>Iterators\<close>

definition same_reads :: "sstableEntryIterator \<Rightarrow> sstableEntryIterator \<Rightarrow> bool" where
  "same_reads a b \<longleftrightarrow> (\<exists>R r c. reads_or_fails r c \<and> it_reader a = Some (R\<lparr>sr_r := r\<rparr>)
     \<and> b = a\<lparr>it_reader := Some (R\<lparr>sr_r := file_ReadAt c\<rparr>)\<rparr>)"

text \<open>\<open>n1\<close> fails or does what \<open>n2\<close> does.\<close>

definition fails_or :: "('a \<Rightarrow> 'b \<Rightarrow> bool) \<Rightarrow> ('a \<Rightarrow> ('a \<times> (sst_error + 'e)) option) \<Rightarrow> ('b \<Rightarrow> ('b \<times> (sst_error + 'e)) option) \<Rightarrow> bool" where
  "fails_or R n1 n2 \<longleftrightarrow> (\<forall>a b. R a b \<longrightarrow> (\<exists>a' err. n1 a = Some (a', Inl err))
     \<or> (\<exists>a' b' x. n1 a = Some (a', x) \<and> n2 b = Some (b', x) \<and> R a' b') \<or> n1 a = None \<and> n2 b = None)"

lemma fails_orE:
  assumes "fails_or R n1 n2" "R a b"
  obtains (fail) a' err where "n1 a = Some (a', Inl err)"
    | (same) a' b' x where "n1 a = Some (a', x)" "n2 b = Some (b', x)" "R a' b'"
    | (none) "n1 a = None" "n2 b = None"
  using assms unfolding fails_or_def by metis

text \<open>A loaded block does not depend on the reader, except for a failure.\<close>

lemma load_block_or_fails:
  assumes "reads_or_fails r c"
  shows "(\<exists>err. load_block (R\<lparr>sr_r := r\<rparr>) it = Some (Inl err))
    \<or> load_block (R\<lparr>sr_r := r\<rparr>) it = load_block (R\<lparr>sr_r := file_ReadAt c\<rparr>) it"
  using readBlock_or_fails [OF assms, of "ix_offset (sr_index R ! it_block it)" "ix_length (sr_index R ! it_block it)"]
  by (elim disjE exE) (simp_all add: load_block_def Let_def split: option.split sum.split bool.split)

lemma load_block_reader:
  "load_block R (it\<lparr>it_reader := x\<rparr>) = map_option (map_sum id (\<lambda>it. it\<lparr>it_reader := x\<rparr>)) (load_block R it)"
  by (auto simp: load_block_def Let_def split: option.split sum.split bool.split)

lemma emit_entry_reader:
  "emit_entry (R\<lparr>sr_r := r\<rparr>) (it\<lparr>it_reader := x\<rparr>) = (case emit_entry (R\<lparr>sr_r := r'\<rparr>) it of (it', y) \<Rightarrow> (it'\<lparr>it_reader := x\<rparr>, y))"
  by (simp add: emit_entry_def Let_def)

lemma load_block_keeps_reader: "load_block R it = Some (Inr it') \<Longrightarrow> it_reader it' = it_reader it"
  by (auto simp: load_block_def Let_def split: option.splits sum.splits if_splits bool.splits)

lemma emit_entry_keeps_reader: "emit_entry R it = (it', x) \<Longrightarrow> it_reader it' = it_reader it"
  by (auto simp: emit_entry_def Let_def split: if_splits)

lemma iterator_fails_or: "fails_or same_reads iterator_Next iterator_Next"
  unfolding fails_or_def
proof (intro allI impI)
  fix a b
  assume "same_reads a b"
  then obtain R r c where r: "reads_or_fails r c" and a: "it_reader a = Some (R\<lparr>sr_r := r\<rparr>)"
    and b: "b = a\<lparr>it_reader := Some (R\<lparr>sr_r := file_ReadAt c\<rparr>)\<rparr>" by (auto simp: same_reads_def)
  let ?f = "\<lambda>it. it\<lparr>it_reader := Some (R\<lparr>sr_r := file_ReadAt c\<rparr>)\<rparr>"
  have rel: "same_reads it (?f it)" if "it_reader it = Some (R\<lparr>sr_r := r\<rparr>)" for it using that r unfolding same_reads_def by blast
  have emits: "\<exists>a' b' x. Some (emit_entry (R\<lparr>sr_r := r\<rparr>) it) = Some (a', x) \<and> Some (emit_entry (R\<lparr>sr_r := file_ReadAt c\<rparr>) (?f it)) = Some (b', x) \<and> same_reads a' b'"
    if it: "it_reader it = Some (R\<lparr>sr_r := r\<rparr>)" for it
  proof -
    obtain a' x where e: "emit_entry (R\<lparr>sr_r := r\<rparr>) it = (a', x)" by fastforce
    with rel [of a'] emit_entry_keeps_reader [OF e] it show ?thesis
      by (intro exI [of _ a'] exI [of _ "?f a'"] exI [of _ x]) (simp add: emit_entry_reader [where r' = r])
  qed
  consider (over) "it_done a" | (last) "\<not> it_done a" "it_entry a = length (it_entries a)" "it_block a = length (sr_index R)"
    | (load) "\<not> it_done a" "it_entry a = length (it_entries a)" "it_block a \<noteq> length (sr_index R)"
    | (emit) "\<not> it_done a" "it_entry a \<noteq> length (it_entries a)" by blast
  then show "(\<exists>a' err. iterator_Next a = Some (a', Inl err))
    \<or> (\<exists>a' b' x. iterator_Next a = Some (a', x) \<and> iterator_Next b = Some (b', x) \<and> same_reads a' b') \<or> iterator_Next a = None \<and> iterator_Next b = None"
  proof cases
    case over
    then show ?thesis using a b rel [OF a] by (simp add: iterator_Next_def)
  next
    case last
    have eq: "a\<lparr>it_reader := x, it_done := True\<rparr> = a\<lparr>it_done := True, it_reader := x\<rparr>" for x by simp
    have "same_reads (a\<lparr>it_done := True\<rparr>) (a\<lparr>it_reader := Some (R\<lparr>sr_r := file_ReadAt c\<rparr>), it_done := True\<rparr>)"
      unfolding eq by (rule rel) (simp add: a)
    then show ?thesis using last a b by (auto simp: iterator_Next_def Let_def)
  next
    case load
    show ?thesis
    proof (cases "load_block (R\<lparr>sr_r := r\<rparr>) a")
      case None
      then have "load_block (R\<lparr>sr_r := file_ReadAt c\<rparr>) a = None" using load_block_or_fails [OF r, of R a] by auto
      then show ?thesis using None load a b by (simp add: iterator_Next_def load_block_reader)
    next
      case (Some y)
      show ?thesis
      proof (cases y)
        case (Inl err)
        then show ?thesis using Some load a by (simp add: iterator_Next_def)
      next
        case (Inr it)
        then have l2: "load_block (R\<lparr>sr_r := file_ReadAt c\<rparr>) a = Some (Inr it)" using load_block_or_fails [OF r, of R a] Some by auto
        have it: "it_reader it = Some (R\<lparr>sr_r := r\<rparr>)" using load_block_keeps_reader [of _ a it] Some Inr a by simp
        from emits [OF it] show ?thesis using Some Inr l2 load a b by (auto simp: iterator_Next_def load_block_reader)
      qed
    qed
  next
    case emit
    with emits [OF a] show ?thesis using a b by (auto simp: iterator_Next_def)
  qed
qed

section \<open>The merge\<close>

text \<open>The merge of inputs that fail or do what others do fails or does what the merge of the others does.\<close>

definition same_merge :: "('a \<Rightarrow> 'b \<Rightarrow> bool) \<Rightarrow> 'a kWayMergeIterator \<Rightarrow> 'b kWayMergeIterator \<Rightarrow> bool" where
  "same_merge R m n \<longleftrightarrow> list_all2 R (km_inputs m) (km_inputs n) \<and> km_heap m = km_heap n \<and> heap_ok (km_heap n)
     \<and> (\<forall>item \<in> set (km_heap n). mh_input item < length (km_inputs n))"

lemma same_merge_step:
  assumes "same_merge R m n" "pop (km_heap n) = (item, heap)" "km_heap n \<noteq> []" "R a b"
  shows "same_merge R (m\<lparr>km_heap := heap, km_inputs := (km_inputs m)[mh_input item := a]\<rparr>) (n\<lparr>km_heap := heap, km_inputs := (km_inputs n)[mh_input item := b]\<rparr>)"
    and "same_merge R (m\<lparr>km_inputs := (km_inputs m)[mh_input item := a], km_heap := push \<lparr>mh_entry = x, mh_input = mh_input item\<rparr> heap\<rparr>)
           (n\<lparr>km_inputs := (km_inputs n)[mh_input item := b], km_heap := push \<lparr>mh_entry = x, mh_input = mh_input item\<rparr> heap\<rparr>)"
proof -
  have h: "heap_ok heap" "add_mset item (mset heap) = mset (km_heap n)"
    using pop_ok [OF _ assms(3,2)] assms(1) by (auto simp: same_merge_def)
  have sub: "set heap \<subseteq> set (km_heap n)" "item \<in> set (km_heap n)"
    using h(2) by (metis set_mset_add_mset_insert set_mset_mset subset_insertI, metis set_mset_add_mset_insert set_mset_mset insertI1)
  have i: "list_all2 R ((km_inputs m)[mh_input item := a]) ((km_inputs n)[mh_input item := b])"
    using assms(1,4) by (auto simp: same_merge_def intro: list_all2_update_cong)
  have push: "set (push \<lparr>mh_entry = x, mh_input = mh_input item\<rparr> heap) = insert \<lparr>mh_entry = x, mh_input = mh_input item\<rparr> (set heap)"
    using push_ok(2) [OF h(1)] by (metis set_mset_add_mset_insert set_mset_mset)
  show "same_merge R (m\<lparr>km_heap := heap, km_inputs := (km_inputs m)[mh_input item := a]\<rparr>) (n\<lparr>km_heap := heap, km_inputs := (km_inputs n)[mh_input item := b]\<rparr>)"
    using assms(1) h(1) i sub by (auto simp: same_merge_def)
  show "same_merge R (m\<lparr>km_inputs := (km_inputs m)[mh_input item := a], km_heap := push \<lparr>mh_entry = x, mh_input = mh_input item\<rparr> heap\<rparr>)
           (n\<lparr>km_inputs := (km_inputs n)[mh_input item := b], km_heap := push \<lparr>mh_entry = x, mh_input = mh_input item\<rparr> heap\<rparr>)"
    using assms(1) push_ok(1) [OF h(1)] i sub push by (auto simp: same_merge_def)
qed

definition drain_simulated :: "('a \<Rightarrow> 'b \<Rightarrow> bool) \<Rightarrow> ('a \<Rightarrow> ('a \<times> (sst_error + TableEntry option)) option) \<Rightarrow> bytes
    \<Rightarrow> TableEntry option \<Rightarrow> (u64 \<rightharpoonup> TableEntry) \<Rightarrow> 'b kWayMergeIterator \<Rightarrow> 'b kWayMergeIterator \<times> (sst_error + TableEntry option) \<Rightarrow> bool" where
  "drain_simulated R n1 key w v n res \<longleftrightarrow> (\<forall>m. same_merge R m n \<longrightarrow> (\<exists>m' err. drain_key n1 key w v m = Some (m', Inl err))
     \<or> (\<exists>m'. drain_key n1 key w v m = Some (m', snd res) \<and> same_merge R m' (fst res)))"

lemma drain_key_fails_or:
  assumes "fails_or R n1 n2" "drain_key n2 key w v n = Some res"
  shows "drain_simulated R n1 key w v n res"
proof -
  have "n2 = n2 \<longrightarrow> drain_simulated R n1 key w v n res"
  proof (rule drain_key.raw_induct [OF _ assms(2), where P = "\<lambda>nx key w v n res. nx = n2 \<longrightarrow> drain_simulated R n1 key w v n res"], intro impI)
    fix D nx key w v n res
    assume IH: "\<And>nx key w v n res. D nx key w v n = Some res \<Longrightarrow> nx = n2 \<longrightarrow> drain_simulated R n1 key w v n res"
      and step: "(if km_heap n = [] \<or> te_Key (mh_entry (km_heap n ! 0)) \<noteq> key then Some (n, Inr w)
      else case pop (km_heap n) of
             (item, heap) \<Rightarrow>
               (let candidate = mh_entry item;
                    m1 = n\<lparr>km_heap := heap\<rparr>
                in if (case v (te_Seq candidate) of None \<Rightarrow> False | Some prior \<Rightarrow> \<not> sameTableRecord candidate prior)
                   then Some (m1, Inl ErrCorrupt)
                   else (let versions1 = (if v (te_Seq candidate) = None
                                          then v(te_Seq candidate \<mapsto> cloneTableEntry candidate) else v);
                             winner1 = (if w = None \<or> te_Seq (the w) < te_Seq candidate
                                        then Some (cloneTableEntry candidate) else w)
                         in case nx (km_inputs n ! mh_input item) of
                              None \<Rightarrow> None
                            | Some (source, r) \<Rightarrow>
                                (let m2 = m1\<lparr>km_inputs := (km_inputs n)[mh_input item := source]\<rparr>
                                 in case r of
                                      Inl err \<Rightarrow> Some (m2, Inl err)
                                    | Inr None \<Rightarrow> D nx key winner1 versions1 m2
                                    | Inr (Some e) \<Rightarrow>
                                        D nx key winner1 versions1
                                          (m2\<lparr>km_heap := push \<lparr>mh_entry = e, mh_input = mh_input item\<rparr> (km_heap m2)\<rparr>))))) = Some res"
      and nx: "nx = n2"
    show "drain_simulated R n1 key w v n res"
      unfolding drain_simulated_def
    proof (intro allI impI)
      fix m
      assume sm: "same_merge R m n"
      then have hp: "km_heap m = km_heap n" by (simp add: same_merge_def)
      show "(\<exists>m' err. drain_key n1 key w v m = Some (m', Inl err)) \<or> (\<exists>m'. drain_key n1 key w v m = Some (m', snd res) \<and> same_merge R m' (fst res))"
      proof (cases "km_heap n = [] \<or> te_Key (mh_entry (km_heap n ! 0)) \<noteq> key")
        case True
        then have "res = (n, Inr w)" using step by auto
        then show ?thesis using True hp sm by (subst (1 2) drain_key.simps) auto
      next
        case False
        obtain item heap where pop: "pop (km_heap n) = (item, heap)" by fastforce
        let ?c = "mh_entry item"
        show ?thesis
        proof (cases "case v (te_Seq ?c) of None \<Rightarrow> False | Some prior \<Rightarrow> \<not> sameTableRecord ?c prior")
          case True
          then show ?thesis using False hp pop by (subst drain_key.simps) (simp add: Let_def)
        next
          case ok: False
          have ne: "km_heap n \<noteq> []" using False by simp
          have "item = km_heap n ! 0" using pop_ok(3) [OF _ ne pop] sm by (auto simp: same_merge_def)
          then have idx: "mh_input item < length (km_inputs n)" using sm ne by (auto simp: same_merge_def)
          then have "R (km_inputs m ! mh_input item) (km_inputs n ! mh_input item)" using sm by (auto simp: same_merge_def list_all2_conv_all_nth)
          with assms(1) show ?thesis
          proof (cases rule: fails_orE)
            case fail
            then show ?thesis using False hp pop ok by (subst drain_key.simps) (simp add: Let_def)
          next
            case none
            then show ?thesis using step False pop ok nx by (simp add: Let_def)
          next
            case (same a' b' x)
            note sms = same_merge_step [OF sm pop ne same(3)]
            let ?v1 = "if v (te_Seq ?c) = None then v(te_Seq ?c \<mapsto> cloneTableEntry ?c) else v"
              and ?w1 = "if w = None \<or> te_Seq (the w) < te_Seq ?c then Some (cloneTableEntry ?c) else w"
            let ?m2 = "m\<lparr>km_heap := heap, km_inputs := (km_inputs m)[mh_input item := a']\<rparr>"
              and ?n2 = "n\<lparr>km_heap := heap, km_inputs := (km_inputs n)[mh_input item := b']\<rparr>"
            show ?thesis
            proof (cases x)
              case (Inl err)
              then show ?thesis using False hp pop ok same(1) by (subst drain_key.simps) (simp add: Let_def)
            next
              case (Inr eo)
              define m3 where "m3 = (case eo of None \<Rightarrow> ?m2 | Some y \<Rightarrow> ?m2\<lparr>km_heap := push \<lparr>mh_entry = y, mh_input = mh_input item\<rparr> heap\<rparr>)"
              define n3 where "n3 = (case eo of None \<Rightarrow> ?n2 | Some y \<Rightarrow> ?n2\<lparr>km_heap := push \<lparr>mh_entry = y, mh_input = mh_input item\<rparr> heap\<rparr>)"
              have "D nx key ?w1 ?v1 n3 = Some res"
                using step False pop ok nx same(2) Inr by (cases eo) (simp_all add: Let_def n3_def split del: if_split)
              then have "drain_simulated R n1 key ?w1 ?v1 n3 res" using IH nx by blast
              moreover have "same_merge R m3 n3" using sms by (cases eo) (simp_all add: m3_def n3_def)
              moreover have "drain_key n1 key w v m = drain_key n1 key ?w1 ?v1 m3"
                using False hp pop ok same(1) Inr
                by (subst drain_key.simps) (cases eo; simp add: Let_def m3_def split del: if_split)
              ultimately show ?thesis unfolding drain_simulated_def by presburger
            qed
          qed
        qed
      qed
    qed
  qed
  then show ?thesis by simp
qed

lemma merge_Next_fails_or:
  assumes "fails_or R n1 n2" "merge_Next n2 n = Some (n', x)" "same_merge R m n"
  shows "(\<exists>m' err. merge_Next n1 m = Some (m', Inl err)) \<or> (\<exists>m'. merge_Next n1 m = Some (m', x) \<and> same_merge R m' n')"
proof (cases "km_heap n = []")
  case True
  then show ?thesis using assms(2,3) by (auto simp: merge_Next_def same_merge_def)
next
  case False
  have hp: "km_heap m = km_heap n" using assms(3) by (simp add: same_merge_def)
  have "drain_key n2 (cloneBytes (te_Key (mh_entry (km_heap n ! 0)))) None Map.empty n = Some (n', x)"
    using assms(2) False by (simp add: merge_Next_def)
  from drain_key_fails_or [OF assms(1) this] assms(3) False hp show ?thesis by (simp add: drain_simulated_def merge_Next_def)
qed

lemma fill_output_fails_or:
  assumes "yields n2 n out" "fails_or R n1 n2" "same_merge R m n"
  shows "(\<exists>err. fill_output n1 m fk lk cnt w = Some (Inl err)) \<or> fill_output n1 m fk lk cnt w = fill_output n2 n fk lk cnt w"
  using assms(1,3)
proof (induction arbitrary: m fk lk cnt w rule: yields.induct)
  case (yields_Nil n n')
  from merge_Next_fails_or [OF assms(2) yields_Nil] yields_Nil(1) show ?case
    by (subst (1 2 3) fill_output.simps) auto
next
  case (yields_Cons n n' e out)
  from merge_Next_fails_or [OF assms(2) yields_Cons(1,4)] show ?case
  proof (elim disjE exE conjE)
    fix m' err
    assume "merge_Next n1 m = Some (m', Inl err)"
    then show ?thesis by (subst fill_output.simps) simp
  next
    fix m'
    assume m': "merge_Next n1 m = Some (m', Inr (Some e))" "same_merge R m' n'"
    show ?thesis
    proof (cases "writer_Add e w")
      case (Inl err)
      then show ?thesis using m' by (subst fill_output.simps) (simp add: Let_def)
    next
      case (Inr w')
      have "fill_output n1 m fk lk cnt w = fill_output n1 m' (if cnt = 0 then cloneBytes (te_Key e) else fk) (cloneBytes (te_Key e)) (cnt + 1) w'"
        using m'(1) Inr by (subst fill_output.simps) (simp add: Let_def)
      moreover have "fill_output n2 n fk lk cnt w = fill_output n2 n' (if cnt = 0 then cloneBytes (te_Key e) else fk) (cloneBytes (te_Key e)) (cnt + 1) w'"
        using yields_Cons(1) Inr by (subst fill_output.simps) (simp add: Let_def)
      ultimately show ?thesis using yields_Cons.IH [OF m'(2)] by presburger
    qed
  qed
qed

lemma init_inputs_fails_or:
  assumes "fails_or R n1 n2" "list_all2 R as bs" "init_inputs n2 i (map Some bs) bseen heap = Some (Inr n)"
    and "list_all2 R aseen bseen" "i = length bseen" "heap_ok heap" "\<forall>item \<in> set heap. mh_input item < length bseen"
  shows "(\<exists>err. init_inputs n1 i (map Some as) aseen heap = Some (Inl err))
    \<or> (\<exists>m. init_inputs n1 i (map Some as) aseen heap = Some (Inr m) \<and> same_merge R m n)"
  using assms(2-)
proof (induction arbitrary: i aseen bseen heap rule: list_all2_induct)
  case Nil
  then show ?case by (auto simp: same_merge_def)
next
  case (Cons a as b bs)
  from assms(1) Cons.hyps(1) show ?case
  proof (cases rule: fails_orE)
    case (same a' b' x)
    show ?thesis
    proof (cases x)
      case (Inr eo)
      have seen: "list_all2 R (aseen @ [a']) (bseen @ [b'])" using Cons.prems(2) same(3) by (simp add: list_all2_appendI)
      show ?thesis
      proof (cases eo)
        case None
        then have "init_inputs n2 (i + 1) (map Some bs) (bseen @ [b']) heap = Some (Inr n)" using Cons.prems(1) same Inr by simp
        from Cons.IH [OF this seen] Cons.prems show ?thesis using same(1) Inr None by (auto simp: less_Suc_eq)
      next
        case (Some e)
        let ?h = "push \<lparr>mh_entry = e, mh_input = i\<rparr> heap"
        have "init_inputs n2 (i + 1) (map Some bs) (bseen @ [b']) ?h = Some (Inr n)" using Cons.prems(1) same Inr Some by simp
        moreover have "set ?h = insert \<lparr>mh_entry = e, mh_input = i\<rparr> (set heap)"
          using push_ok(2) [OF Cons.prems(4)] by (metis set_mset_add_mset_insert set_mset_mset)
        ultimately show ?thesis using Cons.IH [OF _ seen, of "i + 1" ?h] Cons.prems push_ok(1) [OF Cons.prems(4)] same(1) Inr Some
          by (auto simp: less_Suc_eq)
      qed
    qed (use same(1) in simp)
  qed (use Cons.prems in auto)
qed

lemma newKWayMergeIterator_fails_or:
  assumes "fails_or R n1 n2" "list_all2 R as bs" "newKWayMergeIterator n2 (map Some bs) = Some (Inr n)"
  shows "(\<exists>err. newKWayMergeIterator n1 (map Some as) = Some (Inl err))
    \<or> (\<exists>m. newKWayMergeIterator n1 (map Some as) = Some (Inr m) \<and> same_merge R m n)"
  using init_inputs_fails_or [OF assms(1,2), of 0 "[]" "[]" n "[]"] assms(3) by (simp add: newKWayMergeIterator_def heap_ok_def)

end
