(* ===== verification/Lsm_Engine_Files.thy ===== *)
theory Lsm_Engine_Files
  imports Lsm_Engine Lsm_Fallible
begin

text \<open>
  What the file operations of the engine (\<open>internal/lsm/engine.go\<close>, \<open>manifest.go\<close>, \<open>compaction.go\<close>) do
  to the files: they leave the open tables readable, whatever errors the file system reports, and a
  table that was written, synced and opened without an error holds exactly the entries given to the
  writer. Everything is proved from the contract \<open>file_system\<close>.
\<close>

section \<open>Operations that leave the tables alone\<close>

definition manifest_path :: "string \<Rightarrow> string" where
  "manifest_path dir = Clean (path_Join [dir, manifestFilename])"

text \<open>The handle is not one of the manifest file. After a crash nothing is demanded.\<close>

definition apart :: "('s, 'h) fs_abs \<Rightarrow> string \<Rightarrow> 's \<Rightarrow> 'h \<Rightarrow> bool" where
  "apart A dir s h \<longleftrightarrow> a_dead A s \<or> a_named A s (manifest_path dir) \<noteq> Some (a_file A s h)"

definition quiet :: "('s, 'h) fs_abs \<Rightarrow> string \<Rightarrow> 's \<Rightarrow> 's \<Rightarrow> bool" where
  "quiet A dir s s' \<longleftrightarrow> (a_ok A s \<longrightarrow> a_ok A s') \<and> (\<forall>h. a_known A s h \<and> apart A dir s h \<longrightarrow>
     a_known A s' h \<and> a_file A s' h = a_file A s h \<and> apart A dir s' h \<and> (\<forall>c. a_holds A s h c \<longrightarrow> a_holds A s' h c))"

lemma quiet_refl [simp]: "quiet A dir s s"
  by (simp add: quiet_def)

lemma quiet_trans: "quiet A dir s s1 \<Longrightarrow> quiet A dir s1 s2 \<Longrightarrow> quiet A dir s s2"
  unfolding quiet_def by metis

lemma quiet_ok: "quiet A dir s s' \<Longrightarrow> a_ok A s \<Longrightarrow> a_ok A s'"
  by (simp add: quiet_def)

lemma apart_frame:
  assumes "frame A W s s'" "a_known A s h" "apart A dir s h"
  shows "apart A dir s' h"
proof (cases "a_named A s' (manifest_path dir) = Some (a_file A s' h)")
  case True
  have "a_file A s' h = a_file A s h" by (rule frameD(4) [OF assms(1,2)])
  with frameD(6) [OF assms(1) True] frameD(2) [OF assms(1)] assms(2,3) show ?thesis by (auto simp: apart_def)
qed (simp add: apart_def)

lemma quiet_frame_except:
  assumes "frame A W s s'" "\<And>h. a_known A s h \<Longrightarrow> apart A dir s h \<Longrightarrow> a_file A s h \<notin> W"
  shows "quiet A dir s s'"
  unfolding quiet_def using frameD(1,3,4,5) [OF assms(1)] apart_frame [OF assms(1)] assms(2) by blast

lemma quiet_frame: "frame A {} s s' \<Longrightarrow> quiet A dir s s'"
  by (erule quiet_frame_except) simp

text \<open>Writes to a file that no handle of the first state denotes.\<close>

lemma quiet_frame_new:
  assumes "frame A {} s s1" "frame A W s1 s2" "\<And>h. a_known A s h \<Longrightarrow> apart A dir s h \<Longrightarrow> a_file A s h \<notin> W"
  shows "quiet A dir s s2"
proof -
  have "frame A W s s1" by (rule frame_mono [OF assms(1)]) simp
  from frame_trans [OF this assms(2)] assms(3) show ?thesis by (rule quiet_frame_except)
qed

context file_system
begin

lemma Close_quiet: "op_Close F h s = (s', e) \<Longrightarrow> a_ok A s \<Longrightarrow> quiet A dir s s'"
  by (rule quiet_frame [OF Close_frame])

lemma Sync_quiet: "op_Sync F h s = (s', e) \<Longrightarrow> a_ok A s \<Longrightarrow> a_known A s h \<Longrightarrow> quiet A dir s s'"
  by (rule quiet_frame [OF Sync_frame])

lemma manifest_write_quiet:
  assumes "op_OpenAppend F (path_Join [dir, manifestFilename]) s = (s1, Inr h)" "frame A {a_file A s1 h} s1 s2" "a_ok A s"
  shows "quiet A dir s s2" "a_known A s2 h"
proof -
  from OpenAppend_ok [OF assms(1,3)] have h: "a_known A s1 h" "a_named A s (manifest_path dir) = Some (a_file A s1 h)" "\<not> a_dead A s1"
    by (auto simp: manifest_path_def)
  note f = OpenAppend_frame [OF assms(1,3)]
  have "\<not> a_dead A s" using h(3) frameD(2) [OF f] by blast
  then show "quiet A dir s s2" using h(2) by (intro quiet_frame_new [OF f assms(2)]) (auto simp: apart_def)
  show "a_known A s2 h" by (rule frameD(3) [OF assms(2) h(1)])
qed

lemma OpenAppend_ok_known: "op_OpenAppend F p s = (s1, Inr h) \<Longrightarrow> a_ok A s \<Longrightarrow> a_known A s1 h \<and> a_ok A s1"
  using OpenAppend_ok [of p s s1 h] frameD(1) [OF OpenAppend_frame] by blast

text \<open>After an append to the manifest the handle may be synced and closed.\<close>

lemma appendManifestEdit_quiet:
  assumes "appendManifestEdit F marshal dir edit s = (s', committed, unresolved, err)" "a_ok A s"
  shows "quiet A dir s s'"
proof (cases "encodeManifestFrame marshal (Some edit)")
  case (Inl e)
  then show ?thesis using assms by (simp add: appendManifestEdit_def)
next
  case (Inr encoded)
  obtain s1 r where o: "op_OpenAppend F (path_Join [dir, manifestFilename]) s = (s1, r)" by fastforce
  show ?thesis
  proof (cases r)
    case (Inl e)
    then show ?thesis using assms Inr o by (auto simp: appendManifestEdit_def intro!: quiet_frame [OF OpenAppend_frame])
  next
    case h: (Inr h)
    note o = o [unfolded h]
    note k = OpenAppend_ok_known [OF o assms(2)]
    obtain s2 n we where w: "op_Write F h encoded s1 = (s2, n, we)" by (metis prod_cases3)
    have fr: "frame A {a_file A s1 h} s1 s2" using Write_frame [OF w] k by blast
    note q2 = manifest_write_quiet [OF o fr assms(2)]
    note q2 = q2 quiet_ok [OF q2(1) assms(2)]
    have c2: "quiet A dir s s3" if "op_Close F h s2 = (s3, ce)" for s3 ce
      by (rule quiet_trans [OF q2(1) Close_quiet [OF that q2(3)]])
    obtain s3 se where sy: "op_Sync F h s2 = (s3, se)" by fastforce
    note q3 = quiet_trans [OF q2(1) Sync_quiet [OF sy q2(3,2)]]
    have c3: "quiet A dir s s4" if "op_Close F h s3 = (s4, ce)" for s4 ce
      by (rule quiet_trans [OF q3 Close_quiet [OF that quiet_ok [OF q3 assms(2)]]])
    show ?thesis
      using assms(1) Inr o w sy c2 c3
      by (auto simp: appendManifestEdit_def Let_def split: if_splits option.splits prod.splits)
  qed
qed

lemma createManifest_quiet:
  assumes "createManifest F dir path s = (s', err)" "a_ok A s"
  shows "quiet A dir s s'"
proof -
  obtain s1 r where c: "op_Create F path s = (s1, r)" by fastforce
  note q1 = quiet_frame [OF Create_frame [OF c assms(2)], of dir]
  show ?thesis
  proof (cases r)
    case (Inr h)
    have k: "a_known A s1 h" using Create_ok [OF c [unfolded Inr] assms(2)] by simp
    obtain s2 e2 where sy: "op_Sync F h s1 = (s2, e2)" by fastforce
    note q2 = quiet_trans [OF q1 Sync_quiet [OF sy quiet_ok [OF q1 assms(2)] k]]
    obtain s3 e3 where cl: "op_Close F h s2 = (s3, e3)" by fastforce
    note q3 = quiet_trans [OF q2 Close_quiet [OF cl quiet_ok [OF q2 assms(2)]]]
    have "quiet A dir s s4" if "op_SyncDir F dir s3 = (s4, e4)" for s4 e4
      by (rule quiet_trans [OF q3 quiet_frame [OF SyncDir_frame [OF that quiet_ok [OF q3 assms(2)]]]])
    then show ?thesis using assms(1) c Inr sy cl q2 q3 by (auto simp: createManifest_def split: option.splits prod.splits)
  qed (use assms(1) c q1 in \<open>auto simp: createManifest_def\<close>)
qed

end

section \<open>Bookkeeping\<close>

text \<open>The engines have the same contents. An engine that has failed for good stays so.\<close>

definition same_data :: "'h Engine \<Rightarrow> 'h Engine \<Rightarrow> bool" where
  "same_data e e' \<longleftrightarrow> en_list e' = en_list e \<and> en_immutables e' = en_immutables e \<and> en_tables e' = en_tables e
     \<and> en_dir e' = en_dir e \<and> en_fs e' = en_fs e \<and> en_closed e' = en_closed e
     \<and> (en_poisoned e' = None \<longrightarrow> en_poisoned e = None)"

lemma same_data_refl [simp]: "same_data e e"
  by (simp add: same_data_def)

lemma same_data_trans: "same_data e e1 \<Longrightarrow> same_data e1 e2 \<Longrightarrow> same_data e e2"
  by (simp add: same_data_def)

lemma same_data_updates [simp]:
  "same_data e (e\<lparr>en_unresolved := a\<rparr>)" "same_data e (e\<lparr>en_obsolete := b\<rparr>)" "same_data e (e\<lparr>en_obsoleteDirDirty := c\<rparr>)"
  "same_data e (e\<lparr>en_obsolete := b, en_obsoleteDirDirty := c\<rparr>)" "same_data e (e\<lparr>en_manifest := m\<rparr>)"
  "same_data e (e\<lparr>en_nextFileNumber := n\<rparr>)" "same_data e (poisonLocked err e)"
  by (simp_all add: same_data_def poisonLocked_def)

context file_system
begin

lemma closeFileRetainingLocked_quiet:
  assumes "closeFileRetainingLocked F file e s = (e', s', err)" "a_ok A s"
  shows "quiet A dir s s' \<and> same_data e e'"
  using assms Close_quiet [of _ s _ _ dir]
  by (auto simp: closeFileRetainingLocked_def split: option.splits prod.splits)

lemma close_handles_quiet:
  assumes "close_handles F f xs s un err = (s', un', err')" "a_ok A s"
  shows "quiet A dir s s'"
  using assms
proof (induction xs arbitrary: s un err)
  case (Cons x xs)
  obtain s1 ce where c: "op_Close F (f x) s = (s1, ce)" by fastforce
  note q1 = Close_quiet [OF c Cons.prems(2), of dir]
  have "quiet A dir s1 s'" using Cons.prems(1) c Cons.IH quiet_ok [OF q1 Cons.prems(2)] by (auto split: if_splits)
  with q1 show ?case by (rule quiet_trans)
qed simp

lemma reconcile_loop_quiet:
  assumes "reconcile_loop F obs s pending dirty combined = (s', pending', dirty', combined')" "a_ok A s"
  shows "quiet A dir s s'"
  using assms
proof (induction obs arbitrary: s pending dirty combined)
  case (Cons ob obs)
  obtain s1 ce where c: "(case ob_file ob of None \<Rightarrow> (s, None) | Some h \<Rightarrow> op_Close F h s) = (s1, ce)" by fastforce
  have q1: "quiet A dir s s1" using c Cons.prems(2) Close_quiet [of _ s s1 ce dir] by (auto split: option.splits)
  note ok1 = quiet_ok [OF q1 Cons.prems(2)]
  obtain s2 re where r: "op_Remove F (ob_path ob) s1 = (s2, re)" by fastforce
  note q2 = quiet_trans [OF q1 quiet_frame [OF Remove_frame [OF r ok1]]]
  note ok2 = quiet_ok [OF q2 Cons.prems(2)]
  show ?case
  proof (cases "still_open ce")
    case True
    then have "quiet A dir s1 s'" using Cons.prems(1) c ok1 Cons.IH by auto
    with q1 show ?thesis by (rule quiet_trans)
  next
    case False
    then have "quiet A dir s2 s'" using Cons.prems(1) c r ok2 Cons.IH by (auto simp: Let_def split: if_splits)
    with q2 show ?thesis by (rule quiet_trans)
  qed
qed simp

lemma reconcileObsoleteLocked_quiet:
  assumes "reconcileObsoleteLocked F e s = (e', s', err)" "a_ok A s"
  shows "quiet A dir s s' \<and> same_data e e'"
proof (cases "en_fs e")
  case True
  obtain s1 pending dirty combined where l: "reconcile_loop F (en_obsolete e) s [] (en_obsoleteDirDirty e) None = (s1, pending, dirty, combined)"
    by (metis prod_cases4)
  note q1 = reconcile_loop_quiet [OF l assms(2), of dir]
  obtain s2 de where d: "op_SyncDir F (en_dir e) s1 = (s2, de)" by fastforce
  note q2 = quiet_trans [OF q1 quiet_frame [OF SyncDir_frame [OF d quiet_ok [OF q1 assms(2)]]]]
  show ?thesis using assms(1) True l d q1 q2
    by (auto simp: reconcileObsoleteLocked_def Let_def same_data_def split: if_splits option.splits)
qed (use assms in \<open>simp add: reconcileObsoleteLocked_def\<close>)

lemma discardCompactionOutputLocked_quiet:
  assumes "discardCompactionOutputLocked F path file cause e s = (e', s', err)" "a_ok A s"
  shows "quiet A dir s s' \<and> same_data e e'"
proof -
  let ?e = "e\<lparr>en_obsolete := en_obsolete e @ [\<lparr>ob_path = path, ob_file = file\<rparr>]\<rparr>"
  obtain err1 where "reconcileObsoleteLocked F ?e s = (e', s', err1)"
    using assms(1) by (auto simp: discardCompactionOutputLocked_def split: prod.splits)
  from reconcileObsoleteLocked_quiet [OF this assms(2), of dir] show ?thesis by (simp add: same_data_def)
qed

end

section \<open>Writing a new table\<close>

lemma encodeRecord_nonempty: "encodeRecord e = Inr enc \<Longrightarrow> enc \<noteq> []"
  by (auto simp: encodeRecord_def Let_def split: if_splits)

lemma block_of_length:
  assumes "block_of b g"
  shows "length g \<le> length (bb_data b)"
proof -
  obtain encs where encs: "list_all2 (\<lambda>e enc. encodeRecord e = Inr enc) g encs" "bb_data b = concat encs"
    using assms by (auto simp: block_of_def)
  from encs(1) have "length g \<le> length (concat encs)"
  proof (induction rule: list_all2_induct)
    case (Cons e es enc encs)
    then have "1 \<le> length enc" using encodeRecord_nonempty [of e enc] by (cases enc) auto
    with Cons(3) show ?case by simp
  qed simp
  with encs(2) show ?thesis by simp
qed

lemma write_blocks_length: "write_blocks bs T ix = Inr (T', ix') \<Longrightarrow> length T + sum_list (map (\<lambda>b. length (bb_data b)) bs) \<le> length T'"
proof (induction bs arbitrary: T ix)
  case (Cons b bs)
  obtain T1 where T1: "appendBlock T (bb_data b) = Inr T1" using Cons.prems by (auto split: sum.splits)
  then have "length T + length (bb_data b) \<le> length T1" by (auto simp: appendBlock_ok)
  moreover have "length T1 + sum_list (map (\<lambda>b. length (bb_data b)) bs) \<le> length T'" using Cons.IH Cons.prems T1 by auto
  ultimately show ?case by simp
qed simp

lemma table_bytes_count:
  assumes "table_bytes es = Some (Inr content)"
  shows "length es \<le> length content"
proof -
  obtain blocks T index indexData bloomData m where
    p: "buildDataBlocks es = Inr blocks" "write_blocks blocks [] [] = Inr (T, index)"
    and c: "content = T @ sealed indexData @ sealed bloomData @ m @ PutUint32 (crc32c m) @ PutUint32 (of_nat (length m)) @ footerMagic"
    by (rule table_bytes_parts [OF assms])
  obtain gs where gs: "concat gs = es" "list_all2 block_of blocks gs" using buildDataBlocks_groups [OF p(1)] by blast
  from gs(2) have "length (concat gs) \<le> sum_list (map (\<lambda>b. length (bb_data b)) blocks)"
    by (induction rule: list_all2_induct) (auto dest: block_of_length)
  with write_blocks_length [OF p(2)] gs(1) c show ?thesis by simp
qed

lemma table_bytes_not_None: "table_bytes es \<noteq> None"
proof -
  have "\<exists>b. add_keys (map te_Key es) (NewBloomFilter n) = Some b" for n
  proof (cases "NewBloomFilter n")
    case (Some f)
    from add_keys_ok [OF NewBloomFilter_ok [OF Some], of "map te_Key es"] Some show ?thesis by auto
  qed simp
  then obtain b where "add_keys (map te_Key es) (NewBloomFilter (int (length es))) = Some b" by blast
  then show ?thesis by (simp add: table_bytes_def split: sum.split option.split prod.split)
qed

text \<open>The table handle reads the entries \<open>es\<close>, unless a read fails.\<close>

definition table_holds :: "('s, 'h) fs_abs \<Rightarrow> 's \<Rightarrow> 'h tableHandle \<Rightarrow> TableEntry list \<Rightarrow> bool" where
  "table_holds A s t es \<longleftrightarrow> a_known A s (th_file t) \<and> (\<exists>R content gs. th_reader t = Some R \<and> a_holds A s (th_file t) content
     \<and> reads_table content gs es (R\<lparr>sr_r := file_ReadAt content\<rparr>))"

lemma table_holds_quiet:
  "quiet A dir s s' \<Longrightarrow> table_holds A s t es \<Longrightarrow> apart A dir s (th_file t) \<Longrightarrow> table_holds A s' t es \<and> apart A dir s' (th_file t)"
  unfolding quiet_def table_holds_def by blast

context file_system
begin

lemma new_table:
  assumes c: "op_Create F path s = (s1, Inr h)" "a_ok A s" and p: "path = path_Join [dir, fm_file md]" "Clean path \<noteq> manifest_path dir"
    and w: "sw_w w = Some s1" "\<not> sw_closed w" "writer_inv w" "Finish (file_sink F h) w = Some (w', None)" "sw_w w' = Some s2"
    and sy: "op_Sync F h s2 = (s3, None)" and cl: "op_Close F h s3 = (s4, None)" and sd: "op_SyncDir F dir s4 = (s5, None)"
    and op: "openTableOwned F dir md mx s5 = Some (s6, Some t, None)"
  shows "table_holds A s6 t (sw_entries w) \<and> apart A dir s6 (th_file t) \<and> quiet A dir s s6 \<and> sw_size w' \<le> max_int
    \<and> \<not> a_known A s (th_file t)"
proof -
  let ?es = "sw_entries w"
  from Create_ok [OF c] have k1: "a_known A s1 h" and fresh: "\<And>h'. a_known A s h' \<Longrightarrow> a_file A s h' \<noteq> a_file A s1 h"
    and nn: "a_named A s (manifest_path dir) \<noteq> Some (a_file A s1 h)" and n1: "a_named A s1 (Clean path) = Some (a_file A s1 h)"
    and b1: "a_bytes A s1 (a_file A s1 h) = []" and e1: "a_at_end A s1 h" and oth: "a_named A s1 (manifest_path dir) = a_named A s (manifest_path dir)"
    using p(2) by auto
  note f1 = Create_frame [OF c]
  note ok1 = frameD(1) [OF f1 c(2)]
  have ap1: "apart A dir s1 h" using nn oth by (simp add: apart_def)
  obtain content n where tb: "table_bytes ?es = Some (Inr content)" and wr: "op_Write F h content s1 = (s2, n, None)" "n = sw_size w'"
    using w by (auto simp: Finish_def Let_def file_sink_def split: option.splits sum.splits prod.splits if_splits)
  note f2 = Write_frame [OF wr(1) ok1 k1]
  note ok2 = frameD(1) [OF f2 ok1]
  note k2 = frameD(3) [OF f2 k1]
  from Write_ok [OF wr(1) ok1 k1 e1] b1 have n2: "a_named A s2 = a_named A s1" and b2: "a_bytes A s2 (a_file A s1 h) = content"
    and len: "length content \<le> max_int" "n = length content" by auto
  note q2 = quiet_frame_new [OF f1 f2, of dir]
  have q2: "quiet A dir s s2" using q2 fresh by auto
  note f3 = Sync_frame [OF sy ok2 k2]
  note ok3 = frameD(1) [OF f3 ok2]
  note k3 = frameD(3) [OF f3 k2]
  note f4 = Close_frame [OF cl ok3]
  note ok4 = frameD(1) [OF f4 ok3]
  note f5 = SyncDir_frame [OF sd ok4]
  note ok5 = frameD(1) [OF f5 ok4]
  note f25 = frame_trans [OF frame_trans [OF f3 f4] f5]
  have sf: "same_files A s2 s5"
    using Sync_ok [OF sy ok2 k2] Close_ok [OF cl ok3 k3] SyncDir_ok [OF sd ok4] by (auto simp: same_files_def)
  obtain sa info where st: "op_Stat F path s5 = (sa, Inr info)" "\<not> fi_IsDir info" "\<not> fi_Size info < 0"
    and fo: "op_Open F path sa = (s6, Inr (th_file t))"
    and rd: "OpenSSTable (Some (op_view F (th_file t) s6)) (fi_Size info) = Inr (the (th_reader t))" "th_reader t \<noteq> None"
    using op unfolding openTableOwned_def p(1)
    by (auto simp: Let_def split: prod.splits sum.splits if_splits option.splits)
  note f6 = Stat_frame [OF st(1) ok5]
  note ok6 = frameD(1) [OF f6 ok5]
  from Stat_ok [OF st(1) ok5] sf n1 n2 b2 have sz: "fi_Size info = int (length content)"
    and na: "a_named A sa (Clean path) = Some (a_file A s1 h)" and ba: "a_bytes A sa (a_file A s1 h) = content"
    by (auto simp: same_files_def)
  note f7 = Open_frame [OF fo ok6]
  from Open_ok [OF fo ok6] na ba have kt: "a_known A s6 (th_file t)" "a_file A s6 (th_file t) = a_file A s1 h" "a_holds A s6 (th_file t) content"
    by auto
  have "frame A {a_file A s1 h} s sa"
    by (rule frame_trans [OF frame_trans [OF frame_mono [OF f1] f2] frame_mono [OF frame_trans [OF f25 f6]]]) simp_all
  from frameD(3) [OF this, of "th_file t"] have nk: "\<not> a_known A s (th_file t)" using Open_ok [OF fo ok6] by blast
  note f26 = frame_trans [OF frame_trans [OF f25 f6] f7]
  have quiet: "quiet A dir s s6" by (rule quiet_trans [OF q2 quiet_frame [OF f26]])
  have "frame A {a_file A s1 h} s1 s6" by (rule frame_trans [OF f2 frame_mono [OF f26]]) simp
  from apart_frame [OF this k1 ap1] frameD(4) [OF this k1] have ap: "apart A dir s6 (th_file t)" by (simp add: apart_def kt(2))
  obtain R gs where R: "OpenSSTable (Some (file_ReadAt content)) (int (length content)) = Inr R" "reads_table content gs ?es R"
    using OpenSSTable_written [OF tb _ _ _ len(1)] table_bytes_count [OF tb] len(1) w(3) by (auto simp: writer_inv_def)
  have "the (th_reader t) = R\<lparr>sr_r := op_view F (th_file t) s6\<rparr>"
    using OpenSSTable_or_fails [OF holds_view [OF kt(3)], of "fi_Size info"] rd(1) R(1) sz by auto
  moreover have "sr_r R = file_ReadAt content" using R(2) by (simp add: reads_table_def)
  ultimately have "the (th_reader t)\<lparr>sr_r := file_ReadAt content\<rparr> = R" by simp
  then have "table_holds A s6 t ?es" unfolding table_holds_def using kt rd(2) R(2) by force
  with ap quiet wr(2) len nk show ?thesis by simp
qed

lemma openTableOwned_quiet:
  assumes "openTableOwned F d md mx s = Some (s', t, err)" "a_ok A s"
  shows "quiet A dir s s'"
proof -
  obtain s1 r where st: "op_Stat F (path_Join [d, fm_file md]) s = (s1, r)" by fastforce
  note q1 = quiet_frame [OF Stat_frame [OF st assms(2)], of dir]
  have q2: "quiet A dir s s2" if "op_Open F (path_Join [d, fm_file md]) s1 = (s2, x)" for s2 x
    by (rule quiet_trans [OF q1 quiet_frame [OF Open_frame [OF that quiet_ok [OF q1 assms(2)]]]])
  show ?thesis
    using assms(1) st q1 q2 by (auto simp: openTableOwned_def Let_def split: sum.splits if_splits prod.splits option.splits)
qed

end

text \<open>Reading an opened table does not panic.\<close>

lemma OpenSSTable_bloom: "OpenSSTable r n = Inr R \<Longrightarrow> \<exists>f. sr_bloom R = Some f \<and> bloom_ok f"
  by (auto simp: OpenSSTable_def open_blocks_def Let_def split: option.splits if_splits sum.splits dest: UnmarshalBloomFilter_ok)

lemma bloom_covers_Some: "bloom_ok f \<Longrightarrow> bloom_covers (Some f) es \<noteq> None"
  by (induction es) (auto simp: MayContain_iff split: bool.split)

lemma read_blocks_Some: "sr_bloom R = Some f \<Longrightarrow> bloom_ok f \<Longrightarrow> \<exists>x. read_blocks R ixs es = Some x"
proof (induction ixs arbitrary: es)
  case (Cons ix ixs)
  then show ?case by (auto simp: bloom_covers_Some split: sum.split option.split bool.split)
qed simp

lemma AllEntries_Some: "OpenSSTable r n = Inr R \<Longrightarrow> \<exists>x. AllEntries R = Some x"
  using OpenSSTable_bloom [of r n R] read_blocks_Some [of R] by (auto simp: AllEntries_def split: option.split sum.split)

lemma openTableOwned_Some: "\<exists>s' t err. openTableOwned F d md mx s = Some (s', t, err)"
  using AllEntries_Some by (auto simp: openTableOwned_def Let_def split: prod.split sum.split option.split) (metis option.distinct(1))+

end
