(* ===== verification/Lsm_Engine_Props.thy ===== *)
theory Lsm_Engine_Props
  imports Lsm_Engine_Files Disklog_Dir
begin

text \<open>
  Correctness of the storage engine, \<open>internal/lsm/engine.go\<close> and \<open>compaction.go\<close>: whatever errors and
  crashes the file system injects, the engine's memtables and tables together always have the newest
  version of every key that was written, and reads return it or report an error. Flushing and
  compaction never lose or change a version.
\<close>

section \<open>Sets of versions\<close>

text \<open>Every version has its own sequence number among the versions of its key.\<close>

definition coherent :: "TableEntry set \<Rightarrow> bool" where
  "coherent W \<longleftrightarrow> (\<forall>a \<in> W. \<forall>b \<in> W. te_Key a = te_Key b \<and> te_Seq a = te_Seq b \<longrightarrow> a = b) \<and> (\<forall>a \<in> W. normal_entry a)"

text \<open>\<open>E\<close> has the newest of the versions \<open>W\<close>.\<close>

definition covers :: "TableEntry set \<Rightarrow> TableEntry set \<Rightarrow> bool" where
  "covers W E \<longleftrightarrow> E \<subseteq> W \<and> (\<forall>w \<in> W. \<exists>e \<in> E. te_Key e = te_Key w \<and> te_Seq w \<le> te_Seq e)"

lemma covers_refl [simp]: "covers W W"
  by (auto simp: covers_def)

lemma covers_newest: "covers W E \<Longrightarrow> is_newest E key v \<Longrightarrow> is_newest W key v"
proof (cases v)
  case (Some e)
  assume c: "covers W E" and n: "is_newest E key v"
  have "te_Seq w \<le> te_Seq e" if w: "w \<in> W" "te_Key w = key" for w
  proof -
    obtain x where "x \<in> E" "te_Key x = te_Key w" "te_Seq w \<le> te_Seq x" using c w(1) by (auto simp: covers_def)
    with n Some w(2) show ?thesis by (auto simp: is_newest_def intro: order_trans)
  qed
  with c n Some show ?thesis by (auto simp: is_newest_def covers_def)
next
  case None
  assume "covers W E" "is_newest E key v"
  with None show ?thesis by (auto simp: is_newest_def covers_def)
qed

lemma covers_swap:
  assumes "covers W (E \<union> D)" "D' \<subseteq> D" "\<forall>d \<in> D. \<exists>x \<in> D'. te_Key x = te_Key d \<and> te_Seq d \<le> te_Seq x"
  shows "covers W (E \<union> D')"
proof -
  have "\<exists>e \<in> E \<union> D'. te_Key e = te_Key w \<and> te_Seq w \<le> te_Seq e" if w: "w \<in> W" for w
  proof -
    obtain e where e: "e \<in> E \<union> D" "te_Key e = te_Key w" "te_Seq w \<le> te_Seq e" using assms(1) w unfolding covers_def by blast
    show ?thesis
    proof (cases "e \<in> E")
      case False
      then obtain x where "x \<in> D'" "te_Key x = te_Key e" "te_Seq e \<le> te_Seq x" using e(1) assms(3) by blast
      with e show ?thesis by (metis UnI2 order_trans)
    qed (use e in blast)
  qed
  with assms(1,2) show ?thesis by (auto simp: covers_def)
qed

lemma covers_insert:
  assumes "covers W (E \<union> D)" "D' \<subseteq> insert x D" "x \<in> D' \<or> (\<exists>d \<in> D'. te_Key d = te_Key x \<and> te_Seq x \<le> te_Seq d)"
    and "\<forall>d \<in> D. \<exists>y \<in> D'. te_Key y = te_Key d \<and> te_Seq d \<le> te_Seq y"
  shows "covers (insert x W) (E \<union> D')"
proof -
  have "\<exists>e \<in> E \<union> D'. te_Key e = te_Key w \<and> te_Seq w \<le> te_Seq e" if w: "w \<in> W" for w
  proof -
    obtain e where e: "e \<in> E \<union> D" "te_Key e = te_Key w" "te_Seq w \<le> te_Seq e" using assms(1) w unfolding covers_def by blast
    show ?thesis
    proof (cases "e \<in> E")
      case False
      then obtain y where "y \<in> D'" "te_Key y = te_Key e" "te_Seq e \<le> te_Seq y" using e(1) assms(4) by blast
      with e show ?thesis by (metis UnI2 order_trans)
    qed (use e in blast)
  qed
  with assms(1-3) show ?thesis by (auto simp: covers_def)
qed

definition version_of :: "TableEntry \<Rightarrow> version" where
  "version_of e = (te_Value e, te_Tombstone e, te_Seq e)"

lemma is_newest_Un:
  assumes "is_newest P key b" "is_newest Q key c"
  shows "is_newest (P \<union> Q) key (case (b, c) of (None, _) \<Rightarrow> c | (Some x, None) \<Rightarrow> b | (Some x, Some y) \<Rightarrow> if te_Seq y > te_Seq x then c else b)"
  using assms by (auto simp: is_newest_def split: option.splits)

lemma consider_ok:
  assumes "coherent W" "P \<union> Q \<subseteq> W" "is_newest P key b" "is_newest Q key c"
  shows "\<exists>v. consider_version (map_option version_of c) (map_option version_of b) = Inr (map_option version_of v) \<and> is_newest (P \<union> Q) key v"
proof -
  have same: "version_of x = version_of y" if "b = Some x" "c = Some y" "te_Seq x = te_Seq y" for x y
  proof -
    have "x \<in> W" "y \<in> W" "te_Key x = te_Key y" using assms(2,3,4) that(1,2) by (auto simp: is_newest_def)
    then have "x = y" using assms(1) that(3) unfolding coherent_def by blast
    then show ?thesis by simp
  qed
  note U = is_newest_Un [OF assms(3,4)]
  show ?thesis
  proof (cases b)
    case None
    then show ?thesis using U by (intro exI [of _ c]) (simp add: consider_version_def split: option.split)
  next
    case (Some x)
    show ?thesis
    proof (cases c)
      case None
      then show ?thesis using U Some by (intro exI [of _ b]) (simp add: consider_version_def)
    next
      case c: (Some y)
      show ?thesis
        using U Some c same [OF Some c]
        by (intro exI [of _ "if te_Seq y > te_Seq x then c else b"]) (auto simp: consider_version_def version_of_def)
    qed
  qed
qed

section \<open>The invariant\<close>

definition mem_entries :: "'h Engine \<Rightarrow> TableEntry set" where
  "mem_entries e = set (skip_entries (en_list e)) \<union> (\<Union>im \<in> set (en_immutables e). set (skip_entries (im_list im)))"

definition tables_ok :: "('s, 'h) fs_abs \<Rightarrow> 's \<Rightarrow> 'h Engine \<Rightarrow> ('h tableHandle \<Rightarrow> TableEntry list) \<Rightarrow> bool" where
  "tables_ok A s e g \<longleftrightarrow> (\<forall>t \<in> set (en_tables e). table_holds A s t (g t) \<and> apart A (en_dir e) s (th_file t))"

definition eng_ok :: "('s, 'h) fs_abs \<Rightarrow> TableEntry set \<Rightarrow> 'h Engine \<Rightarrow> 's \<Rightarrow> bool" where
  "eng_ok A W e s \<longleftrightarrow> a_ok A s \<and> skip_inv (en_list e) \<and> (\<forall>im \<in> set (en_immutables e). skip_inv (im_list im))
     \<and> (\<exists>g. tables_ok A s e g \<and> covers W (mem_entries e \<union> (\<Union>t \<in> set (en_tables e). set (g t))))"

lemma eng_okE:
  assumes "eng_ok A W e s"
  obtains g where "a_ok A s" "skip_inv (en_list e)" "\<forall>im \<in> set (en_immutables e). skip_inv (im_list im)" "tables_ok A s e g"
    "covers W (mem_entries e \<union> (\<Union>t \<in> set (en_tables e). set (g t)))"
  using assms unfolding eng_ok_def by blast

lemma tables_ok_quiet: "quiet A (en_dir e) s s' \<Longrightarrow> tables_ok A s e g \<Longrightarrow> tables_ok A s' e g"
  unfolding tables_ok_def using table_holds_quiet [of A "en_dir e" s s'] by blast

lemma eng_ok_quiet:
  assumes "eng_ok A W e s" "quiet A (en_dir e) s s'" "same_data e e'"
  shows "eng_ok A W e' s'"
proof -
  from assms(1) obtain g where g: "a_ok A s" "skip_inv (en_list e)" "\<forall>im \<in> set (en_immutables e). skip_inv (im_list im)" "tables_ok A s e g"
    "covers W (mem_entries e \<union> (\<Union>t \<in> set (en_tables e). set (g t)))" by (rule eng_okE)
  have "tables_ok A s' e' g" using tables_ok_quiet [OF assms(2) g(4)] assms(3) by (simp add: tables_ok_def same_data_def)
  with g quiet_ok [OF assms(2) g(1)] assms(3) show ?thesis
    unfolding eng_ok_def same_data_def mem_entries_def by auto
qed

section \<open>Reads\<close>

lemma sorted_keys_entries: "sorted_keys es \<Longrightarrow> sorted_entries es"
  by (rule sorted_wrt_mono_rel) (auto simp: entry_less_def)

lemma skip_newest: "skip_inv l \<Longrightarrow> is_newest (set (skip_entries l)) key (newest key (skip_entries l))"
  by (intro newest_sorted sorted_keys_entries skip.entries_sorted)

lemma sl_get_version: "skip_inv l \<Longrightarrow> sl_get key l = Some (map_option version_of (newest key (skip_entries l)))"
  by (simp add: skip.lookup_ok version_of_def [abs_def])

lemma lookup_memtables_ok:
  assumes "coherent W" "\<forall>l \<in> set ls. skip_inv l \<and> set (skip_entries l) \<subseteq> W" "P \<subseteq> W" "is_newest P key b"
  shows "\<exists>v. lookup_memtables key ls (map_option version_of b) = Some (Inr (map_option version_of v))
    \<and> is_newest (P \<union> (\<Union>l \<in> set ls. set (skip_entries l))) key v"
  using assms(2-)
proof (induction ls arbitrary: P b)
  case (Cons l ls)
  have l: "skip_inv l" "set (skip_entries l) \<subseteq> W" using Cons.prems by auto
  obtain v where v: "consider_version (map_option version_of (newest key (skip_entries l))) (map_option version_of b) = Inr (map_option version_of v)"
    "is_newest (P \<union> set (skip_entries l)) key v"
    using consider_ok [OF assms(1) _ Cons.prems(3) skip_newest [OF l(1)]] l(2) Cons.prems(2) by blast
  have "P \<union> set (skip_entries l) \<subseteq> W" using l(2) Cons.prems(2) by blast
  from Cons.IH [OF _ this v(2)] Cons.prems(1) v(1) sl_get_version [OF l(1)] show ?case by (simp add: Un_assoc)
qed auto

context file_system
begin

lemma table_get:
  assumes "table_holds A s t es"
  shows "\<exists>reader. table_reader F s t = Some reader \<and>
    ((\<exists>err. reader_get reader key bloom = Some (Inl err)) \<or> reader_get reader key bloom = Some (Inr (newest key es)))"
proof -
  obtain R content gs where R: "th_reader t = Some R" "a_holds A s (th_file t) content" "reads_table content gs es (R\<lparr>sr_r := file_ReadAt content\<rparr>)"
    using assms by (auto simp: table_holds_def)
  from reader_get_or_fails [OF holds_view [OF R(2)], of R key bloom] reader_get_ok [OF R(3)] R(1) show ?thesis
    by (auto simp: table_reader_def)
qed

lemma table_sorted: "table_holds A s t es \<Longrightarrow> sorted_entries es \<and> (\<forall>e \<in> set es. normal_entry e)"
  by (auto simp: table_holds_def reads_table_def)

lemma lookup_tables_ok:
  assumes "coherent W" "\<forall>t \<in> set ts. table_holds A s t (g t) \<and> set (g t) \<subseteq> W" "P \<subseteq> W" "is_newest P key b"
  shows "(\<exists>err. lookup_tables F s bloom key ts (map_option version_of b) = Some (Inl (SstFailed err)))
    \<or> (\<exists>v. lookup_tables F s bloom key ts (map_option version_of b) = Some (Inr (map_option version_of v))
          \<and> is_newest (P \<union> (\<Union>t \<in> set ts. set (g t))) key v)"
  using assms(2-)
proof (induction ts arbitrary: P b)
  case (Cons t ts)
  have t: "table_holds A s t (g t)" "set (g t) \<subseteq> W" using Cons.prems by auto
  obtain reader where r: "table_reader F s t = Some reader"
    "(\<exists>err. reader_get reader key bloom = Some (Inl err)) \<or> reader_get reader key bloom = Some (Inr (newest key (g t)))"
    using table_get [OF t(1)] by blast
  show ?case
  proof (cases "\<exists>err. reader_get reader key bloom = Some (Inl err)")
    case False
    then have get: "reader_get reader key bloom = Some (Inr (newest key (g t)))" using r(2) by blast
    obtain v where v: "consider_version (map_option version_of (newest key (g t))) (map_option version_of b) = Inr (map_option version_of v)"
      "is_newest (P \<union> set (g t)) key v"
      using consider_ok [OF assms(1) _ Cons.prems(3) newest_sorted [OF conjunct1 [OF table_sorted [OF t(1)]]]] t(2) Cons.prems(2) by blast
    have "P \<union> set (g t) \<subseteq> W" using t(2) Cons.prems(2) by blast
    from Cons.IH [OF _ this v(2)] Cons.prems(1) v(1) r(1) get show ?thesis by (simp add: Un_assoc version_of_def [abs_def])
  qed (use r(1) in auto)
qed auto

lemma lookupLocked_ok:
  assumes "eng_ok A W e s" "coherent W"
  shows "(en_closed e \<and> lookupLocked F key e s = Some (Inl EngineClosed)) \<or> (\<exists>err. lookupLocked F key e s = Some (Inl (SstFailed err)))
    \<or> (\<exists>v. lookupLocked F key e s = Some (Inr (map_option version_of v)) \<and> is_newest W key v)"
proof (cases "en_closed e")
  case True
  then show ?thesis by (simp add: lookupLocked_def)
next
  case False
  from assms(1) obtain g where g: "skip_inv (en_list e)" "\<forall>im \<in> set (en_immutables e). skip_inv (im_list im)" "tables_ok A s e g"
    "covers W (mem_entries e \<union> (\<Union>t \<in> set (en_tables e). set (g t)))" by (rule eng_okE)
  let ?ls = "en_list e # map im_list (en_immutables e)"
  have mem: "mem_entries e = (\<Union>l \<in> set ?ls. set (skip_entries l))" by (auto simp: mem_entries_def)
  have sub: "mem_entries e \<subseteq> W" "\<forall>t \<in> set (en_tables e). set (g t) \<subseteq> W" using g(4) by (auto simp: covers_def)
  have "\<forall>l \<in> set ?ls. skip_inv l \<and> set (skip_entries l) \<subseteq> W" using g(1,2) sub(1) mem by auto
  from lookup_memtables_ok [OF assms(2) this, of "{}" key None] obtain b where
    b: "lookup_memtables key ?ls None = Some (Inr (map_option version_of b))" "is_newest (mem_entries e) key b"
    unfolding mem by (auto simp: is_newest_def)
  have "\<forall>t \<in> set (en_tables e). table_holds A s t (g t) \<and> set (g t) \<subseteq> W" using g(3) sub(2) by (simp add: tables_ok_def)
  from lookup_tables_ok [OF assms(2) this sub(1) b(2), of "en_readWithBloom e"] b(1) False covers_newest [OF g(4)] show ?thesis
    by (auto simp: lookupLocked_def)
qed

end

section \<open>Writes to the memtable\<close>

lemma put_entries_cover:
  assumes "sorted_keys es" "(es', r) = put_entries x es" "covers W (E \<union> set es)"
  shows "covers (insert x W) (E \<union> set es')"
proof (cases "newest (te_Key x) es")
  case None
  then have es': "es' = upsert x es" using assms(2) by (simp add: put_entries_def)
  from None have "te_Key x \<notin> te_Key ` set es" by (simp add: newest_None)
  with es' have "set es' = insert x (set es)" by (auto simp: upsert_def)
  then show ?thesis by (intro covers_insert [OF assms(3)]) auto
next
  case (Some old)
  have old: "old \<in> set es" "te_Key old = te_Key x" "\<forall>d \<in> set es. te_Key d = te_Key x \<longrightarrow> te_Seq d \<le> te_Seq old"
    using newest_sorted [OF sorted_keys_entries [OF assms(1)], of "te_Key x"] Some by (auto simp: is_newest_def)
  show ?thesis
  proof (cases "te_Seq x \<le> te_Seq old")
    case True
    then have "es' = es" using assms(2) Some by (simp add: put_entries_def)
    with True old show ?thesis by (intro covers_insert [OF assms(3)]) auto
  next
    case False
    then have "es' = upsert x es" using assms(2) Some by (simp add: put_entries_def)
    then have s: "set es' = insert x {d \<in> set es. te_Key d \<noteq> te_Key x}" by (auto simp: upsert_def)
    have "\<exists>y \<in> set es'. te_Key y = te_Key d \<and> te_Seq d \<le> te_Seq y" if "d \<in> set es" for d
      using that old(3) False unfolding s by (cases "te_Key d = te_Key x") (auto intro: order_trans)
    then show ?thesis using s by (intro covers_insert [OF assms(3)]) auto
  qed
qed

lemma putActiveLocked_ok:
  assumes "eng_ok A W e s"
  shows "\<exists>e' r. putActiveLocked key v tb seq e = Some (e', r)
    \<and> eng_ok A (insert \<lparr>te_Key = key, te_Seq = seq, te_Value = v, te_Tombstone = tb\<rparr> W) e' s
    \<and> en_closed e' = en_closed e \<and> en_dir e' = en_dir e \<and> en_poisoned e' = en_poisoned e"
proof -
  let ?x = "\<lparr>te_Key = key, te_Seq = seq, te_Value = v, te_Tombstone = tb\<rparr>"
  from assms obtain g where g: "a_ok A s" "skip_inv (en_list e)" "\<forall>im \<in> set (en_immutables e). skip_inv (im_list im)" "tables_ok A s e g"
    "covers W (mem_entries e \<union> (\<Union>t \<in> set (en_tables e). set (g t)))" by (rule eng_okE)
  let ?E = "(\<Union>im \<in> set (en_immutables e). set (skip_entries (im_list im))) \<union> (\<Union>t \<in> set (en_tables e). set (g t))"
  obtain l r where l: "sl_put (en_rnd e) key v tb seq (en_list e) = Some (l, r)" "skip_inv l"
    "(skip_entries l, r) = put_entries ?x (skip_entries (en_list e))" using skip.store_ok [OF g(2)] by blast
  have cov: "covers (insert ?x W) (?E \<union> set (skip_entries l))"
    using put_entries_cover [OF skip.entries_sorted [OF g(2)] l(3), of W ?E] g(5) by (simp add: mem_entries_def Un_ac)
  note get = sl_get_version [OF g(2), of key]
  have ok: "eng_ok A (insert ?x W) e' s"
    if "en_list e' = l" "en_immutables e' = en_immutables e" "en_tables e' = en_tables e" "en_dir e' = en_dir e" for e'
    using that g cov l(2) unfolding eng_ok_def tables_ok_def mem_entries_def by (auto simp: Un_ac)
  show ?thesis
  proof (cases "newest key (skip_entries (en_list e))")
    case None
    then have "r" using l(3) by (auto simp: put_entries_def)
    then show ?thesis using None get l(1) ok by (auto simp: putActiveLocked_def Let_def)
  next
    case (Some old)
    show ?thesis
    proof (cases "seq \<le> te_Seq old")
      case True
      then have "set (skip_entries l) = set (skip_entries (en_list e))" using l(3) Some by (auto simp: put_entries_def)
      then have "eng_ok A (insert ?x W) e s" using g cov unfolding eng_ok_def mem_entries_def by (auto simp: Un_ac)
      then show ?thesis using True Some get by (auto simp: putActiveLocked_def version_of_def)
    next
      case False
      then have "r" using l(3) Some by (auto simp: put_entries_def)
      then show ?thesis using False Some get l(1) ok by (auto simp: putActiveLocked_def Let_def version_of_def)
    qed
  qed
qed

section \<open>Flushing the oldest memtable\<close>

lemma table_name_plain: "plain_name (table_name n)" "table_name n \<noteq> manifestFilename"
proof -
  have "drop (length (table_name n) - 4) (table_name n) = sstableFilenameSuffix"
    by (simp add: table_name_def Let_def sstableFilenameSuffix_def)
  then show "table_name n \<noteq> manifestFilename" by (auto simp: manifestFilename_def sstableFilenameSuffix_def)
  have "is_digit (digit 0)" "\<not> is_digit slash" by (simp_all add: is_digit_def digit_def)
  then have "slash \<notin> set (table_name n)"
    using decimal_digits [of "unat n"] by (auto simp: table_name_def Let_def sstableFilenameSuffix_def list_all_iff)
  moreover have "length (table_name n) \<ge> 4" by (simp add: table_name_def Let_def sstableFilenameSuffix_def)
  ultimately show "plain_name (table_name n)" by (auto simp: plain_name_def)
qed

lemma table_path_apart: "Clean (path_Join [dir, table_name n]) \<noteq> manifest_path dir"
proof -
  have m: "plain_name manifestFilename" by (simp add: plain_name_def manifestFilename_def)
  show ?thesis
  proof (cases "dir = []")
    case True
    then show ?thesis using m table_name_plain [of n] Clean_plain by (auto simp: manifest_path_def path_Join_def plain_name_def)
  next
    case False
    then show ?thesis using Join_inject [OF False table_name_plain(1) m] table_name_plain(2) by (auto simp: manifest_path_def)
  qed
qed

lemma each_flush_entry:
  "add_entries es w = Inr w' \<Longrightarrow> \<exists>fk lk. each_entry flush_entry es (firstKey, lastKey, cnt, w, None) = (fk, lk, cnt + of_nat (length es), w', None)"
proof (induction es arbitrary: firstKey lastKey cnt w)
  case (Cons x es)
  then obtain w1 where w1: "writer_Add x w = Inr w1" "add_entries es w1 = Inr w'" by (auto split: sum.splits)
  have te: "\<lparr>te_Key = te_Key x, te_Seq = te_Seq x, te_Value = te_Value x, te_Tombstone = te_Tombstone x\<rparr> = x" by simp
  have "flush_entry (te_Key x) (te_Value x) (te_Tombstone x) (te_Seq x) (firstKey, lastKey, cnt, w, None)
    = ((if cnt = 0 then te_Key x else firstKey, te_Key x, cnt + 1, w1, None), True)" using w1(1) by (simp add: flush_entry_def Let_def te)
  with Cons.IH [OF w1(2), of "if cnt = 0 then te_Key x else firstKey" "te_Key x" "cnt + 1"] show ?case by (simp add: add.assoc)
qed simp

lemma errors_Join_None [simp]: "errors_Join [] = None" "errors_Join (None # es) = errors_Join es" "errors_Join (Some err # es) \<noteq> None"
  "\<exists>y. errors_Join (Some err # es) = Some y"
  by (simp_all add: errors_Join_def List.map_filter_def)

lemma openTableOwned_error: "openTableOwned F d md mx s = Some (s', None, err) \<Longrightarrow> err \<noteq> None"
  by (auto simp: openTableOwned_def Let_def split: prod.splits sum.splits if_splits option.splits)

context file_system
begin

lemma Finish_quiet:
  assumes "op_Create F path s = (s1, Inr h)" "a_ok A s" "sw_w w = Some s1" "\<not> sw_closed w"
  shows "\<exists>w' err s2. Finish (file_sink F h) w = Some (w', err) \<and> sw_w w' = Some s2 \<and> quiet A dir s s2 \<and> a_known A s2 h
    \<and> (err = None \<longrightarrow> sw_size w' \<le> max_int)"
proof -
  note f1 = Create_frame [OF assms(1,2)]
  from Create_ok [OF assms(1,2)] have k: "a_known A s1 h" "a_at_end A s1 h"
    and fresh: "\<And>h'. a_known A s h' \<Longrightarrow> a_file A s h' \<noteq> a_file A s1 h" by auto
  obtain r where tb: "table_bytes (sw_entries w) = Some r" using table_bytes_not_None [of "sw_entries w"] by blast
  show ?thesis
  proof (cases r)
    case (Inl err)
    then show ?thesis using assms(3,4) tb k quiet_frame [OF f1] by (auto simp: Finish_def)
  next
    case (Inr content)
    obtain s2 n e where w: "op_Write F h content s1 = (s2, n, e)" by (metis prod_cases3)
    note ok1 = frameD(1) [OF f1 assms(2)]
    note f2 = Write_frame [OF w ok1 k(1)]
    have "quiet A dir s s2" using quiet_frame_new [OF f1 f2] fresh by auto
    moreover have "n \<le> max_int" if "e = None" using Write_ok [OF w [unfolded that] ok1 k] by auto
    ultimately show ?thesis using assms(3,4) tb Inr w frameD(3) [OF f2 k(1)] by (auto simp: Finish_def file_sink_def Let_def)
  qed
qed

lemma openTable_cases:
  assumes "a_ok A s"
  shows "(\<exists>e' s' err. openTable F md mx e s = Some (e', s', Inl err) \<and> err \<noteq> None \<and> quiet A dir s s' \<and> same_data e e')
    \<or> (\<exists>s' t. openTable F md mx e s = Some (e, s', Inr t) \<and> openTableOwned F (en_dir e) md mx s = Some (s', Some t, None))"
proof -
  obtain s1 t err where o: "openTableOwned F (en_dir e) md mx s = Some (s1, t, err)" using openTableOwned_Some [of F "en_dir e" md mx s] by blast
  note q = openTableOwned_quiet [OF o assms, of dir]
  show ?thesis
  proof (cases t)
    case None
    then show ?thesis using o q openTableOwned_error [of F "en_dir e" md mx s s1 err] by (auto simp: openTable_def)
  next
    case t: (Some t')
    show ?thesis
    proof (cases err)
      case (Some x)
      obtain e2 s2 ce where c: "closeFileRetainingLocked F (Some (th_file t')) e s1 = (e2, s2, ce)" by (metis prod_cases3)
      from closeFileRetainingLocked_quiet [OF c quiet_ok [OF q assms], of dir] have "quiet A dir s s2 \<and> same_data e e2"
        using quiet_trans [OF q] by blast
      then show ?thesis using o t Some c by (auto simp: openTable_def)
    qed (use o t in \<open>auto simp: openTable_def\<close>)
  qed
qed

end

lemma tableSizeClass_Some: "n \<le> max_int \<Longrightarrow> \<exists>c. tableSizeClass (int n) = Some c"
  using size_class_loop_correct [of 1 "int n"] wrap_int64_id [of 16384]
  by (auto simp: tableSizeClass_def sizeClassBaseBytes_def dataBlockTarget_def sizeClassGrowth_def max_int64_def max_int_def)

text \<open>The operation fails and leaves the contents as they were.\<close>

definition left_alone :: "('s, 'h) fs_abs \<Rightarrow> 'h Engine \<Rightarrow> 's \<Rightarrow> ('h Engine \<times> 's \<times> lsm_error option) option \<Rightarrow> bool" where
  "left_alone A e s x \<longleftrightarrow> (\<exists>e' s' err. x = Some (e', s', err) \<and> err \<noteq> None \<and> quiet A (en_dir e) s s' \<and> same_data e e')"

text \<open>The end of a flush, when the table is written and open, and when it is written.\<close>

definition commit_flush :: "('s, 'h) FS \<Rightarrow> (VersionEdit \<Rightarrow> bytes option) \<Rightarrow> VersionEdit \<Rightarrow> 'h tableHandle \<Rightarrow> 'h Engine \<Rightarrow> 's
    \<Rightarrow> ('h Engine \<times> 's \<times> lsm_error option) option" where
  "commit_flush F marshal edit table e s =
     (case commitEditLocked F marshal edit (Some table) e s of
        (e, s, committed, err) \<Rightarrow>
          if \<not> committed then Some (e, s, err)
          else (let e = e\<lparr>en_completedFlushes := en_completedFlushes e + 1, en_immutables := tl (en_immutables e)\<rparr>
                in if err = None \<and> \<not> en_disableAutoCompaction e then compactAllLocked F marshal e s else Some (e, s, err)))"

definition finish_flush :: "('s, 'h) FS \<Rightarrow> (VersionEdit \<Rightarrow> bytes option) \<Rightarrow> 'h \<Rightarrow> string \<Rightarrow> bytes \<Rightarrow> bytes \<Rightarrow> u64 \<Rightarrow> u64 \<Rightarrow> nat \<Rightarrow> 'h Engine \<Rightarrow> 's
    \<Rightarrow> ('h Engine \<times> 's \<times> lsm_error option) option" where
  "finish_flush F marshal h filename fk lk cnt watermark n e s =
     (case op_Sync F h s of
        (s, Some err) \<Rightarrow> (case closeFileRetainingLocked F (Some h) e s of (e, s, closeErr) \<Rightarrow> Some (e, s, errors_Join [Some (FsFailed err), closeErr]))
      | (s, None) \<Rightarrow>
     (case closeFileRetainingLocked F (Some h) e s of
        (e, s, Some err) \<Rightarrow> Some (e, s, Some err)
      | (e, s, None) \<Rightarrow>
     (case op_SyncDir F (en_dir e) s of
        (s, Some err) \<Rightarrow> Some (e, s, Some (FsFailed err))
      | (s, None) \<Rightarrow>
     (case tableSizeClass (int n) of
        None \<Rightarrow> None
      | Some tier \<Rightarrow>
          (let metadata = \<lparr>fm_tier = tier, fm_file = filename, fm_minKey = fk, fm_maxKey = lk, fm_count = cnt\<rparr>
           in case openTable F metadata watermark e s of
                None \<Rightarrow> None
              | Some (e, s, Inl err) \<Rightarrow> Some (e, s, err)
              | Some (e, s, Inr table) \<Rightarrow>
                  commit_flush F marshal \<lparr>ve_AddedFiles = [Some (metadata_proto metadata)], ve_RemovedFiles = [], ve_FlushedIndex = watermark\<rparr> table e s)))))"

lemma flush_writer:
  assumes "skip_inv l" "\<forall>x \<in> set (skip_entries l). normal_entry x"
  shows "\<exists>fk lk c w. forEach flush_entry l ([], [], 0, NewSSTableWriter (Some s), None) = Some (fk, lk, c, w, None)
    \<and> writer_inv w \<and> sw_entries w = skip_entries l \<and> sw_w w = Some s \<and> \<not> sw_closed w"
proof -
  from add_entries_accepts [OF writer_inv_New [of "Some s"] _ _ _ assms(2)] sorted_keys_entries [OF skip.entries_sorted [OF assms(1)]]
  obtain w where w: "add_entries (skip_entries l) (NewSSTableWriter (Some s)) = Inr w" "writer_inv w" "sw_entries w = skip_entries l" "sw_w w = Some s" "\<not> sw_closed w"
    by (auto simp: NewSSTableWriter_def)
  from each_flush_entry [OF w(1), of "[]" "[]" 0] w show ?thesis unfolding skip_forEach [OF assms(1)] by auto
qed

context file_system
begin

lemma close_left_alone:
  assumes "same_data e e1" "quiet A (en_dir e) s s1" "a_ok A s"
  shows "left_alone A e s (case closeFileRetainingLocked F h e1 s1 of (e', s', closeErr) \<Rightarrow> Some (e', s', errors_Join [Some cause, closeErr]))"
proof -
  obtain e2 s2 ce where c: "closeFileRetainingLocked F h e1 s1 = (e2, s2, ce)" by (metis prod_cases3)
  from closeFileRetainingLocked_quiet [OF c quiet_ok [OF assms(2,3)], of "en_dir e"] show ?thesis
    using c quiet_trans [OF assms(2)] same_data_trans [OF assms(1)] by (auto simp: left_alone_def)
qed

lemma finish_flush_cases:
  assumes c: "op_Create F (path_Join [en_dir e, table_name k]) s = (s1, Inr h)" "a_ok A s"
    and w: "writer_inv w" "sw_w w = Some s1" "\<not> sw_closed w"
    and f: "Finish (file_sink F h) w = Some (w', None)" "sw_w w' = Some s2" "quiet A (en_dir e) s s2" "a_known A s2 h" "sw_size w' \<le> max_int"
    and e: "same_data e e1"
  shows "left_alone A e s (finish_flush F marshal h (table_name k) fk lk n wm (sw_size w') e1 s2)
    \<or> (\<exists>s' t edit. finish_flush F marshal h (table_name k) fk lk n wm (sw_size w') e1 s2 = commit_flush F marshal edit t e1 s'
         \<and> quiet A (en_dir e) s s' \<and> table_holds A s' t (sw_entries w) \<and> apart A (en_dir e) s' (th_file t) \<and> \<not> a_known A s (th_file t))"
proof -
  have dir: "en_dir e1 = en_dir e" using e by (simp add: same_data_def)
  obtain s3 e3 where sy: "op_Sync F h s2 = (s3, e3)" by fastforce
  note q3 = quiet_trans [OF f(3) Sync_quiet [OF sy quiet_ok [OF f(3) c(2)] f(4)]]
  obtain s4 e4 where cl: "op_Close F h s3 = (s4, e4)" by fastforce
  note q4 = quiet_trans [OF q3 Close_quiet [OF cl quiet_ok [OF q3 c(2)]]]
  obtain s5 e5 where sd: "op_SyncDir F (en_dir e) s4 = (s5, e5)" by fastforce
  note q5 = quiet_trans [OF q4 quiet_frame [OF SyncDir_frame [OF sd quiet_ok [OF q4 c(2)]]]]
  obtain tier where tier: "tableSizeClass (int (sw_size w')) = Some tier" using tableSizeClass_Some [OF f(5)] by blast
  let ?md = "\<lparr>fm_tier = tier, fm_file = table_name k, fm_minKey = fk, fm_maxKey = lk, fm_count = n\<rparr>"
  note simps = finish_flush_def sy cl sd tier dir closeFileRetainingLocked_def [of F "Some h" e1 s3]
  consider "e3 \<noteq> None" | "e3 = None" "e4 \<noteq> None" | "e3 = None" "e4 = None" "e5 \<noteq> None" | "e3 = None" "e4 = None" "e5 = None" by blast
  then show ?thesis
  proof cases
    case 1
    then show ?thesis using close_left_alone [OF e q3 c(2)] by (auto simp: finish_flush_def sy)
  next
    case 2
    then show ?thesis using q4 same_data_trans [OF e] by (auto simp: simps left_alone_def)
  next
    case 3
    then show ?thesis using q5 e by (auto simp: simps left_alone_def still_open_def)
  next
    case 4
    from openTable_cases [OF quiet_ok [OF q5 c(2)], of ?md wm e1 "en_dir e"] show ?thesis
    proof (elim disjE exE conjE)
      fix e6 s6 err
      assume "openTable F ?md wm e1 s5 = Some (e6, s6, Inl err)" "err \<noteq> None" "quiet A (en_dir e) s5 s6" "same_data e1 e6"
      then show ?thesis using 4 quiet_trans [OF q5] same_data_trans [OF e] by (auto simp: simps left_alone_def still_open_def)
    next
      fix s6 t
      assume o: "openTable F ?md wm e1 s5 = Some (e1, s6, Inr t)" "openTableOwned F (en_dir e1) ?md wm s5 = Some (s6, Some t, None)"
      from new_table [OF c _ table_path_apart w(2,3,1) f(1,2) sy [unfolded 4] cl [unfolded 4] sd [unfolded 4] o(2) [unfolded dir]] o(1) 4
      show ?thesis by (auto simp: simps still_open_def)
    qed
  qed
qed

lemma flushOldestLocked_cases:
  assumes im: "en_immutables e = im # ims" "skip_inv (im_list im)" "\<forall>x \<in> set (skip_entries (im_list im)). normal_entry x" and ok: "a_ok A s"
  shows "left_alone A e s (flushOldestLocked F marshal e s)
    \<or> (\<exists>e1 s1 t edit. flushOldestLocked F marshal e s = commit_flush F marshal edit t e1 s1 \<and> quiet A (en_dir e) s s1 \<and> same_data e e1
         \<and> table_holds A s1 t (skip_entries (im_list im)) \<and> apart A (en_dir e) s1 (th_file t) \<and> \<not> a_known A s (th_file t))"
proof (cases "im_count im = 0 \<or> im_maxSeq im > im_watermark im \<or> en_nextFileNumber e = 0 \<or> en_nextFileNumber e = - 1")
  case True
  then show ?thesis using im(1) by (auto simp: flushOldestLocked_def allocateFilenameLocked_def left_alone_def)
next
  case False
  let ?e = "e\<lparr>en_nextFileNumber := en_nextFileNumber e + 1\<rparr>" and ?name = "table_name (en_nextFileNumber e)"
  let ?path = "path_Join [en_dir e, ?name]"
  note flush = flushOldestLocked_def [of F marshal e s] allocateFilenameLocked_def
  obtain s1 r where c: "op_Create F ?path s = (s1, r)" by fastforce
  show ?thesis
  proof (cases r)
    case (Inl err)
    then show ?thesis using False im(1) c quiet_frame [OF Create_frame [OF c ok]] by (auto simp: flush left_alone_def)
  next
    case (Inr h)
    note c = c [unfolded Inr]
    obtain fk lk n w where w: "forEach flush_entry (im_list im) ([], [], 0, NewSSTableWriter (Some s1), None) = Some (fk, lk, n, w, None)"
      "writer_inv w" "sw_entries w = skip_entries (im_list im)" "sw_w w = Some s1" "\<not> sw_closed w" using flush_writer [OF im(2,3), of s1] by blast
    obtain w' ferr s2 where f: "Finish (file_sink F h) w = Some (w', ferr)" "sw_w w' = Some s2" "quiet A (en_dir e) s s2" "a_known A s2 h"
      "ferr = None \<longrightarrow> sw_size w' \<le> max_int" using Finish_quiet [OF c ok w(4,5), of "en_dir e"] by blast
    have eq: "flushOldestLocked F marshal e s = (case ferr of
        Some err \<Rightarrow> (case closeFileRetainingLocked F (Some h) ?e s2 of (e, s, closeErr) \<Rightarrow> Some (e, s, errors_Join [Some (SstFailed err), closeErr]))
      | None \<Rightarrow> finish_flush F marshal h ?name fk lk n (im_watermark im) (sw_size w') ?e s2)"
      using False c w f unfolding flush finish_flush_def commit_flush_def Let_def im(1) list.sel(1) by (simp split: option.split)
    show ?thesis
    proof (cases ferr)
      case None
      from finish_flush_cases [OF c ok w(2,4,5) f(1) [unfolded None] f(2,3,4), of ?e] f(5) None w(3) show ?thesis unfolding eq by force
    next
      case (Some err)
      then show ?thesis using close_left_alone [OF _ f(3) ok, of ?e] by (simp add: eq)
    qed
  qed
qed

end

section \<open>Publishing a table\<close>

lemma appendManifestEdit_error: "appendManifestEdit F marshal dir edit s = (s', False, h, err) \<Longrightarrow> err \<noteq> None"
  by (auto simp: appendManifestEdit_def Let_def split: sum.splits prod.splits if_splits option.splits)

lemma table_of_known: "tables_ok A s e g \<Longrightarrow> t \<in> set (en_tables e) \<Longrightarrow> a_known A s (th_file t)"
  by (simp add: tables_ok_def table_holds_def)

text \<open>The tables in \<open>S\<close> are replaced by a new one.\<close>

lemma publish_ok:
  assumes old: "tables_ok A s e g" "a_ok A s" "quiet A (en_dir e) s s'"
    and new: "table_holds A s' t es" "apart A (en_dir e) s' (th_file t)" "\<not> a_known A s (th_file t)"
    and e': "skip_inv (en_list e')" "\<forall>im \<in> set (en_immutables e'). skip_inv (im_list im)" "en_dir e' = en_dir e"
      "set (en_tables e') = insert t (set (en_tables e) - S)"
    and cov: "covers W (mem_entries e' \<union> (\<Union>t \<in> set (en_tables e) - S. set (g t)) \<union> set es)"
  shows "eng_ok A W e' s'"
proof -
  have t: "t \<notin> set (en_tables e)" using table_of_known [OF old(1)] new(3) by blast
  let ?g = "g(t := es)"
  have "tables_ok A s' e g" by (rule tables_ok_quiet [OF old(3,1)])
  then have tab: "tables_ok A s' e' ?g" using new(1,2) e'(3,4) t by (auto simp: tables_ok_def)
  have "(\<Union>x \<in> set (en_tables e'). set (?g x)) = (\<Union>x \<in> set (en_tables e) - S. set (g x)) \<union> set es"
    using t e'(4) by (auto split: if_splits)
  then show ?thesis using tab cov e'(1,2) quiet_ok [OF old(3,2)] unfolding eng_ok_def by (metis Un_assoc)
qed

context file_system
begin

lemma commitEditLocked_cases:
  assumes "commitEditLocked F marshal edit table e s = (e', s', committed, err)" "a_ok A s"
  shows "quiet A (en_dir e) s s' \<and> (\<not> committed \<longrightarrow> same_data e e' \<and> err \<noteq> None)
    \<and> (committed \<longrightarrow> same_data (e\<lparr>en_tables := en_tables e @ (case table of None \<Rightarrow> [] | Some t \<Rightarrow> [t])\<rparr>) e')"
proof (cases "manifest_apply (Some edit) (en_manifest e)")
  case (Inl x)
  obtain e1 s1 ce where "closeFileRetainingLocked F (map_option th_file table) e s = (e1, s1, ce)" by (metis prod_cases3)
  with closeFileRetainingLocked_quiet [OF this assms(2), of "en_dir e"] Inl assms(1) show ?thesis by (auto simp: commitEditLocked_def)
next
  case (Inr nxt)
  obtain s1 c un aerr where ap: "appendManifestEdit F marshal (en_dir e) edit s = (s1, c, un, aerr)" by (metis prod_cases4)
  note q = appendManifestEdit_quiet [OF ap assms(2)]
  let ?e = "case un of None \<Rightarrow> e | Some h \<Rightarrow> e\<lparr>en_unresolved := en_unresolved e @ [h]\<rparr>"
  have sd: "same_data e ?e" by (simp split: option.split)
  show ?thesis
  proof (cases c)
    case True
    then show ?thesis using assms(1) Inr ap q by (auto simp: commitEditLocked_def Let_def same_data_def split: option.splits)
  next
    case False
    let ?e2 = "if (case aerr of None \<Rightarrow> False | Some err \<Rightarrow> isUncertainManifestAppend err) then poisonLocked (the aerr) ?e else ?e"
    have sd2: "same_data e ?e2" using sd same_data_trans [OF sd] by auto
    obtain x where x: "aerr = Some x" using appendManifestEdit_error [of F marshal "en_dir e" edit s s1 un aerr] ap False by auto
    show ?thesis
    proof (cases table)
      case None
      then show ?thesis using assms(1) Inr ap False q sd2 x by (auto simp: commitEditLocked_def Let_def)
    next
      case (Some t)
      obtain e3 s3 ce where cl: "closeFileRetainingLocked F (Some (th_file t)) ?e2 s1 = (e3, s3, ce)" by (metis prod_cases3)
      from closeFileRetainingLocked_quiet [OF this quiet_ok [OF q assms(2)], of "en_dir e"] have "quiet A (en_dir e) s s3" "same_data e e3"
        using quiet_trans [OF q] same_data_trans [OF sd2] by auto
      then show ?thesis using assms(1) Inr ap False Some cl x by (auto simp: commitEditLocked_def Let_def)
    qed
  qed
qed

end

section \<open>Compaction\<close>

definition discarded :: "('s, 'h) fs_abs \<Rightarrow> 'h Engine \<Rightarrow> 's \<Rightarrow> ('h Engine \<times> 's \<times> (lsm_error option + 'h tableHandle)) option \<Rightarrow> bool" where
  "discarded A e s x \<longleftrightarrow> (\<exists>e' s' err. x = Some (e', s', Inl err) \<and> err \<noteq> None \<and> quiet A (en_dir e) s s' \<and> same_data e e')"

context file_system
begin

lemma discard_ok:
  assumes "same_data e e1" "quiet A (en_dir e) s s1" "a_ok A s"
  shows "discarded A e s (case discardCompactionOutputLocked F path h (Some cause) e1 s1 of (e', s', err) \<Rightarrow> Some (e', s', Inl err))"
proof -
  obtain e2 s2 err where d: "discardCompactionOutputLocked F path h (Some cause) e1 s1 = (e2, s2, err)" by (metis prod_cases3)
  from discardCompactionOutputLocked_quiet [OF this quiet_ok [OF assms(2,3)], of "en_dir e"]
  have "quiet A (en_dir e) s s2" "same_data e e2" using quiet_trans [OF assms(2)] same_data_trans [OF assms(1)] by auto
  moreover have "err \<noteq> None" using d by (auto simp: discardCompactionOutputLocked_def split: prod.splits)
  ultimately show ?thesis using d by (auto simp: discarded_def)
qed

text \<open>The merged entries of the inputs, unless a read fails.\<close>

lemma merge_inputs:
  assumes "\<forall>t \<in> set ts. table_holds A s t (g t)" "coherent W" "\<forall>t \<in> set ts. set (g t) \<subseteq> W"
  defines "its \<equiv> map (\<lambda>t. Some (newSSTableEntryIterator (table_reader F s t))) ts"
  shows "(\<exists>err. newKWayMergeIterator iterator_Next its = Some (Inl err))
    \<or> (\<exists>m. newKWayMergeIterator iterator_Next its = Some (Inr m) \<and>
         ((\<exists>err. fill_output iterator_Next m [] [] 0 (NewSSTableWriter (Some f)) = Some (Inl err))
          \<or> (\<exists>fk lk c w. fill_output iterator_Next m [] [] 0 (NewSSTableWriter (Some f)) = Some (Inr (fk, lk, c, w))
               \<and> merges (\<Union>t \<in> set ts. set (g t)) (sw_entries w) \<and> writer_inv w \<and> sw_w w = Some f \<and> \<not> sw_closed w)))"
proof -
  define R where "R t = the (th_reader t)" for t :: "'h tableHandle"
  have "\<forall>t \<in> set ts. \<exists>c. th_reader t = Some (R t) \<and> a_holds A s (th_file t) c \<and> (\<exists>gs. reads_table c gs (g t) ((R t)\<lparr>sr_r := file_ReadAt c\<rparr>))"
    using assms(1) unfolding table_holds_def R_def by fastforce
  from bchoice [OF this] obtain c where c: "\<And>t. t \<in> set ts \<Longrightarrow> th_reader t = Some (R t)"
    "\<And>t. t \<in> set ts \<Longrightarrow> a_holds A s (th_file t) (c t)" "\<And>t. t \<in> set ts \<Longrightarrow> \<exists>gs. reads_table (c t) gs (g t) ((R t)\<lparr>sr_r := file_ReadAt (c t)\<rparr>)"
    by blast
  let ?rs = "map (\<lambda>t. (R t)\<lparr>sr_r := file_ReadAt (c t)\<rparr>) ts" and ?as = "map (\<lambda>t. newSSTableEntryIterator (Some ((R t)\<lparr>sr_r := op_view F (th_file t) s\<rparr>))) ts"
  have its: "its = map Some ?as" using c(1) by (simp add: its_def table_reader_def)
  have cons: "consistent (all_entries (map g ts))"
    using assms(2,3) unfolding consistent_def coherent_def sameTableRecord_def by (auto, (metis subsetD)+)
  have rel: "list_all2 (\<lambda>r es. \<exists>content gs. reads_table content gs es r) ?rs (map g ts)"
    unfolding list.rel_map using c(3) by (intro list.rel_refl_strong) blast
  from merge_tables [OF rel cons, of f] obtain n out w where n: "newKWayMergeIterator iterator_Next (map (\<lambda>r. Some (newSSTableEntryIterator (Some r))) ?rs) = Some (Inr n)"
    "yields iterator_Next n out" "merges (all_entries (map g ts)) out" "add_entries out (NewSSTableWriter (Some f)) = Inr w"
    "writer_inv w" "sw_entries w = out" "sw_w w = Some f" "\<not> sw_closed w" by blast
  have "list_all2 same_reads ?as (map (\<lambda>r. newSSTableEntryIterator (Some r)) ?rs)"
    unfolding list.rel_map using holds_view [OF c(2)]
    by (intro list.rel_refl_strong) (force simp: same_reads_def newSSTableEntryIterator_def)
  from newKWayMergeIterator_fails_or [OF iterator_fails_or this, of n] n(1)
  have merge: "(\<exists>err. newKWayMergeIterator iterator_Next its = Some (Inl err))
    \<or> (\<exists>m. newKWayMergeIterator iterator_Next its = Some (Inr m) \<and> same_merge same_reads m n)" by (simp add: its comp_def)
  let ?w = "NewSSTableWriter (Some f)"
  obtain fk where "fill_output iterator_Next n [] [] 0 ?w = Some (Inr (fk, if out = [] then [] else te_Key (last out), of_nat (length out), w))"
    using fill_output_yields_any [OF n(2), of "[]" "[]" 0 ?w] n(4) by auto
  then have "(\<exists>err. fill_output iterator_Next m [] [] 0 ?w = Some (Inl err)) \<or> (\<exists>fk lk c. fill_output iterator_Next m [] [] 0 ?w = Some (Inr (fk, lk, c, w)))"
    if "same_merge same_reads m n" for m
    using fill_output_fails_or [OF n(2) iterator_fails_or that, of "[]" "[]" 0 ?w] by force
  with merge n(3,5-) show ?thesis by fastforce
qed

end

text \<open>The end of a compaction's output, when its entries are written.\<close>

definition finish_output :: "('s, 'h) FS \<Rightarrow> 'h \<Rightarrow> string \<Rightarrow> u32 \<Rightarrow> bytes \<Rightarrow> bytes \<Rightarrow> u64 \<Rightarrow> 'h Engine \<Rightarrow> 's
    \<Rightarrow> ('h Engine \<times> 's \<times> (lsm_error option + 'h tableHandle)) option" where
  "finish_output F h filename tier fk lk cnt e s =
     (let path = path_Join [en_dir e, filename];
          discard = (\<lambda>file cause e s. case discardCompactionOutputLocked F path file (Some cause) e s of (e, s, err) \<Rightarrow> Some (e, s, Inl err))
      in case op_Sync F h s of
           (s, Some err) \<Rightarrow> discard (Some h) (FsFailed err) e s
         | (s, None) \<Rightarrow>
        (case op_Close F h s of
           (s, Some err) \<Rightarrow> discard (Some h) (FsFailed err) e s
         | (s, None) \<Rightarrow>
        (case op_SyncDir F (en_dir e) s of
           (s, Some err) \<Rightarrow> discard None (FsFailed err) e s
         | (s, None) \<Rightarrow>
             (let metadata = \<lparr>fm_tier = tier, fm_file = filename, fm_minKey = fk, fm_maxKey = lk, fm_count = cnt\<rparr>
              in case openTableOwned F (en_dir e) metadata (ms_flushedIndex (en_manifest e)) s of
                   None \<Rightarrow> None
                 | Some (s, table, Some err) \<Rightarrow> discard (map_option th_file table) err e s
                 | Some (s, table, None) \<Rightarrow> Some (e, s, Inr (the table))))))"

context file_system
begin

lemma finish_output_cases:
  assumes c: "op_Create F (path_Join [en_dir e, table_name k]) s = (s1, Inr h)" "a_ok A s"
    and w: "writer_inv w" "sw_w w = Some s1" "\<not> sw_closed w"
    and f: "Finish (file_sink F h) w = Some (w', None)" "sw_w w' = Some s2" "quiet A (en_dir e) s s2" "a_known A s2 h"
    and e: "same_data e e1"
  shows "discarded A e s (finish_output F h (table_name k) tier fk lk n e1 s2)
    \<or> (\<exists>s' t. finish_output F h (table_name k) tier fk lk n e1 s2 = Some (e1, s', Inr t)
         \<and> quiet A (en_dir e) s s' \<and> table_holds A s' t (sw_entries w) \<and> apart A (en_dir e) s' (th_file t) \<and> \<not> a_known A s (th_file t))"
proof -
  have dir: "en_dir e1 = en_dir e" using e by (simp add: same_data_def)
  obtain s3 e3 where sy: "op_Sync F h s2 = (s3, e3)" by fastforce
  note q3 = quiet_trans [OF f(3) Sync_quiet [OF sy quiet_ok [OF f(3) c(2)] f(4)]]
  obtain s4 e4 where cl: "op_Close F h s3 = (s4, e4)" by fastforce
  note q4 = quiet_trans [OF q3 Close_quiet [OF cl quiet_ok [OF q3 c(2)]]]
  obtain s5 e5 where sd: "op_SyncDir F (en_dir e) s4 = (s5, e5)" by fastforce
  note q5 = quiet_trans [OF q4 quiet_frame [OF SyncDir_frame [OF sd quiet_ok [OF q4 c(2)]]]]
  let ?md = "\<lparr>fm_tier = tier, fm_file = table_name k, fm_minKey = fk, fm_maxKey = lk, fm_count = n\<rparr>"
  let ?mx = "ms_flushedIndex (en_manifest e1)"
  obtain s6 t e6 where o: "openTableOwned F (en_dir e) ?md ?mx s5 = Some (s6, t, e6)" using openTableOwned_Some [of F "en_dir e" ?md ?mx s5] by blast
  note q6 = quiet_trans [OF q5 openTableOwned_quiet [OF o quiet_ok [OF q5 c(2)]]]
  note simps = finish_output_def sy cl sd o dir Let_def
  consider x where "e3 = Some x" | x where "e3 = None" "e4 = Some x" | x where "e3 = None" "e4 = None" "e5 = Some x"
    | x where "e3 = None" "e4 = None" "e5 = None" "e6 = Some x" | "e3 = None" "e4 = None" "e5 = None" "e6 = None" by (metis option.exhaust)
  then show ?thesis
  proof cases
    case 5
    then obtain t' where t: "t = Some t'" using o openTableOwned_error [of F "en_dir e" ?md ?mx s5 s6 None] by (cases t) auto
    have "table_holds A s6 t' (sw_entries w) \<and> apart A (en_dir e) s6 (th_file t') \<and> \<not> a_known A s (th_file t')"
      using new_table [OF c _ table_path_apart w(2,3,1) f(1,2), of ?md s3 s4 s5 ?mx s6 t'] sy cl sd o 5 t by simp
    then show ?thesis using 5 t q6 by (simp add: simps)
  qed (use discard_ok [OF e q3 c(2)] discard_ok [OF e q4 c(2)] discard_ok [OF e q5 c(2)] discard_ok [OF e q6 c(2)] in \<open>simp_all add: simps\<close>)
qed

lemma buildCompactionOutputLocked_cases:
  assumes ts: "\<forall>t \<in> set ts. table_holds A s t (g t) \<and> apart A (en_dir e) s (th_file t)" "coherent W" "\<forall>t \<in> set ts. set (g t) \<subseteq> W" and ok: "a_ok A s"
  shows "discarded A e s (buildCompactionOutputLocked F tier ts e s)
    \<or> (\<exists>e1 s1 t out. buildCompactionOutputLocked F tier ts e s = Some (e1, s1, Inr t) \<and> quiet A (en_dir e) s s1 \<and> same_data e e1
         \<and> merges (\<Union>t \<in> set ts. set (g t)) out \<and> table_holds A s1 t out \<and> apart A (en_dir e) s1 (th_file t) \<and> \<not> a_known A s (th_file t))"
proof (cases "en_nextFileNumber e = 0 \<or> en_nextFileNumber e = - 1")
  case True
  then show ?thesis by (auto simp: buildCompactionOutputLocked_def allocateFilenameLocked_def discarded_def)
next
  case False
  let ?e = "e\<lparr>en_nextFileNumber := en_nextFileNumber e + 1\<rparr>" and ?name = "table_name (en_nextFileNumber e)"
  let ?path = "path_Join [en_dir e, ?name]"
  have e: "same_data e ?e" by simp
  obtain s1 r where c: "op_Create F ?path s = (s1, r)" by fastforce
  note q1 = quiet_frame [OF Create_frame [OF c ok], of "en_dir e"]
  note simps = buildCompactionOutputLocked_def allocateFilenameLocked_def Let_def
  show ?thesis
  proof (cases r)
    case (Inl err)
    then show ?thesis using False c discard_ok [OF e q1 ok] by (simp add: simps)
  next
    case (Inr h)
    note c = c [unfolded Inr]
    have "\<forall>t \<in> set ts. table_holds A s1 t (g t)" using ts(1) table_holds_quiet [OF q1] by blast
    from merge_inputs [OF this ts(2,3), of s1] show ?thesis
    proof (elim disjE exE conjE)
      fix m fk lk n w
      assume m: "newKWayMergeIterator iterator_Next (map (\<lambda>t. Some (newSSTableEntryIterator (table_reader F s1 t))) ts) = Some (Inr m)"
        and w: "fill_output iterator_Next m [] [] 0 (NewSSTableWriter (Some s1)) = Some (Inr (fk, lk, n, w))"
          "merges (\<Union>t \<in> set ts. set (g t)) (sw_entries w)" "writer_inv w" "sw_w w = Some s1" "\<not> sw_closed w"
      obtain w' ferr s2 where f: "Finish (file_sink F h) w = Some (w', ferr)" "sw_w w' = Some s2" "quiet A (en_dir e) s s2" "a_known A s2 h"
        using Finish_quiet [OF c ok w(4,5), of "en_dir e"] by blast
      have eq: "buildCompactionOutputLocked F tier ts e s = (if n = 0 then
            case discardCompactionOutputLocked F ?path (Some h) (Some EmptyCompaction) ?e s1 of (e, s, err) \<Rightarrow> Some (e, s, Inl err)
          else case ferr of
            Some err \<Rightarrow> (case discardCompactionOutputLocked F ?path (Some h) (Some (SstFailed err)) ?e s2 of (e, s, err) \<Rightarrow> Some (e, s, Inl err))
          | None \<Rightarrow> finish_output F h ?name tier fk lk n ?e s2)"
        using False c m w f unfolding simps finish_output_def by (simp split: option.split)
      show ?thesis
      proof (cases "n \<noteq> 0 \<and> ferr = None")
        case True
        then have build: "buildCompactionOutputLocked F tier ts e s = finish_output F h ?name tier fk lk n ?e s2" and fin: "ferr = None" using eq by simp_all
        show ?thesis
          unfolding build using finish_output_cases [OF c ok w(3,4,5) f(1) [unfolded fin] f(2,3,4) e, of tier fk lk n] w(2) e by blast
      qed (use discard_ok [OF e q1 ok] discard_ok [OF e f(3) ok] in \<open>auto simp: eq split: option.split\<close>)
    qed (use False c discard_ok [OF e q1 ok] in \<open>simp_all add: simps\<close>)
  qed
qed

end

text \<open>The engines differ in their tables only.\<close>

definition same_mem :: "'h Engine \<Rightarrow> 'h Engine \<Rightarrow> bool" where
  "same_mem e e' \<longleftrightarrow> en_list e' = en_list e \<and> en_immutables e' = en_immutables e \<and> en_dir e' = en_dir e \<and> en_closed e' = en_closed e
     \<and> (en_poisoned e' = None \<longrightarrow> en_poisoned e = None)"

lemma same_data_mem: "same_data e e' \<Longrightarrow> same_mem e e'"
  by (simp add: same_data_def same_mem_def)

lemma same_mem_trans: "same_mem e e1 \<Longrightarrow> same_mem e1 e2 \<Longrightarrow> same_mem e e2"
  by (simp add: same_mem_def)

lemma length_filter_out:
  assumes "distinct ys" "set ys \<subseteq> set xs"
  shows "length (filter (\<lambda>x. x \<notin> set ys) xs) + length ys \<le> length xs"
proof -
  have "length ys = card (set (filter (\<lambda>x. x \<in> set ys) xs))" using assms by (metis distinct_card set_filter inf.absorb_iff2 Collect_conj_eq Collect_mem_eq)
  also have "\<dots> \<le> length (filter (\<lambda>x. x \<in> set ys) xs)" by (rule card_length)
  finally show ?thesis using sum_length_filter_compl [of "\<lambda>x. x \<in> set ys" xs] by simp
qed

context file_system
begin

lemma commitCompactionLocked_cases:
  assumes "commitCompactionLocked F marshal edit output selected e s = (e', s', err)" "a_ok A s"
  shows "quiet A (en_dir e) s s' \<and> (same_data e e' \<and> err \<noteq> None
    \<or> same_data (e\<lparr>en_tables := sort_key table_file_name (filter (\<lambda>t. t \<notin> set selected) (en_tables e) @ [output])\<rparr>) e')"
proof (cases "manifest_apply (Some edit) (en_manifest e)")
  case (Inl x)
  then have d: "discardCompactionOutputLocked F (path_Join [en_dir e, table_file_name output]) (Some (th_file output)) (Some (InvalidEdit x)) e s = (e', s', err)"
    using assms(1) by (simp add: commitCompactionLocked_def Let_def)
  then have "err \<noteq> None" by (auto simp: discardCompactionOutputLocked_def split: prod.splits)
  with discardCompactionOutputLocked_quiet [OF d assms(2)] show ?thesis by blast
next
  case (Inr nxt)
  obtain s1 c un aerr where ap: "appendManifestEdit F marshal (en_dir e) edit s = (s1, c, un, aerr)" by (metis prod_cases4)
  note q = appendManifestEdit_quiet [OF ap assms(2)]
  note ok1 = quiet_ok [OF q assms(2)]
  define e1 where "e1 = (case un of None \<Rightarrow> e | Some h \<Rightarrow> e\<lparr>en_unresolved := en_unresolved e @ [h]\<rparr>)"
  have sd: "same_data e e1" by (simp add: e1_def split: option.split)
  note simps = commitCompactionLocked_def Let_def Inr ap e1_def [symmetric]
  show ?thesis
  proof (cases c)
    case True
    then obtain e2 s2 ce where r: "reconcileObsoleteLocked F e2 s1 = (e', s', ce)"
      "same_data (e1\<lparr>en_tables := sort_key table_file_name (filter (\<lambda>t. t \<notin> set selected) (en_tables e1) @ [output])\<rparr>) e2"
      using assms(1) by (auto simp: simps same_data_def split: prod.splits)
    from reconcileObsoleteLocked_quiet [OF r(1) ok1, of "en_dir e"] r(2) sd quiet_trans [OF q] show ?thesis by (auto simp: same_data_def)
  next
    case False
    then obtain x where x: "aerr = Some x" using appendManifestEdit_error [of F marshal "en_dir e" edit s s1 un aerr] ap by auto
    show ?thesis
    proof (cases "isUncertainManifestAppend x")
      case True
      obtain s2 ce where c: "op_Close F (th_file output) s1 = (s2, ce)" by fastforce
      have "same_data e1 (poisonLocked x e1)" by simp
      then show ?thesis using assms(1) False x True c sd quiet_trans [OF q Close_quiet [OF c ok1]] by (auto simp: simps same_data_def split: if_splits)
    next
      case no: False
      then have d: "discardCompactionOutputLocked F (path_Join [en_dir e1, table_file_name output]) (Some (th_file output)) (Some x) e1 s1 = (e', s', err)"
        using assms(1) False x sd by (simp add: simps same_data_def)
      then have "err \<noteq> None" by (auto simp: discardCompactionOutputLocked_def split: prod.splits)
      with discardCompactionOutputLocked_quiet [OF d ok1, of "en_dir e"] quiet_trans [OF q] same_data_trans [OF sd] show ?thesis by blast
    qed
  qed
qed

end

text \<open>The merged output takes the place of the inputs.\<close>

lemma merged_ok:
  assumes ok: "a_ok A s" "skip_inv (en_list e)" "\<forall>im \<in> set (en_immutables e). skip_inv (im_list im)" "tables_ok A s e g"
      "covers W (mem_entries e \<union> (\<Union>t \<in> set (en_tables e). set (g t)))" "quiet A (en_dir e) s s'"
    and t: "merges (\<Union>t \<in> set inputs. set (g t)) out" "table_holds A s' t out" "apart A (en_dir e) s' (th_file t)" "\<not> a_known A s (th_file t)"
    and i: "distinct inputs" "set inputs \<subseteq> set (en_tables e)" "length inputs = compactionFanIn"
    and e': "same_data (e\<lparr>en_tables := sort_key table_file_name (filter (\<lambda>t. t \<notin> set inputs) (en_tables e) @ [t])\<rparr>) e'"
  shows "eng_ok A W e' s' \<and> same_mem e e' \<and> length (en_tables e') < length (en_tables e)"
proof -
  have eqs: "en_list e' = en_list e" "en_immutables e' = en_immutables e" "en_dir e' = en_dir e" "en_closed e' = en_closed e"
    "en_poisoned e' = None \<longrightarrow> en_poisoned e = None" "en_tables e' = sort_key table_file_name (filter (\<lambda>t. t \<notin> set inputs) (en_tables e) @ [t])" using e' by (auto simp: same_data_def)
  have split: "(\<Union>t \<in> set (en_tables e). set (g t)) = (\<Union>t \<in> set (en_tables e) - set inputs. set (g t)) \<union> (\<Union>t \<in> set inputs. set (g t))"
    using i(2) by auto
  note m = conjunct2 [OF t(1) [unfolded merges_def]]
  have "covers W ((mem_entries e \<union> (\<Union>t \<in> set (en_tables e) - set inputs. set (g t))) \<union> set out)"
    by (rule covers_swap [OF _ conjunct1 [OF m] conjunct2 [OF m]]) (use ok(5) in \<open>simp only: split Un_assoc\<close>)
  moreover have "mem_entries e' = mem_entries e" using eqs by (simp add: mem_entries_def)
  ultimately have "eng_ok A W e' s'" using ok eqs by (intro publish_ok [OF ok(4,1,6) t(2-4), of e' "set inputs"]) auto
  moreover have "length (en_tables e') < length (en_tables e)" using length_filter_out [OF i(1,2)] i(3) eqs(6) by (simp add: compactionFanIn_def)
  ultimately show ?thesis using eqs by (simp add: same_mem_def)
qed

context file_system
begin

lemma compactInputsLocked_ok:
  assumes "eng_ok A W e s" "coherent W"
  shows "\<exists>e' s' err. compactInputsLocked F marshal tier inputs e s = Some (e', s', err) \<and> eng_ok A W e' s' \<and> same_mem e e'
    \<and> (err = None \<longrightarrow> length (en_tables e') < length (en_tables e))"
proof (cases "length inputs = compactionFanIn \<and> (\<forall>t \<in> set inputs. fm_tier (th_metadata t) = tier) \<and> distinct inputs \<and> set inputs \<subseteq> set (en_tables e)")
  case False
  then show ?thesis using assms(1) by (auto simp: compactInputsLocked_def Let_def same_mem_def)
next
  case True
  let ?ts = "sort_key table_file_name inputs" and ?build = "buildCompactionOutputLocked F (tier + 1) (sort_key table_file_name inputs) e s"
  have sel: "distinct ?ts" "set ?ts \<subseteq> set (en_tables e)" "length ?ts = compactionFanIn" using True by simp_all
  from assms(1) obtain g where g: "a_ok A s" "skip_inv (en_list e)" "\<forall>im \<in> set (en_immutables e). skip_inv (im_list im)" "tables_ok A s e g"
    "covers W (mem_entries e \<union> (\<Union>t \<in> set (en_tables e). set (g t)))" by (rule eng_okE)
  have "\<forall>t \<in> set (en_tables e). set (g t) \<subseteq> W" using g(5) unfolding covers_def by blast
  then have ts: "\<forall>t \<in> set ?ts. table_holds A s t (g t) \<and> apart A (en_dir e) s (th_file t)" "\<forall>t \<in> set ?ts. set (g t) \<subseteq> W"
    using g(4) sel(2) unfolding tables_ok_def by blast+
  note simps = compactInputsLocked_def Let_def
  from buildCompactionOutputLocked_cases [OF ts(1) assms(2) ts(2) g(1), of "tier + 1"] show ?thesis
  proof (elim disjE exE conjE)
    assume "discarded A e s ?build"
    then show ?thesis using True eng_ok_quiet [OF assms(1)] same_data_mem by (fastforce simp: simps discarded_def)
  next
    fix e1 s1 t out
    assume b: "?build = Some (e1, s1, Inr t)" "quiet A (en_dir e) s s1" "same_data e e1" "merges (\<Union>t \<in> set ?ts. set (g t)) out"
      "table_holds A s1 t out" "apart A (en_dir e) s1 (th_file t)" "\<not> a_known A s (th_file t)"
    let ?edit = "\<lparr>ve_AddedFiles = [Some (metadata_proto (th_metadata t))], ve_RemovedFiles = map table_file_name ?ts, ve_FlushedIndex = ms_flushedIndex (en_manifest e1)\<rparr>"
    let ?tabs = "\<lambda>e. sort_key table_file_name (filter (\<lambda>t. t \<notin> set ?ts) (en_tables e) @ [t])"
    obtain e2 s2 err where c: "commitCompactionLocked F marshal ?edit t ?ts e1 s1 = (e2, s2, err)" by (metis prod_cases3)
    have res: "compactInputsLocked F marshal tier inputs e s = Some (e2, s2, err)" using True b(1) c by (auto simp: simps)
    have dir: "en_dir e1 = en_dir e" using b(3) by (simp add: same_data_def)
    from commitCompactionLocked_cases [OF c quiet_ok [OF b(2) g(1)]] have q: "quiet A (en_dir e) s1 s2"
      and cases: "same_data e1 e2 \<and> err \<noteq> None \<or> same_data (e1\<lparr>en_tables := ?tabs e1\<rparr>) e2" by (simp_all add: dir)
    note q2 = quiet_trans [OF b(2) q]
    from cases show ?thesis
    proof
      assume "same_data e1 e2 \<and> err \<noteq> None"
      then show ?thesis using res eng_ok_quiet [OF assms(1) q2 same_data_trans [OF b(3)]] same_data_mem [OF same_data_trans [OF b(3)]] by blast
    next
      assume "same_data (e1\<lparr>en_tables := ?tabs e1\<rparr>) e2"
      then have e2: "same_data (e\<lparr>en_tables := ?tabs e\<rparr>) e2" using b(3) by (simp add: same_data_def)
      from table_holds_quiet [OF q b(5,6)] merged_ok [OF g q2 b(4) _ _ b(7) sel e2] res show ?thesis by blast
    qed
  qed
qed

lemma compact_loop_ok:
  assumes "eng_ok A W e s" "coherent W"
  shows "\<exists>e' s' err. compact_loop F marshal e s = Some (e', s', err) \<and> eng_ok A W e' s' \<and> same_mem e e'"
  using assms(1)
proof (induction "length (en_tables e)" arbitrary: e s rule: less_induct)
  case less
  show ?case
  proof (cases "selectCompactionInputs (en_tables e)")
    case None
    then show ?thesis using less.prems by (subst compact_loop.simps) (simp add: same_mem_def)
  next
    case (Some x)
    obtain tier inputs where x: "x = (tier, inputs)" by fastforce
    obtain e1 s1 err where c: "compactInputsLocked F marshal tier inputs e s = Some (e1, s1, err)" "eng_ok A W e1 s1" "same_mem e e1"
      "err = None \<longrightarrow> length (en_tables e1) < length (en_tables e)" using compactInputsLocked_ok [OF less.prems assms(2)] by blast
    show ?thesis
    proof (cases "tier = - 1 \<or> err \<noteq> None")
      case True
      then show ?thesis using less.prems Some x c by (subst compact_loop.simps) (auto simp: same_mem_def)
    next
      case False
      then have "compact_loop F marshal e s = compact_loop F marshal e1 s1" using Some x c(1) by (subst compact_loop.simps) simp
      then show ?thesis using less.hyps [OF _ c(2)] c(4) False same_mem_trans [OF c(3)] by auto
    qed
  qed
qed

lemma compactAllLocked_ok:
  assumes "eng_ok A W e s" "coherent W"
  shows "\<exists>e' s' err. compactAllLocked F marshal e s = Some (e', s', err) \<and> eng_ok A W e' s' \<and> same_mem e e'"
proof -
  obtain e1 s1 err where r: "reconcileObsoleteLocked F e s = (e1, s1, err)" by (metis prod_cases3)
  have ok: "a_ok A s" using assms(1) by (simp add: eng_ok_def)
  from reconcileObsoleteLocked_quiet [OF r ok] have e1: "eng_ok A W e1 s1" "same_mem e e1"
    using eng_ok_quiet [OF assms(1)] same_data_mem by blast+
  obtain e2 s2 err2 where l: "compact_loop F marshal e1 s1 = Some (e2, s2, err2)" "eng_ok A W e2 s2" "same_mem e1 e2"
    using compact_loop_ok [OF e1(1) assms(2)] by blast
  with r e1 same_mem_trans [OF e1(2) l(3)] show ?thesis by (cases err) (simp_all add: compactAllLocked_def)
qed

end

end
