(* ===== verification/Lsm_Engine_Run.thy ===== *)
theory Lsm_Engine_Run
  imports Lsm_Engine_Props
begin

text \<open>
  The operations of the engine, \<open>internal/lsm/engine.go\<close>: flushes, writes and reads in any order, on a
  file system that may fail or crash at every step, always return, and reads see the newest version
  of every key that was written.
\<close>

section \<open>Flushes and writes\<close>

definition kept :: "'h Engine \<Rightarrow> 'h Engine \<Rightarrow> bool" where
  "kept e e' \<longleftrightarrow> en_dir e' = en_dir e \<and> en_closed e' = en_closed e \<and> (en_poisoned e' = None \<longrightarrow> en_poisoned e = None)"

lemma same_mem_kept: "same_mem e e' \<Longrightarrow> kept e e'"
  by (simp add: same_mem_def kept_def)

lemma same_data_kept: "same_data e e' \<Longrightarrow> kept e e'"
  by (simp add: same_data_def kept_def)

lemma kept_trans: "kept e e1 \<Longrightarrow> kept e1 e2 \<Longrightarrow> kept e e2"
  by (simp add: kept_def)

lemma kept_refl [simp]: "kept e e"
  by (simp add: kept_def)

lemma freezeLocked_ok: "eng_ok A W e s \<Longrightarrow> eng_ok A W (freezeLocked wm e) s"
  using skip_inv_new [of "sl_draws (en_list e)"]
  by (auto simp: eng_ok_def freezeLocked_def tables_ok_def mem_entries_def Un_ac)

context file_system
begin

lemma commit_flush_ok:
  assumes ok: "a_ok A s" "skip_inv (en_list e)" "\<forall>im \<in> set (en_immutables e). skip_inv (im_list im)" "tables_ok A s e g"
      "covers W (mem_entries e \<union> (\<Union>t \<in> set (en_tables e). set (g t)))" "coherent W"
    and e1: "quiet A (en_dir e) s s1" "same_data e e1" "en_immutables e = im # ims"
    and t: "table_holds A s1 t (skip_entries (im_list im))" "apart A (en_dir e) s1 (th_file t)" "\<not> a_known A s (th_file t)"
  shows "\<exists>e' s' err. commit_flush F marshal edit t e1 s1 = Some (e', s', err) \<and> eng_ok A W e' s' \<and> kept e e'
    \<and> (err = None \<longrightarrow> length (en_immutables e') < length (en_immutables e))"
proof -
  have dir: "en_dir e1 = en_dir e" using e1(2) by (simp add: same_data_def)
  obtain e2 s2 com err where c: "commitEditLocked F marshal edit (Some t) e1 s1 = (e2, s2, com, err)" by (metis prod_cases4)
  from commitEditLocked_cases [OF c quiet_ok [OF e1(1) ok(1)]] have q: "quiet A (en_dir e) s1 s2"
    and no: "\<not> com \<Longrightarrow> same_data e1 e2 \<and> err \<noteq> None" and yes: "com \<Longrightarrow> same_data (e1\<lparr>en_tables := en_tables e1 @ [t]\<rparr>) e2" by (simp_all add: dir)
  note q2 = quiet_trans [OF e1(1) q]
  have eng: "eng_ok A W e s" using ok unfolding eng_ok_def by blast
  show ?thesis
  proof (cases com)
    case False
    note d = same_data_trans [OF e1(2) conjunct1 [OF no [OF False]]]
    show ?thesis using c False no eng_ok_quiet [OF eng q2 d] same_data_kept [OF d] by (auto simp: commit_flush_def)
  next
    case True
    let ?e = "e2\<lparr>en_completedFlushes := en_completedFlushes e2 + 1, en_immutables := tl (en_immutables e2)\<rparr>"
    have e: "en_list ?e = en_list e" "en_immutables ?e = ims" "en_dir ?e = en_dir e" "en_closed ?e = en_closed e" "en_tables ?e = en_tables e @ [t]"
      using yes [OF True] e1(2,3) by (simp_all add: same_data_def)
    have "mem_entries ?e \<union> (\<Union>t \<in> set (en_tables e) - {}. set (g t)) \<union> set (skip_entries (im_list im)) = mem_entries e \<union> (\<Union>t \<in> set (en_tables e). set (g t))"
      using e e1(3) by (auto simp: mem_entries_def)
    then have ok': "eng_ok A W ?e s2"
      using table_holds_quiet [OF q t(1,2)] ok(2,3,5) e e1(3) by (intro publish_ok [OF ok(4,1) q2 _ _ t(3), of "skip_entries (im_list im)" ?e "{}"]) auto
    have kept: "kept e ?e" using e yes [OF True] e1(2) by (simp add: kept_def same_data_def)
    from compactAllLocked_ok [OF ok' ok(6), of marshal] obtain e3 s3 err3 where
      a: "compactAllLocked F marshal ?e s2 = Some (e3, s3, err3)" "eng_ok A W e3 s3" "same_mem ?e e3" by blast
    then have "kept e e3" "en_immutables e3 = ims" using kept_trans [OF kept same_mem_kept] e(2) by (auto simp: same_mem_def)
    then show ?thesis using a c True ok' e(2) e1(3) kept by (simp add: commit_flush_def Let_def)
  qed
qed

lemma flushOldestLocked_ok:
  assumes "eng_ok A W e s" "coherent W" "en_immutables e \<noteq> []"
  shows "\<exists>e' s' err. flushOldestLocked F marshal e s = Some (e', s', err) \<and> eng_ok A W e' s' \<and> kept e e'
    \<and> (err = None \<longrightarrow> length (en_immutables e') < length (en_immutables e))"
proof -
  from assms(1) obtain g where g: "a_ok A s" "skip_inv (en_list e)" "\<forall>im \<in> set (en_immutables e). skip_inv (im_list im)" "tables_ok A s e g"
    "covers W (mem_entries e \<union> (\<Union>t \<in> set (en_tables e). set (g t)))" by (rule eng_okE)
  obtain im ims where im: "en_immutables e = im # ims" using assms(3) by (cases "en_immutables e") auto
  have "set (skip_entries (im_list im)) \<subseteq> W" using g(5) im by (auto simp: covers_def mem_entries_def)
  then have norm: "\<forall>x \<in> set (skip_entries (im_list im)). normal_entry x" using assms(2) by (auto simp: coherent_def)
  have inv: "skip_inv (im_list im)" using g(3) im by simp
  from flushOldestLocked_cases [OF im inv norm g(1), of marshal] show ?thesis
  proof (elim disjE exE conjE)
    assume "left_alone A e s (flushOldestLocked F marshal e s)"
    then show ?thesis using eng_ok_quiet [OF assms(1)] same_data_kept by (fastforce simp: left_alone_def)
  next
    fix e1 s1 t edit
    assume "flushOldestLocked F marshal e s = commit_flush F marshal edit t e1 s1" and p: "quiet A (en_dir e) s s1" "same_data e e1"
      "table_holds A s1 t (skip_entries (im_list im))" "apart A (en_dir e) s1 (th_file t)" "\<not> a_known A s (th_file t)"
    with commit_flush_ok [OF g assms(2) p(1,2) im p(3-)] show ?thesis by simp
  qed
qed

lemma flush_immutables_ok:
  assumes "eng_ok A W e s" "coherent W"
  shows "\<exists>e' s' err. flush_immutables F marshal e s = Some (e', s', err) \<and> eng_ok A W e' s' \<and> kept e e'"
  using assms(1)
proof (induction "length (en_immutables e)" arbitrary: e s rule: less_induct)
  case less
  show ?case
  proof (cases "en_immutables e = []")
    case True
    then show ?thesis using less.prems by (subst flush_immutables.simps) simp
  next
    case False
    obtain e1 s1 err where f: "flushOldestLocked F marshal e s = Some (e1, s1, err)" "eng_ok A W e1 s1" "kept e e1"
      "err = None \<longrightarrow> length (en_immutables e1) < length (en_immutables e)" using flushOldestLocked_ok [OF less.prems assms(2) False] by blast
    show ?thesis
    proof (cases err)
      case (Some x)
      then show ?thesis using f False by (subst flush_immutables.simps) simp
    next
      case None
      then have "flush_immutables F marshal e s = flush_immutables F marshal e1 s1" using f(1) False by (subst flush_immutables.simps) simp
      then show ?thesis using less.hyps [OF _ f(2)] f(4) None kept_trans [OF f(3)] by auto
    qed
  qed
qed

lemma flushThroughLocked_ok:
  assumes "eng_ok A W e s" "coherent W"
  shows "\<exists>e' s' err. flushThroughLocked F marshal index e s = Some (e', s', err) \<and> eng_ok A W e' s' \<and> kept e e'"
proof -
  define e1 where "e1 = (if en_activeCount e \<noteq> 0 then freezeLocked index e else e)"
  have e1: "eng_ok A W e1 s" "kept e e1" using assms(1) freezeLocked_ok by (auto simp: e1_def kept_def freezeLocked_def)
  obtain e2 s2 err where f: "flush_immutables F marshal e1 s = Some (e2, s2, err)" "eng_ok A W e2 s2" "kept e1 e2"
    using flush_immutables_ok [OF e1(1) assms(2)] by blast
  note k = kept_trans [OF e1(2) f(3)]
  obtain e3 s3 com err3 where c: "commitEditLocked F marshal \<lparr>ve_AddedFiles = [], ve_RemovedFiles = [], ve_FlushedIndex = index\<rparr> None e2 s2 = (e3, s3, com, err3)"
    by (metis prod_cases4)
  have "quiet A (en_dir e2) s2 s3 \<and> same_data e2 e3" using commitEditLocked_cases [OF c] f(2) by (cases com) (auto simp: eng_ok_def)
  then have "eng_ok A W e3 s3" "kept e e3" using eng_ok_quiet [OF f(2)] kept_trans [OF k same_data_kept] by auto
  then show ?thesis using assms(1) f k c unfolding flushThroughLocked_def Let_def e1_def [symmetric] by (auto split: option.split)
qed

lemma write_locked_ok:
  assumes "eng_ok A W e s" "en_closed e \<or> en_poisoned e \<noteq> None \<Longrightarrow> W' = W"
    and "\<not> (en_closed e \<or> en_poisoned e \<noteq> None) \<Longrightarrow> W' = insert \<lparr>te_Key = key, te_Seq = seq, te_Value = v, te_Tombstone = tb\<rparr> W" "coherent W'"
  shows "\<exists>e' s' err. write_locked F marshal key v tb seq e s = Some (e', s', err) \<and> eng_ok A W' e' s' \<and> kept e e'"
proof (cases "checkOpenLocked e")
  case (Some err)
  then show ?thesis using assms by (auto simp: write_locked_def checkOpenLocked_def split: if_splits option.splits)
next
  case None
  then have W': "W' = insert \<lparr>te_Key = key, te_Seq = seq, te_Value = v, te_Tombstone = tb\<rparr> W"
    using assms(3) by (auto simp: checkOpenLocked_def split: if_splits option.splits)
  let ?e = "advanceAppliedForWriteLocked seq e"
  have "same_data e ?e" by (simp add: advanceAppliedForWriteLocked_def same_data_def)
  then have e: "eng_ok A W ?e s" "kept e ?e" using eng_ok_quiet [OF assms(1) quiet_refl] same_data_kept by auto
  obtain e1 r where p: "putActiveLocked key v tb seq ?e = Some (e1, r)" "eng_ok A W' e1 s" "kept ?e e1"
    using putActiveLocked_ok [OF e(1), of key v tb seq] W' by (auto simp: kept_def)
  note k = kept_trans [OF e(2) p(3)]
  from flushThroughLocked_ok [OF p(2) assms(4), of marshal "automaticFlushTargetLocked e1"] p None k kept_trans [OF k] show ?thesis
    by (auto simp: write_locked_def Let_def)
qed

end

end
