(* ===== verification/Lsm_Engine_Runs.thy ===== *)
theory Lsm_Engine_Runs
  imports Lsm_Engine_Run
begin

text \<open>
  Histories of an engine on the simulated file system (\<open>internal/lsm/engine.go\<close> on \<open>fs_sim.go\<close>): any
  sequence of public operations, with any schedule of injected errors and crashes, runs to its end,
  and reads return the newest accepted version of a key or report that a table could not be read.
\<close>

section \<open>Opening an empty directory\<close>

context file_system
begin

lemma createManifest_ok: "createManifest F dir path s = (s', err) \<Longrightarrow> a_ok A s \<Longrightarrow> a_ok A s'"
  by (rule quiet_ok [OF createManifest_quiet])

lemma loadManifest_missing:
  assumes "loadManifest F unmarshal dir s = (s', Inr state)" "a_ok A s" "a_named A s (manifest_path dir) = None"
  shows "state = newManifestState \<and> a_ok A s'"
proof -
  let ?path = "path_Join [dir, manifestFilename]"
  obtain s1 r where st: "op_Stat F ?path s = (s1, r)" by fastforce
  have "\<exists>err. r = Inl err" using Stat_ok [of ?path s s1] st assms(2,3) by (cases r) (auto simp: manifest_path_def)
  then show ?thesis
    using assms(1) st createManifest_ok [of dir ?path s1] frameD(1) [OF Stat_frame [OF st assms(2)] assms(2)]
    by (auto simp: loadManifest_def split: if_splits prod.splits option.splits)
qed

lemma syncManifest_ok:
  assumes "syncManifest F path s = (s', err)" "a_ok A s"
  shows "a_ok A s'"
proof -
  obtain s1 r where o: "op_OpenAppend F path s = (s1, r)" by fastforce
  note ok1 = frameD(1) [OF OpenAppend_frame [OF o assms(2)] assms(2)]
  show ?thesis
  proof (cases r)
    case (Inr h)
    have k: "a_known A s1 h" using OpenAppend_ok [OF o [unfolded Inr] assms(2)] by simp
    obtain s2 e where sy: "op_Sync F h s1 = (s2, e)" by fastforce
    note ok2 = frameD(1) [OF Sync_frame [OF sy ok1 k] ok1]
    have "a_ok A s3" if "op_Close F h s2 = (s3, c)" for s3 c by (rule frameD(1) [OF Close_frame [OF that ok2] ok2])
    then show ?thesis using assms(1) o Inr sy by (auto simp: syncManifest_def split: option.splits prod.splits)
  qed (use assms o ok1 in \<open>auto simp: syncManifest_def\<close>)
qed

lemma remove_names_ok: "remove_names F e names removed s = (s', r) \<Longrightarrow> a_ok A s \<Longrightarrow> a_ok A s'"
proof (induction names arbitrary: removed s)
  case (Cons name names)
  let ?path = "path_Join [en_dir e, name]"
  obtain s1 st where st: "op_Stat F ?path s = (s1, st)" by fastforce
  note ok1 = frameD(1) [OF Stat_frame [OF st Cons.prems(2)] Cons.prems(2)]
  obtain s2 rm where rm: "op_Remove F ?path s1 = (s2, rm)" by fastforce
  note ok2 = frameD(1) [OF Remove_frame [OF rm ok1] ok1]
  show ?case
    using Cons.prems st rm ok1 ok2 Cons.IH by (auto simp: Let_def split: if_splits sum.splits option.splits)
qed simp

lemma removeOrphans_ok:
  assumes "removeOrphans F e s = (s', err)" "a_ok A s"
  shows "a_ok A s'"
proof -
  obtain s1 l where l: "op_List F (en_dir e) s = (s1, l)" by fastforce
  note ok1 = frameD(1) [OF List_frame [OF l assms(2)] assms(2)]
  have "a_ok A s2" if "remove_names F e names False s1 = (s2, r)" for names s2 r using remove_names_ok [OF that ok1] .
  moreover have "a_ok A s3" if "op_SyncDir F (en_dir e) s2 = (s3, er)" "a_ok A s2" for s2 s3 er by (rule frameD(1) [OF SyncDir_frame [OF that] that(2)])
  ultimately show ?thesis using assms(1) l ok1 by (auto simp: removeOrphans_def split: sum.splits prod.splits if_splits)
qed

lemma lsm_Open_empty:
  assumes "lsm_Open F unmarshal dir options s = Some (s', Inr e)" "a_ok A s" "a_named A s (manifest_path dir) = None"
  shows "eng_ok A {} e s' \<and> \<not> en_closed e \<and> en_poisoned e = None"
proof -
  obtain rnd s1 where r: "op_Rand options = Some rnd" and l: "loadManifest F unmarshal dir s = (s1, Inr newManifestState)" "a_ok A s1"
    using assms loadManifest_missing [of unmarshal dir s] by (auto simp: lsm_Open_def Let_def split: option.splits if_splits prod.splits sum.splits)
  define threshold where "threshold = (if op_FlushThreshold options = 0 then DefaultFlushThreshold else op_FlushThreshold options)"
  define e0 :: "'h Engine" where "e0 = \<lparr>en_rnd = rnd, en_list = newSkipList 0, en_activeSize = 0, en_activeCount = 0, en_activeMaxSeq = 0,
      en_immutables = [], en_flushThreshold = threshold, en_appliedIndex = 0, en_manifest = newManifestState, en_tables = [],
      en_nextFileNumber = 1, en_fs = True, en_dir = dir, en_poisoned = None, en_unresolved = [], en_obsolete = [],
      en_obsoleteDirDirty = False, en_disableAutoCompaction = op_DisableAutoCompaction options,
      en_readWithBloom = \<not> op_SkipBloom options, en_completedFlushes = 0, en_completedCompactions = 0, en_closed = False\<rparr>"
  have tables: "openReferencedTables F e0 s1 = Some (e0, s1, None)"
    by (simp add: e0_def openReferencedTables_def newManifestState_def sortedManifestFiles_def)
  obtain s2 where s2: "syncRecoveredVersion F e0 s1 = (s2, None)" "removeOrphans F e0 s2 = (s', None)"
    and e: "e = e0\<lparr>en_nextFileNumber := nextFileNumber (ms_files newManifestState)\<rparr>"
    using assms(1) r l(1) tables unfolding lsm_Open_def Let_def threshold_def [symmetric] e0_def [symmetric]
    by (auto simp: Let_def e0_def [symmetric] split: if_splits prod.splits option.splits)
  obtain sa where sa: "op_SyncDir F dir s1 = (sa, None)" "syncManifest F (path_Join [dir, manifestFilename]) sa = (s2, None)"
    using s2(1) by (auto simp: syncRecoveredVersion_def e0_def split: prod.splits option.splits)
  have "a_ok A s2" by (rule syncManifest_ok [OF sa(2) frameD(1) [OF SyncDir_frame [OF sa(1) l(2)] l(2)]])
  then have "a_ok A s'" by (rule removeOrphans_ok [OF s2(2)])
  then show ?thesis by (simp add: e e0_def eng_ok_def tables_ok_def mem_entries_def skip_inv_new covers_def)
qed

end

section \<open>Histories\<close>

datatype engine_op =
    EPut bytes bytes u64 | EDelete bytes u64 | EAdvance u64 | EFlushThrough u64 | EForceFlush | ECompact
  | ECrash int | ECrashSchedule "SimCrashDirective list" | EErrorSchedule "SimErrorDirective list" | EResetEvents

fun engine_exec :: "(VersionEdit \<Rightarrow> bytes option) \<Rightarrow> engine_op \<Rightarrow> nat Engine \<Rightarrow> SimFS \<Rightarrow> (nat Engine \<times> SimFS \<times> lsm_error option) option" where
  "engine_exec marshal (EPut key v seq) e fs = Put SimFS_ops marshal key v seq e fs"
| "engine_exec marshal (EDelete key seq) e fs = Delete SimFS_ops marshal key seq e fs"
| "engine_exec marshal (EAdvance index) e fs = (case AdvanceAppliedIndex index e of (e, err) \<Rightarrow> Some (e, fs, err))"
| "engine_exec marshal (EFlushThrough index) e fs = FlushThrough SimFS_ops marshal index e fs"
| "engine_exec marshal EForceFlush e fs = ForceFlush SimFS_ops marshal e fs"
| "engine_exec marshal ECompact e fs = compact SimFS_ops marshal e fs"
| "engine_exec marshal (ECrash k) e fs = Some (e, fst (Crash k fs), None)"
| "engine_exec marshal (ECrashSchedule ds) e fs = Some (e, fst (SetCrashSchedule ds fs), None)"
| "engine_exec marshal (EErrorSchedule ds) e fs = Some (e, fst (SetErrorSchedule ds fs), None)"
| "engine_exec marshal EResetEvents e fs = Some (e, ResetEvents fs, None)"

text \<open>The version that a write carries.\<close>

fun op_versions :: "engine_op \<Rightarrow> TableEntry set" where
  "op_versions (EPut key v seq) = {\<lparr>te_Key = key, te_Seq = seq, te_Value = v, te_Tombstone = False\<rparr>}"
| "op_versions (EDelete key seq) = {\<lparr>te_Key = key, te_Seq = seq, te_Value = [], te_Tombstone = True\<rparr>}"
| "op_versions _ = {}"

text \<open>A history runs every operation, whatever error the earlier ones reported. The engine accepts the writes until it fails for good.\<close>

fun engine_run :: "(VersionEdit \<Rightarrow> bytes option) \<Rightarrow> engine_op list \<Rightarrow> nat Engine \<Rightarrow> SimFS \<Rightarrow> (nat Engine \<times> SimFS \<times> TableEntry set) option" where
  "engine_run marshal [] e fs = Some (e, fs, {})"
| "engine_run marshal (op # ops) e fs =
     (case engine_exec marshal op e fs of
        None \<Rightarrow> None
      | Some (e1, fs1, err) \<Rightarrow>
          (case engine_run marshal ops e1 fs1 of
             None \<Rightarrow> None
           | Some (e2, fs2, W) \<Rightarrow> Some (e2, fs2, (if checkOpenLocked e = None then op_versions op else {}) \<union> W)))"

definition history_versions :: "engine_op list \<Rightarrow> TableEntry set" where
  "history_versions ops = (\<Union>op \<in> set ops. op_versions op)"

lemma op_versions_normal: "x \<in> op_versions op \<Longrightarrow> normal_entry x"
  by (cases op) (auto simp: normal_entry_def)

lemma sim_quiet_fault: "same_core fs fs' \<or> crashes_to fs fs' \<Longrightarrow> quiet sim_abs dir fs fs'"
  by (auto intro: quiet_frame frame_same_core frame_crash)

lemma fault_ops_quiet: "quiet sim_abs dir fs (fst (Crash k fs))" "quiet sim_abs dir fs (fst (SetCrashSchedule ds fs))"
  "quiet sim_abs dir fs (fst (SetErrorSchedule es fs))" "quiet sim_abs dir fs (ResetEvents fs)"
  by (auto simp: Crash_def SetCrashSchedule_def SetErrorSchedule_def ResetEvents_def same_core_def intro!: sim_quiet_fault split: sum.split)

lemma engine_exec_ok:
  assumes "eng_ok sim_abs W e fs" "\<not> en_closed e" "coherent (W \<union> op_versions op)"
  shows "\<exists>e' fs' err. engine_exec marshal op e fs = Some (e', fs', err)
    \<and> eng_ok sim_abs (W \<union> (if checkOpenLocked e = None then op_versions op else {})) e' fs' \<and> kept e e'"
proof -
  have open_iff: "checkOpenLocked e = None \<longleftrightarrow> en_poisoned e = None" using assms(2) by (auto simp: checkOpenLocked_def split: option.split)
  have cohW: "coherent W" using assms(3) unfolding coherent_def by blast
  have wr: "\<exists>e' fs' err. write_locked SimFS_ops marshal key v tb seq e fs = Some (e', fs', err)
      \<and> eng_ok sim_abs (W \<union> (if checkOpenLocked e = None then {\<lparr>te_Key = key, te_Seq = seq, te_Value = v, te_Tombstone = tb\<rparr>} else {})) e' fs' \<and> kept e e'"
    if "coherent (W \<union> {\<lparr>te_Key = key, te_Seq = seq, te_Value = v, te_Tombstone = tb\<rparr>})" for key v tb seq
    by (rule sim_fs.write_locked_ok [OF assms(1)]) (use that assms(2) cohW open_iff in auto)
  have fl: "\<exists>e' fs' err. flushThroughLocked SimFS_ops marshal index e fs = Some (e', fs', err) \<and> eng_ok sim_abs W e' fs' \<and> kept e e'" for index
    by (rule sim_fs.flushThroughLocked_ok [OF assms(1) cohW])
  have co: "\<exists>e' fs' err. compactAllLocked SimFS_ops marshal e fs = Some (e', fs', err) \<and> eng_ok sim_abs W e' fs' \<and> kept e e'"
    using sim_fs.compactAllLocked_ok [OF assms(1) cohW] same_mem_kept by blast
  note refl = eng_ok_quiet [OF assms(1) _ same_data_refl, OF fault_ops_quiet(1)] eng_ok_quiet [OF assms(1) _ same_data_refl, OF fault_ops_quiet(2)]
    eng_ok_quiet [OF assms(1) _ same_data_refl, OF fault_ops_quiet(3)] eng_ok_quiet [OF assms(1) _ same_data_refl, OF fault_ops_quiet(4)]
  show ?thesis
  proof (cases op)
    case (EAdvance index)
    then show ?thesis using eng_ok_quiet [OF assms(1) quiet_refl] assms(1)
      by (auto simp: AdvanceAppliedIndex_def advanceAppliedIndexLocked_def kept_def same_data_def split: option.split)
  qed (use assms(1,3) wr fl co refl in \<open>auto simp: Put_def Delete_def putLocked_def deleteLocked_def FlushThrough_def ForceFlush_def compact_def
      split: option.split\<close>)
qed

lemma engine_run_ok:
  assumes "eng_ok sim_abs W e fs" "\<not> en_closed e" "coherent (W \<union> history_versions ops)"
  shows "\<exists>e' fs' V. engine_run marshal ops e fs = Some (e', fs', V) \<and> eng_ok sim_abs (W \<union> V) e' fs' \<and> \<not> en_closed e'
    \<and> V \<subseteq> history_versions ops \<and> (en_poisoned e' = None \<longrightarrow> en_poisoned e = None \<and> V = history_versions ops)"
  using assms
proof (induction ops arbitrary: W e fs)
  case Nil
  then show ?case by (simp add: history_versions_def)
next
  case (Cons op ops)
  let ?V = "if checkOpenLocked e = None then op_versions op else {}"
  have all: "history_versions (op # ops) = op_versions op \<union> history_versions ops" by (simp add: history_versions_def)
  have "coherent (W \<union> op_versions op)" using Cons.prems(3) unfolding all coherent_def by blast
  then obtain e1 fs1 err where e1: "engine_exec marshal op e fs = Some (e1, fs1, err)" "eng_ok sim_abs (W \<union> ?V) e1 fs1" "kept e e1"
    using engine_exec_ok [OF Cons.prems(1,2)] by blast
  have "coherent (W \<union> ?V \<union> history_versions ops)" using Cons.prems(3) unfolding all coherent_def by (auto split: if_splits)
  from Cons.IH [OF e1(2) _ this] e1(3) Cons.prems(2) obtain e2 fs2 V where e2: "engine_run marshal ops e1 fs1 = Some (e2, fs2, V)"
    "eng_ok sim_abs (W \<union> ?V \<union> V) e2 fs2" "\<not> en_closed e2" "V \<subseteq> history_versions ops"
    "en_poisoned e2 = None \<longrightarrow> en_poisoned e1 = None \<and> V = history_versions ops" by (auto simp: kept_def)
  have "en_poisoned e = None \<and> ?V \<union> V = history_versions (op # ops)" if "en_poisoned e2 = None"
    using that e2(5) e1(3) Cons.prems(2) unfolding all by (auto simp: kept_def checkOpenLocked_def)
  moreover have "?V \<union> V \<subseteq> history_versions (op # ops)" using e2(4) unfolding all by auto
  ultimately show ?case using e1(1) e2(1-3) by (simp add: Un_assoc)
qed

section \<open>When a table can be read\<close>

text \<open>The file system is up, the handle is open and of this generation, and no fault is scheduled for the next read.\<close>

definition readable :: "nat \<Rightarrow> SimFS \<Rightarrow> bool" where
  "readable h fs \<longleftrightarrow> \<not> sf_crashed fs \<and> \<not> sm_closed (sf_files fs ! h) \<and> sm_generation (sf_files fs ! h) = sf_generation fs
     \<and> (\<forall>point \<in> {SimBeforeOperation, SimAfterOperation}.
          sf_errorFaults fs (FSOpRead, sf_opCounts fs FSOpRead + 1, point) = None
        \<and> sf_crashFaults fs (FSOpRead, sf_opCounts fs FSOpRead + 1, point) = None)"

lemma readable_view:
  assumes "readable h fs"
  shows "readAtFull (sim_view h fs) n offset = readAtFull (file_ReadAt (file_data h fs)) n offset"
proof -
  obtain fs1 ev fs2 where b: "file_beginLocked FSOpRead h fs = (fs1, Inr ev)" "file_data h fs1 = file_data h fs" "finishLocked ev fs1 = (fs2, None)"
    using assms by (simp add: readable_def file_beginLocked_def beginLocked_def finishLocked_def file_data_def Let_def)
  then show ?thesis by (simp add: readAtFull_def sim_view_def file_ReadAt_at_def file_ReadAt_def Let_def)
qed

lemma readable_get:
  assumes "table_holds sim_abs fs t es" "readable (th_file t) fs" "table_reader SimFS_ops fs t = Some reader"
  shows "reader_get reader key bloom \<noteq> Some (Inl err)"
proof -
  obtain R content gs where R: "th_reader t = Some R" "a_holds sim_abs fs (th_file t) content" "reads_table content gs es (R\<lparr>sr_r := file_ReadAt content\<rparr>)"
    using assms(1) by (auto simp: table_holds_def)
  have c: "file_data (th_file t) fs = content" using R(2) assms(2) by (auto simp: readable_def)
  have "readBlock (sim_view (th_file t) fs) offset len = readBlock (file_ReadAt content) offset len" for offset len
    using readable_view [OF assms(2)] c by (simp add: readBlock_def uint64ToInt_def)
  moreover have "reader = R\<lparr>sr_r := sim_view (th_file t) fs\<rparr>" using assms(3) R(1) by (simp add: table_reader_def)
  ultimately have "reader_get reader key bloom = reader_get (R\<lparr>sr_r := file_ReadAt content\<rparr>) key bloom"
    by (simp add: reader_get_def Let_def split: option.split)
  with reader_get_ok [OF R(3)] show ?thesis by simp
qed

lemma lookup_tables_readable:
  "\<forall>t \<in> set ts. (\<exists>es. table_holds sim_abs fs t es) \<and> readable (th_file t) fs
    \<Longrightarrow> lookup_tables SimFS_ops fs bloom key ts best \<noteq> Some (Inl (SstFailed err))"
proof (induction ts arbitrary: best)
  case (Cons t ts)
  then have "reader_get reader key bloom \<noteq> Some (Inl x)" if "table_reader SimFS_ops fs t = Some reader" for reader x
    using readable_get [OF _ _ that] by auto
  with Cons show ?case by (auto simp: consider_version_def split: option.split sum.split prod.split)
qed simp

lemma lookup_memtables_error: "lookup_memtables key ls best \<noteq> Some (Inl (SstFailed err))"
  by (induction ls arbitrary: best) (auto simp: consider_version_def split: option.split sum.split prod.split)

lemma lookup_readable:
  assumes "eng_ok sim_abs W e fs" "\<forall>t \<in> set (en_tables e). readable (th_file t) fs"
  shows "lookupLocked SimFS_ops key e fs \<noteq> Some (Inl (SstFailed err))"
proof -
  have "\<forall>t \<in> set (en_tables e). (\<exists>es. table_holds sim_abs fs t es) \<and> readable (th_file t) fs"
    using assms by (auto simp: eng_ok_def tables_ok_def)
  from lookup_tables_readable [OF this] lookup_memtables_error show ?thesis
    by (auto simp: lookupLocked_def simp del: lookup_memtables.simps split: option.split sum.split)
qed

section \<open>The newest version\<close>


definition engine_demo_options :: Options where
  "engine_demo_options = \<lparr>op_Rand = Some (\<lambda>_ _. 1), op_FlushThreshold = 0, op_SkipBloom = False, op_DisableAutoCompaction = False\<rparr>"

definition engine_demo_history :: "engine_op list" where
  "engine_demo_history = [EPut [7] [1] 1, EErrorSchedule [], EForceFlush, EPut [7] [2] 2, EDelete [8] 3, ECrash 0]"

lemma engine_demo_paths: "path_Join [''db'', manifestFilename] = ''db/MANIFEST''" "cleanPath ''db'' = ''db''"
  "cleanPath ''db/MANIFEST'' = ''db/MANIFEST''" "path_Dir ''db/MANIFEST'' = ''db''" "path_Base ''db/MANIFEST'' = ''MANIFEST''"
  "HasSuffix ''MANIFEST'' sstableFilenameSuffix = False"
  by code_simp+

lemma engine_demo_open: "\<exists>fs e. lsm_Open SimFS_ops (\<lambda>_. None) ''db'' engine_demo_options NewSimFS = Some (fs, Inr e)
    \<and> en_tables e = [] \<and> en_activeSize e = 0 \<and> en_flushThreshold e = DefaultFlushThreshold \<and> en_appliedIndex e = 0"
  by (simp add: lsm_Open_def engine_demo_options_def loadManifest_def createManifest_def engine_demo_paths SimFS_ops_def NewSimFS_def
      Stat_def Create_def file_Sync_def file_Close_def SyncDir_def Let_def beginLocked_def finishLocked_def file_beginLocked_def newFile_def
      clearDirtyLocked_def DefaultFlushThreshold_def openReferencedTables_def newManifestState_def sortedManifestFiles_def
      syncRecoveredVersion_def syncManifest_def simfs_OpenAppend_def simfs_open_def removeOrphans_def fs_List_def)


end
