(* ===== verification/Lsm_Statemachine.thy ===== *)
theory Lsm_Statemachine
  imports Lsm_Engine
begin

text \<open>
  The persistent state machine, \<open>internal/lsm/statemachine.go\<close>: the commands of the replicated log applied
  to the storage engine, with the logical values, the deduplication table and the replay mode that it
  keeps in memory. An operation takes the state machine and the state of the file system; an outer
  \<open>None\<close> is a panic or a loop that does not end. The machine holds the engine's lock for the whole of
  every method, so locking is left out.
\<close>

record stateDedupRecord =
  sd_lastSeq :: u64
  sd_lastResult :: Result

record 'h StateMachine =
  lm_engine :: "'h Engine"
  lm_values :: "bytes \<rightharpoonup> bytes"
  lm_dedup :: "u64 \<rightharpoonup> stateDedupRecord"
  lm_applied :: u64
  lm_replaying :: bool
  lm_replayCeiling :: u64

datatype lsm_sm_error =
    ApplyNilEntry | DecodeCommandFailed | UnsupportedEntryType u32 | UnsupportedCommandOp u32
  | ReplayStartsAt u64 | EngineFailed lsm_error | LsmSnapshotUnsupported

definition cloneStateResult :: "Result \<Rightarrow> Result" where
  "cloneStateResult r = \<lparr>r_Value = cloneBytes (r_Value r), r_Found = r_Found r\<rparr>"

definition OpenStateMachine :: "('s, 'h) FS \<Rightarrow> (bytes \<Rightarrow> VersionEdit option) \<Rightarrow> string \<Rightarrow> Options \<Rightarrow> 's
    \<Rightarrow> ('s \<times> (lsm_error option + 'h StateMachine)) option" where
  "OpenStateMachine F unmarshal dir options s =
     (case lsm_Open F unmarshal dir options s of
        None \<Rightarrow> None
      | Some (s, Inl err) \<Rightarrow> Some (s, Inl err)
      | Some (s, Inr engine) \<Rightarrow>
          Some (s, Inr \<lparr>lm_engine = engine, lm_values = Map.empty, lm_dedup = Map.empty, lm_applied = 0,
                  lm_replaying = False, lm_replayCeiling = 0\<rparr>))"

definition BeginReplay :: "u64 \<Rightarrow> u64 \<Rightarrow> 'h StateMachine \<Rightarrow> 'h StateMachine \<times> lsm_sm_error option" where
  "BeginReplay retainedFirst retainedLast m =
     (if retainedLast < retainedFirst then (m\<lparr>lm_replaying := False, lm_replayCeiling := 0\<rparr>, None)
      else if retainedFirst \<noteq> 1 then (m, Some (ReplayStartsAt retainedFirst))
      else (m\<lparr>lm_replaying := True, lm_replayCeiling := retainedLast\<rparr>, None))"

definition sm_Close :: "('s, 'h) FS \<Rightarrow> 'h StateMachine \<Rightarrow> 's \<Rightarrow> 'h StateMachine \<times> 's \<times> lsm_error option" where
  "sm_Close F m s = (case engine_Close F (lm_engine m) s of (e, s, err) \<Rightarrow> (m\<lparr>lm_engine := e\<rparr>, s, err))"

text \<open>\<open>crashFS\<close> has the operations \<open>Crashed\<close> and \<open>Crash\<close> when the engine's file system is a \<open>SimFS\<close>.\<close>

definition sm_Crash :: "('s, 'h) FS \<Rightarrow> (('s \<Rightarrow> bool) \<times> (int \<Rightarrow> 's \<Rightarrow> 's \<times> fs_error option)) option \<Rightarrow> 'h StateMachine \<Rightarrow> 's
    \<Rightarrow> 'h StateMachine \<times> 's \<times> lsm_error option" where
  "sm_Crash F crashFS m s =
     (case crashFS of
        Some (crashed, crash) \<Rightarrow>
          if crashed s then (m\<lparr>lm_engine := Abandon (lm_engine m)\<rparr>, s, None)
          else (case crash RetainAllUnsynced s of (s, err) \<Rightarrow> (m\<lparr>lm_engine := Abandon (lm_engine m)\<rparr>, s, fs_err err))
      | None \<Rightarrow> sm_Close F m s)"

definition FinishReplay :: "'h StateMachine \<Rightarrow> 'h StateMachine" where
  "FinishReplay m = m\<lparr>lm_replaying := False\<rparr>"

definition finishReplayLocked :: "u64 \<Rightarrow> 'h StateMachine \<Rightarrow> 'h StateMachine" where
  "finishReplayLocked index m = (if lm_replaying m \<and> index \<ge> lm_replayCeiling m then m\<lparr>lm_replaying := False\<rparr> else m)"

definition advanceAppliedLocked :: "u64 \<Rightarrow> 'h StateMachine \<Rightarrow> 'h StateMachine \<times> lsm_sm_error option" where
  "advanceAppliedLocked index m =
     (if index \<le> lm_applied m then (m, None)
      else case advanceAppliedIndexLocked index (lm_engine m) of
             (e, Some err) \<Rightarrow> (m\<lparr>lm_engine := e\<rparr>, Some (EngineFailed err))
           | (e, None) \<Rightarrow> (m\<lparr>lm_engine := e, lm_applied := index\<rparr>, None))"

definition executeLocked :: "('s, 'h) FS \<Rightarrow> (VersionEdit \<Rightarrow> bytes option) \<Rightarrow> Command \<Rightarrow> u64 \<Rightarrow> 'h StateMachine \<Rightarrow> 's
    \<Rightarrow> ('h StateMachine \<times> 's \<times> (lsm_sm_error + Result)) option" where
  "executeLocked F marshal command index m s =
     (let key = c_Key command
      in if c_Op command = PUT
         then (case putLocked F marshal key (c_Value command) index (lm_engine m) s of
                 None \<Rightarrow> None
               | Some (e, s, Some err) \<Rightarrow> Some (m\<lparr>lm_engine := e\<rparr>, s, Inl (EngineFailed err))
               | Some (e, s, None) \<Rightarrow>
                   Some (m\<lparr>lm_engine := e, lm_values := (lm_values m)(key \<mapsto> cloneBytes (c_Value command))\<rparr>, s, Inr empty_result))
         else if c_Op command = DELETE
         then (case deleteLocked F marshal key index (lm_engine m) s of
                 None \<Rightarrow> None
               | Some (e, s, Some err) \<Rightarrow> Some (m\<lparr>lm_engine := e\<rparr>, s, Inl (EngineFailed err))
               | Some (e, s, None) \<Rightarrow> Some (m\<lparr>lm_engine := e, lm_values := (lm_values m)(key := None)\<rparr>, s, Inr empty_result))
         else if c_Op command = GET
         then (case (if lm_replaying m then Some (Inr (lookup_value (lm_values m) key))
                     else (case readLocked F key (lm_engine m) s of
                             None \<Rightarrow> None
                           | Some (Inl err) \<Rightarrow> Some (Inl (EngineFailed err))
                           | Some (Inr None) \<Rightarrow> Some (Inr \<lparr>r_Value = [], r_Found = False\<rparr>)
                           | Some (Inr (Some v)) \<Rightarrow> Some (Inr \<lparr>r_Value = v, r_Found = True\<rparr>))) of
                 None \<Rightarrow> None
               | Some (Inl err) \<Rightarrow> Some (m, s, Inl err)
               | Some (Inr result) \<Rightarrow>
                   (case advanceAppliedLocked index m of
                      (m, Some err) \<Rightarrow> Some (m, s, Inl err)
                    | (m, None) \<Rightarrow> Some (m, s, Inr result)))
         else Some (m, s, Inl (UnsupportedCommandOp (c_Op command))))"

definition sm_Apply :: "('s, 'h) FS \<Rightarrow> (VersionEdit \<Rightarrow> bytes option) \<Rightarrow> (bytes \<Rightarrow> Command option) \<Rightarrow> Entry option \<Rightarrow> 'h StateMachine \<Rightarrow> 's
    \<Rightarrow> ('h StateMachine \<times> 's \<times> (lsm_sm_error + Result)) option" where
  "sm_Apply F marshal unmarshal eo m s =
     (case eo of
        None \<Rightarrow> Some (m, s, Inl ApplyNilEntry)
      | Some ent \<Rightarrow>
          (let m = (if lm_replaying m \<and> e_Index ent > lm_replayCeiling m then m\<lparr>lm_replaying := False\<rparr> else m)
           in if e_Type ent = NOOP
              then (case advanceAppliedLocked (e_Index ent) m of
                      (m, Some err) \<Rightarrow> Some (m, s, Inl err)
                    | (m, None) \<Rightarrow> Some (finishReplayLocked (e_Index ent) m, s, Inr empty_result))
              else if e_Type ent = NORMAL
              then (case unmarshal (e_Data ent) of
                      None \<Rightarrow> Some (m, s, Inl DecodeCommandFailed)
                    | Some command \<Rightarrow>
                        (case (case lm_dedup m (c_ClientId command) of
                                 None \<Rightarrow> None
                               | Some record \<Rightarrow> if c_Seq command \<le> sd_lastSeq record then Some record else None) of
                           Some record \<Rightarrow>
                             (case advanceAppliedLocked (e_Index ent) m of
                                (m, Some err) \<Rightarrow> Some (m, s, Inl err)
                              | (m, None) \<Rightarrow> Some (finishReplayLocked (e_Index ent) m, s, Inr (cloneStateResult (sd_lastResult record))))
                         | None \<Rightarrow>
                             (case executeLocked F marshal command (e_Index ent) m s of
                                None \<Rightarrow> None
                              | Some (m, s, Inl err) \<Rightarrow> Some (m, s, Inl err)
                              | Some (m, s, Inr result) \<Rightarrow>
                                  (let m = m\<lparr>lm_dedup := (lm_dedup m)(c_ClientId command \<mapsto>
                                             \<lparr>sd_lastSeq = c_Seq command, sd_lastResult = cloneStateResult result\<rparr>)\<rparr>;
                                       m = (if e_Index ent > lm_applied m then m\<lparr>lm_applied := e_Index ent\<rparr> else m)
                                   in Some (finishReplayLocked (e_Index ent) m, s, Inr (cloneStateResult result))))))
              else Some (m, s, Inl (UnsupportedEntryType (e_Type ent)))))"

definition sm_Read :: "('s, 'h) FS \<Rightarrow> bytes \<Rightarrow> 'h StateMachine \<Rightarrow> 's \<Rightarrow> (lsm_sm_error + Result) option" where
  "sm_Read F key m s =
     (case readLocked F key (lm_engine m) s of
        None \<Rightarrow> None
      | Some (Inl err) \<Rightarrow> Some (Inl (EngineFailed err))
      | Some (Inr None) \<Rightarrow> Some (Inr \<lparr>r_Value = [], r_Found = False\<rparr>)
      | Some (Inr (Some v)) \<Rightarrow> Some (Inr \<lparr>r_Value = v, r_Found = True\<rparr>))"

definition sm_AppliedIndex :: "'h StateMachine \<Rightarrow> u64" where
  "sm_AppliedIndex m = lm_applied m"

definition hashStateUint64 :: "u64 \<Rightarrow> u64 \<Rightarrow> u64" where
  "hashStateUint64 v h = fnv_write h (put_be 8 (unat v))"

definition hashStateBytes :: "bytes \<Rightarrow> u64 \<Rightarrow> u64" where
  "hashStateBytes v h = fnv_write (hashStateUint64 (of_nat (length v)) h) v"

text \<open>\<open>key_order\<close> and \<open>client_order\<close> are the orders in which \<open>range\<close> enumerates the two maps.\<close>

definition sm_Hash :: "bytes list \<Rightarrow> u64 list \<Rightarrow> 'h StateMachine \<Rightarrow> u64" where
  "sm_Hash key_order client_order m =
     (let h = hashStateUint64 (lm_applied m) fnv_offset;
          keys = sort key_order;
          h = hashStateUint64 (of_nat (length keys)) h;
          h = fold (\<lambda>key h. hashStateBytes (case lm_values m key of Some v \<Rightarrow> v | None \<Rightarrow> []) (hashStateBytes key h)) keys h;
          clientIDs = sort client_order;
          h = hashStateUint64 (of_nat (length clientIDs)) h
      in fold (\<lambda>clientID h.
           let record = (case lm_dedup m clientID of Some r \<Rightarrow> r | None \<Rightarrow> \<lparr>sd_lastSeq = 0, sd_lastResult = empty_result\<rparr>);
               h = hashStateUint64 clientID h;
               h = hashStateUint64 (sd_lastSeq record) h;
               h = hashStateBytes (r_Value (sd_lastResult record)) h
           in if r_Found (sd_lastResult record) then hashStateUint64 1 h else hashStateUint64 0 h) clientIDs h)"

definition sm_CreateSnapshot :: "string \<Rightarrow> SnapshotMeta \<Rightarrow> 'h StateMachine \<Rightarrow> lsm_sm_error option" where
  "sm_CreateSnapshot dir meta m = Some LsmSnapshotUnsupported"

definition sm_RestoreSnapshot :: "string \<Rightarrow> 'h StateMachine \<Rightarrow> lsm_sm_error + SnapshotMeta" where
  "sm_RestoreSnapshot dir m = Inl LsmSnapshotUnsupported"

end
