(* ===== verification/Lsm_Statemachine_Props.thy ===== *)
theory Lsm_Statemachine_Props
  imports Lsm_Engine_Runs Lsm_Statemachine
begin

text \<open>
  The persistent state machine (\<open>internal/lsm/statemachine.go\<close>) implements the map state machine
  (\<open>internal/statemachine/mapsm\<close>): applied to the same log it gives the same results, values, deduplication
  records and digest, unless the engine reports an error, at which the host stops. This also holds while a
  recovered engine, whose tables may already have later versions, replays the retained log.
\<close>

section \<open>Versions and values\<close>

definition logical :: "TableEntry option \<Rightarrow> bytes option" where
  "logical v = (case v of None \<Rightarrow> None | Some e \<Rightarrow> if te_Tombstone e then None else Some (te_Value e))"

definition current :: "(bytes \<rightharpoonup> bytes) \<Rightarrow> TableEntry set \<Rightarrow> bool" where
  "current vs P \<longleftrightarrow> (\<forall>key v. is_newest P key v \<longrightarrow> logical v = vs key)"

lemma current_empty: "current Map.empty {}"
  by (auto simp: current_def is_newest_def logical_def split: option.split)

lemma current_insert:
  assumes "current vs P" "\<forall>p \<in> P. te_Seq p < te_Seq x"
  shows "current (vs(te_Key x := logical (Some x))) (insert x P)"
  unfolding current_def
proof (intro allI impI)
  fix key v
  assume n: "is_newest (insert x P) key v"
  show "logical v = (vs(te_Key x := logical (Some x))) key"
  proof (cases "key = te_Key x")
    case True
    then have "v = Some x" using n assms(2) by (auto simp: is_newest_def split: option.splits dest: leD)
    with True show ?thesis by simp
  next
    case False
    then have "is_newest P key v" using n by (auto simp: is_newest_def split: option.splits)
    with assms(1) False show ?thesis by (simp add: current_def)
  qed
qed

text \<open>The version that an entry of the log writes, and those of a whole log.\<close>

definition apply_version :: "(bytes \<Rightarrow> Command option) \<Rightarrow> Entry \<Rightarrow> MapStateMachine \<Rightarrow> TableEntry set" where
  "apply_version unmarshal ent ms =
     (if e_Type ent \<noteq> NORMAL then {}
      else case unmarshal (e_Data ent) of
             None \<Rightarrow> {}
           | Some c \<Rightarrow>
               if duplicate c ms \<noteq> None then {}
               else if c_Op c = PUT then {\<lparr>te_Key = c_Key c, te_Seq = e_Index ent, te_Value = c_Value c, te_Tombstone = False\<rparr>}
               else if c_Op c = DELETE then {\<lparr>te_Key = c_Key c, te_Seq = e_Index ent, te_Value = [], te_Tombstone = True\<rparr>}
               else {})"

fun log_versions :: "(bytes \<Rightarrow> Command option) \<Rightarrow> Entry list \<Rightarrow> MapStateMachine \<Rightarrow> TableEntry set" where
  "log_versions unmarshal [] ms = {}"
| "log_versions unmarshal (ent # es) ms = apply_version unmarshal ent ms \<union> log_versions unmarshal es (fst (Apply unmarshal (Some ent) ms))"

abbreviation increasing :: "Entry list \<Rightarrow> bool" where
  "increasing es \<equiv> sorted_wrt (<) (map e_Index es)"

lemma apply_version_seq: "x \<in> apply_version unmarshal ent ms \<Longrightarrow> te_Seq x = e_Index ent \<and> normal_entry x"
  by (auto simp: apply_version_def normal_entry_def split: if_splits option.splits)

lemma apply_version_unique: "x \<in> apply_version unmarshal ent ms \<Longrightarrow> y \<in> apply_version unmarshal ent ms \<Longrightarrow> x = y"
  by (auto simp: apply_version_def split: if_splits option.splits)

lemma log_versions_seq: "x \<in> log_versions unmarshal es ms \<Longrightarrow> te_Seq x \<in> e_Index ` set es \<and> normal_entry x"
  by (induction es arbitrary: ms) (auto dest: apply_version_seq)

lemma log_versions_unique:
  "increasing es \<Longrightarrow> x \<in> log_versions unmarshal es ms \<Longrightarrow> y \<in> log_versions unmarshal es ms \<Longrightarrow> te_Seq x = te_Seq y \<Longrightarrow> x = y"
proof (induction es arbitrary: ms)
  case (Cons ent es)
  have later: "e_Index ent < te_Seq z" if "z \<in> log_versions unmarshal es (fst (Apply unmarshal (Some ent) ms))" for z
    using Cons.prems(1) log_versions_seq [OF that] by auto
  show ?case using Cons.prems later [of x] later [of y] Cons.IH apply_version_unique apply_version_seq
    by (auto; metis less_irrefl)
qed simp

lemma log_versions_coherent: "increasing es \<Longrightarrow> coherent (log_versions unmarshal es ms)"
  using log_versions_unique log_versions_seq unfolding coherent_def by blast

section \<open>The relation between the machines\<close>

definition map_record :: "dedupRecord \<Rightarrow> stateDedupRecord" where
  "map_record r = \<lparr>sd_lastSeq = lastSeq r, sd_lastResult = lastResult r\<rparr>"

definition sm_same :: "'h StateMachine \<Rightarrow> MapStateMachine \<Rightarrow> bool" where
  "sm_same m ms \<longleftrightarrow> lm_values m = m_values ms \<and> lm_dedup m = map_option map_record \<circ> m_dedup ms \<and> lm_applied m = m_applied ms"

text \<open>
  \<open>W\<close> are the versions in the engine, \<open>P\<close> those of the applied entries, \<open>R\<close> those of the entries still to come.
  Only during a replay the engine has versions of entries to come.
\<close>

definition sm_inv :: "TableEntry set \<Rightarrow> TableEntry set \<Rightarrow> TableEntry set \<Rightarrow> nat StateMachine \<Rightarrow> MapStateMachine \<Rightarrow> SimFS \<Rightarrow> bool" where
  "sm_inv W P R m ms fs \<longleftrightarrow> eng_ok sim_abs W (lm_engine m) fs \<and> \<not> en_closed (lm_engine m) \<and> coherent (W \<union> R) \<and> P \<subseteq> W
     \<and> W \<subseteq> P \<union> (if lm_replaying m then {r \<in> R. te_Seq r \<le> lm_replayCeiling m} else {})
     \<and> current (m_values ms) P \<and> (\<forall>p \<in> P. te_Seq p \<le> m_applied ms) \<and> sm_same m ms"

fun same_error :: "sm_error \<Rightarrow> lsm_sm_error" where
  "same_error NilEntry = ApplyNilEntry"
| "same_error DecodeCommand = DecodeCommandFailed"
| "same_error (UnsupportedType t) = UnsupportedEntryType t"
| "same_error (UnsupportedOp op) = UnsupportedCommandOp op"
| "same_error SnapshotUnsupported = LsmSnapshotUnsupported"

lemma read_current:
  assumes "eng_ok sim_abs W e fs" "coherent W" "\<not> en_closed e" "current vs W"
  shows "(\<exists>err. readLocked SimFS_ops key e fs = Some (Inl (SstFailed err))) \<or> readLocked SimFS_ops key e fs = Some (Inr (vs key))"
proof -
  from sim_fs.lookupLocked_ok [OF assms(1,2), of key] assms(3) show ?thesis
  proof (elim disjE exE conjE)
    fix v
    assume l: "lookupLocked SimFS_ops key e fs = Some (Inr (map_option version_of v))" "is_newest W key v"
    then have "logical v = vs key" using assms(4) by (simp add: current_def)
    with l(1) show ?thesis by (cases v) (auto simp: readLocked_def logical_def version_of_def split: if_splits)
  qed (auto simp: readLocked_def)
qed

lemma write_step:
  assumes "eng_ok sim_abs W e fs" "\<not> en_closed e" "coherent (insert \<lparr>te_Key = key, te_Seq = seq, te_Value = v, te_Tombstone = tb\<rparr> W)"
  shows "\<exists>e' fs' err. write_locked SimFS_ops marshal key v tb seq e fs = Some (e', fs', err) \<and> \<not> en_closed e'
    \<and> (err = None \<longrightarrow> eng_ok sim_abs (insert \<lparr>te_Key = key, te_Seq = seq, te_Value = v, te_Tombstone = tb\<rparr> W) e' fs')"
proof (cases "checkOpenLocked e")
  case None
  then have "en_poisoned e = None" by (auto simp: checkOpenLocked_def split: if_splits option.splits)
  with sim_fs.write_locked_ok [OF assms(1) _ _ assms(3), of key seq v tb marshal] assms(2) show ?thesis by (auto simp: kept_def)
next
  case (Some err)
  then show ?thesis using assms(2) by (simp add: write_locked_def)
qed

lemma advance_step:
  assumes "advanceAppliedLocked index m = (m', err)" "eng_ok sim_abs W (lm_engine m) fs" "\<not> en_closed (lm_engine m)"
  shows "(\<exists>x. err = Some (EngineFailed x)) \<or> err = None \<and> eng_ok sim_abs W (lm_engine m') fs \<and> \<not> en_closed (lm_engine m')
    \<and> m' = m\<lparr>lm_engine := lm_engine m', lm_applied := max (lm_applied m) index\<rparr>"
proof -
  have "eng_ok sim_abs W ((lm_engine m)\<lparr>en_appliedIndex := index\<rparr>) fs"
    by (rule eng_ok_quiet [OF assms(2) quiet_refl]) (simp add: same_data_def)
  then show ?thesis using assms
    by (auto simp: advanceAppliedLocked_def advanceAppliedIndexLocked_def checkOpenLocked_def max_def split: if_splits option.splits)
qed

section \<open>One entry\<close>

lemma sm_inv_stop_replay:
  assumes "sm_inv W P R m ms fs" "\<forall>r \<in> R. lm_replayCeiling m < te_Seq r"
  shows "sm_inv W P R (m\<lparr>lm_replaying := False\<rparr>) ms fs"
proof -
  have "{r \<in> R. te_Seq r \<le> lm_replayCeiling m} = {}" using assms(2) by (auto simp: not_le)
  then show ?thesis using assms(1) by (auto simp: sm_inv_def sm_same_def split: if_splits)
qed

lemma sm_inv_finish:
  assumes "sm_inv W P R m ms fs" "\<forall>r \<in> R. index < te_Seq r"
  shows "sm_inv W P R (finishReplayLocked index m) ms fs"
proof (cases "lm_replaying m \<and> index \<ge> lm_replayCeiling m")
  case True
  then have "\<forall>r \<in> R. lm_replayCeiling m < te_Seq r" using assms(2) by (auto intro: le_less_trans)
  with sm_inv_stop_replay [OF assms(1)] True show ?thesis by (simp add: finishReplayLocked_def)
qed (use assms(1) in \<open>auto simp: finishReplayLocked_def\<close>)

lemma sm_inv_advance:
  assumes "sm_inv W P R m ms fs" "advanceAppliedLocked index m = (m', err)"
  shows "(\<exists>x. err = Some (EngineFailed x)) \<or> err = None \<and> sm_inv W P R m' (advanceAppliedIndex index ms) fs"
proof -
  have a: "(\<exists>x. err = Some (EngineFailed x)) \<or> err = None \<and> eng_ok sim_abs W (lm_engine m') fs \<and> \<not> en_closed (lm_engine m')
    \<and> m' = m\<lparr>lm_engine := lm_engine m', lm_applied := max (lm_applied m) index\<rparr>"
    using advance_step [OF assms(2)] assms(1) by (simp add: sm_inv_def)
  have fields: "lm_values m' = lm_values m" "lm_dedup m' = lm_dedup m" "lm_applied m' = max (lm_applied m) index"
    "lm_replaying m' = lm_replaying m" "lm_replayCeiling m' = lm_replayCeiling m"
    if "m' = m\<lparr>lm_engine := lm_engine m', lm_applied := max (lm_applied m) index\<rparr>" by (subst that, simp)+
  from a show ?thesis
  proof (elim disjE conjE)
    assume "err = None" and e: "eng_ok sim_abs W (lm_engine m') fs" "\<not> en_closed (lm_engine m')"
      and m': "m' = m\<lparr>lm_engine := lm_engine m', lm_applied := max (lm_applied m) index\<rparr>"
    with assms(1) fields [OF m'] show ?thesis by (auto simp: sm_inv_def sm_same_def le_max_iff_disj)
  qed simp
qed

text \<open>The effect of a write on the machine and its abstraction.\<close>

lemma sm_inv_write:
  assumes inv: "sm_inv W P (insert x R) m ms fs" and e: "eng_ok sim_abs (insert x W) e fs'" "\<not> en_closed e"
    and x: "te_Seq x = index" "m_applied ms < index" "vs = (m_values ms)(te_Key x := logical (Some x))"
    and ms': "m_values ms' = vs" "m_applied ms' = max (m_applied ms) index"
    and m': "lm_engine m' = e" "lm_replaying m' = lm_replaying m" "lm_replayCeiling m' = lm_replayCeiling m" "sm_same m' ms'"
  shows "sm_inv (insert x W) (insert x P) R m' ms' fs'"
proof -
  have P: "\<forall>p \<in> P. te_Seq p < te_Seq x" using inv x(1,2) by (auto simp: sm_inv_def intro: le_less_trans)
  have "current vs (insert x P)" unfolding x(3) by (rule current_insert [OF _ P]) (use inv in \<open>simp add: sm_inv_def\<close>)
  moreover have "insert x W \<subseteq> insert x P \<union> (if lm_replaying m then {r \<in> R. te_Seq r \<le> lm_replayCeiling m} else {})"
    using inv by (auto simp: sm_inv_def split: if_splits)
  moreover have "coherent (insert x W \<union> R)" "P \<subseteq> W" using inv by (auto simp: sm_inv_def)
  moreover have "\<forall>p \<in> insert x P. te_Seq p \<le> m_applied ms'" using P x(1,2) ms'(2) by (auto simp: le_max_iff_disj)
  ultimately show ?thesis using e ms' m' by (auto simp: sm_inv_def)
qed

lemma sm_same_duplicate: "sm_same m ms \<Longrightarrow>
  (case lm_dedup m (c_ClientId c) of None \<Rightarrow> None | Some record \<Rightarrow> if c_Seq c \<le> sd_lastSeq record then Some record else None)
   = map_option map_record (duplicate c ms)"
  by (auto simp: sm_same_def duplicate_def map_record_def split: option.split)

text \<open>A command that is not a duplicate, up to the updates that \<open>Apply\<close> makes after its execution.\<close>

definition dedup_put :: "Command \<Rightarrow> u64 \<Rightarrow> Result \<Rightarrow> 'h StateMachine \<Rightarrow> 'h StateMachine" where
  "dedup_put c index r m =
     (let m = m\<lparr>lm_dedup := (lm_dedup m)(c_ClientId c \<mapsto> \<lparr>sd_lastSeq = c_Seq c, sd_lastResult = r\<rparr>)\<rparr>
      in if index > lm_applied m then m\<lparr>lm_applied := index\<rparr> else m)"

lemma dedup_put_fields [simp]: "lm_engine (dedup_put c i r m) = lm_engine m" "lm_values (dedup_put c i r m) = lm_values m"
  "lm_replaying (dedup_put c i r m) = lm_replaying m" "lm_replayCeiling (dedup_put c i r m) = lm_replayCeiling m"
  "lm_applied (dedup_put c i r m) = max (lm_applied m) i"
  "lm_dedup (dedup_put c i r m) = (lm_dedup m)(c_ClientId c \<mapsto> \<lparr>sd_lastSeq = c_Seq c, sd_lastResult = r\<rparr>)"
  by (simp_all add: dedup_put_def Let_def)

definition map_put :: "Command \<Rightarrow> u64 \<Rightarrow> Result \<Rightarrow> MapStateMachine \<Rightarrow> MapStateMachine" where
  "map_put c index r ms = advanceAppliedIndex index (ms\<lparr>m_values := exec_values c (m_values ms),
     m_dedup := (m_dedup ms)(c_ClientId c \<mapsto> \<lparr>lastSeq = c_Seq c, lastResult = r\<rparr>)\<rparr>)"

lemma execute_write:
  assumes inv: "sm_inv W P (insert x R) m ms fs" "m_applied ms < index"
    and x: "x = \<lparr>te_Key = c_Key c, te_Seq = index, te_Value = v, te_Tombstone = tb\<rparr>"
    and vals: "exec_values c (m_values ms) = (m_values ms)(te_Key x := logical (Some x))"
    and ex: "executeLocked SimFS_ops marshal c index m fs =
       (case write_locked SimFS_ops marshal (c_Key c) v tb index (lm_engine m) fs of
          None \<Rightarrow> None
        | Some (e, s, Some err) \<Rightarrow> Some (m\<lparr>lm_engine := e\<rparr>, s, Inl (EngineFailed err))
        | Some (e, s, None) \<Rightarrow> Some (m\<lparr>lm_engine := e, lm_values := (lm_values m)(te_Key x := logical (Some x))\<rparr>, s, Inr empty_result))"
  shows "(\<exists>m' fs' err. executeLocked SimFS_ops marshal c index m fs = Some (m', fs', Inl (EngineFailed err)))
    \<or> (\<exists>m' fs'. executeLocked SimFS_ops marshal c index m fs = Some (m', fs', Inr empty_result)
         \<and> sm_inv (insert x W) (insert x P) R (dedup_put c index empty_result m') (map_put c index empty_result ms) fs')"
proof -
  have "coherent (insert x W)" using inv(1) unfolding sm_inv_def coherent_def by blast
  then obtain e fs' err where w: "write_locked SimFS_ops marshal (c_Key c) v tb index (lm_engine m) fs = Some (e, fs', err)" "\<not> en_closed e"
    "err = None \<longrightarrow> eng_ok sim_abs (insert x W) e fs'" using write_step [of W "lm_engine m" fs "c_Key c" index v tb marshal] inv(1) x by (auto simp: sm_inv_def)
  show ?thesis
  proof (cases err)
    case None
    let ?m = "m\<lparr>lm_engine := e, lm_values := (lm_values m)(te_Key x := logical (Some x))\<rparr>"
    have same: "sm_same (dedup_put c index empty_result ?m) (map_put c index empty_result ms)"
      using inv(1) vals by (auto simp: sm_inv_def sm_same_def map_put_def map_record_def)
    have "sm_inv (insert x W) (insert x P) R (dedup_put c index empty_result ?m) (map_put c index empty_result ms) fs'"
      by (rule sm_inv_write [OF inv(1) _ w(2) _ inv(2) vals])
        (use w None x vals same in \<open>simp_all add: map_put_def\<close>)
    then show ?thesis using w(1) None ex by auto
  qed (use w(1) ex in auto)
qed

lemma execute_get:
  assumes inv: "sm_inv W P R m ms fs" "m_applied ms < index" and c: "c_Op c = GET"
  shows "(\<exists>m' fs' err. executeLocked SimFS_ops marshal c index m fs = Some (m', fs', Inl (EngineFailed err)))
    \<or> (\<exists>m' fs'. executeLocked SimFS_ops marshal c index m fs = Some (m', fs', Inr (exec_result c (m_values ms)))
         \<and> sm_inv W P R (dedup_put c index (exec_result c (m_values ms)) m') (map_put c index (exec_result c (m_values ms)) ms) fs')"
proof -
  let ?r = "exec_result c (m_values ms)"
  let ?read = "if lm_replaying m then Some (Inr (lookup_value (lm_values m) (c_Key c)))
    else (case readLocked SimFS_ops (c_Key c) (lm_engine m) fs of
            None \<Rightarrow> None
          | Some (Inl err) \<Rightarrow> Some (Inl (EngineFailed err))
          | Some (Inr None) \<Rightarrow> Some (Inr \<lparr>r_Value = [], r_Found = False\<rparr>)
          | Some (Inr (Some v)) \<Rightarrow> Some (Inr \<lparr>r_Value = v, r_Found = True\<rparr>))"
  have same: "lm_values m = m_values ms" using inv(1) by (simp add: sm_inv_def sm_same_def)
  have r: "?r = lookup_value (m_values ms) (c_Key c)" using c by (simp add: exec_result_def)
  have read: "(\<exists>err. ?read = Some (Inl (EngineFailed err))) \<or> ?read = Some (Inr ?r)"
  proof (cases "lm_replaying m")
    case False
    then have "W = P" using inv(1) by (auto simp: sm_inv_def)
    then have "coherent W" "current (m_values ms) W" using inv(1) unfolding sm_inv_def coherent_def by blast+
    from read_current [OF _ this(1) _ this(2), of "lm_engine m" fs "c_Key c"] inv(1) False show ?thesis
      by (auto simp: sm_inv_def r lookup_value_def split: option.split)
  qed (simp add: r same)
  obtain m' err where a: "advanceAppliedLocked index m = (m', err)" by fastforce
  have ex: "executeLocked SimFS_ops marshal c index m fs = (case ?read of
      None \<Rightarrow> None | Some (Inl err) \<Rightarrow> Some (m, fs, Inl err)
    | Some (Inr result) \<Rightarrow> (case advanceAppliedLocked index m of (m, Some err) \<Rightarrow> Some (m, fs, Inl err) | (m, None) \<Rightarrow> Some (m, fs, Inr result)))"
    using c by (simp add: executeLocked_def op_codes)
  from read show ?thesis
  proof
    assume rd: "?read = Some (Inr ?r)"
    from sm_inv_advance [OF inv(1) a] show ?thesis
    proof (elim disjE exE conjE)
      assume "err = None" and inv': "sm_inv W P R m' (advanceAppliedIndex index ms) fs"
      have "exec_values c (m_values ms) = m_values ms" using c by (simp add: exec_values_def op_codes)
      then have "sm_inv W P R (dedup_put c index ?r m') (map_put c index ?r ms) fs"
        using inv' by (auto simp: sm_inv_def sm_same_def map_put_def map_record_def)
      then show ?thesis using rd a \<open>err = None\<close> unfolding ex by simp
    qed (use rd a in \<open>simp add: ex\<close>)
  qed (use ex in auto)
qed

lemma execute_ok:
  assumes inv: "sm_inv W P (V \<union> R) m ms fs" "m_applied ms < e_Index ent"
    and c: "e_Type ent = NORMAL" "unmarshal (e_Data ent) = Some c" "duplicate c ms = None" "V = apply_version unmarshal ent ms"
    and ex_def: "ex = executeLocked SimFS_ops marshal c (e_Index ent) m fs"
  shows "(\<exists>m' fs' err. ex = Some (m', fs', Inl err) \<and> ((\<exists>x. err = EngineFailed x) \<or> \<not> supported c \<and> err = UnsupportedCommandOp (c_Op c)))
    \<or> (\<exists>m' fs' r. ex = Some (m', fs', Inr r) \<and> supported c \<and> r = exec_result c (m_values ms)
         \<and> sm_inv (V \<union> W) (V \<union> P) R (dedup_put c (e_Index ent) r m') (map_put c (e_Index ent) r ms) fs')"
proof -
  have same: "lm_values m = m_values ms" using inv(1) by (simp add: sm_inv_def sm_same_def)
  consider "c_Op c = PUT" | "c_Op c = DELETE" | "c_Op c = GET" | "\<not> supported c" by (auto simp: supported_def)
  then show ?thesis
  proof cases
    case 1
    let ?x = "\<lparr>te_Key = c_Key c, te_Seq = e_Index ent, te_Value = c_Value c, te_Tombstone = False\<rparr>"
    have V: "V = {?x}" using c 1 by (simp add: apply_version_def)
    have "exec_result c (m_values ms) = empty_result" "supported c" using 1 by (simp_all add: exec_result_def supported_def op_codes)
    moreover have "sm_inv W P (insert ?x R) m ms fs" using inv(1) V by simp
    moreover have "exec_values c (m_values ms) = (m_values ms)(te_Key ?x := logical (Some ?x))" using 1 by (simp add: exec_values_def logical_def op_codes)
    moreover have "executeLocked SimFS_ops marshal c (e_Index ent) m fs =
       (case write_locked SimFS_ops marshal (c_Key c) (c_Value c) False (e_Index ent) (lm_engine m) fs of
          None \<Rightarrow> None
        | Some (e, s, Some err) \<Rightarrow> Some (m\<lparr>lm_engine := e\<rparr>, s, Inl (EngineFailed err))
        | Some (e, s, None) \<Rightarrow> Some (m\<lparr>lm_engine := e, lm_values := (lm_values m)(te_Key ?x := logical (Some ?x))\<rparr>, s, Inr empty_result))"
      using 1 by (simp add: executeLocked_def logical_def putLocked_def Let_def split: option.split)
    moreover note execute_write [OF calculation(3) inv(2) refl calculation(4) this]
    ultimately show ?thesis unfolding V ex_def by auto
  next
    case 2
    let ?x = "\<lparr>te_Key = c_Key c, te_Seq = e_Index ent, te_Value = [], te_Tombstone = True\<rparr>"
    have V: "V = {?x}" using c 2 by (simp add: apply_version_def op_codes)
    have "exec_result c (m_values ms) = empty_result" "supported c" using 2 by (simp_all add: exec_result_def supported_def op_codes)
    moreover have "sm_inv W P (insert ?x R) m ms fs" using inv(1) V by simp
    moreover have "exec_values c (m_values ms) = (m_values ms)(te_Key ?x := logical (Some ?x))" using 2 by (simp add: exec_values_def logical_def op_codes)
    moreover have "executeLocked SimFS_ops marshal c (e_Index ent) m fs =
       (case write_locked SimFS_ops marshal (c_Key c) [] True (e_Index ent) (lm_engine m) fs of
          None \<Rightarrow> None
        | Some (e, s, Some err) \<Rightarrow> Some (m\<lparr>lm_engine := e\<rparr>, s, Inl (EngineFailed err))
        | Some (e, s, None) \<Rightarrow> Some (m\<lparr>lm_engine := e, lm_values := (lm_values m)(te_Key ?x := logical (Some ?x))\<rparr>, s, Inr empty_result))"
      using 2 by (simp add: executeLocked_def logical_def deleteLocked_def op_codes Let_def split: option.split)
    moreover note execute_write [OF calculation(3) inv(2) refl calculation(4) this]
    ultimately show ?thesis unfolding V ex_def by auto
  next
    case 3
    then have V: "V = {}" using c by (simp add: apply_version_def op_codes)
    have "supported c" using 3 by (simp add: supported_def)
    with execute_get [OF _ inv(2) 3, of W P R m fs marshal] inv(1) show ?thesis unfolding V ex_def by auto
  next
    case 4
    then show ?thesis by (auto simp: ex_def executeLocked_def supported_def Let_def)
  qed
qed

lemma sm_inv_begin:
  assumes "sm_inv W P R m ms fs" "\<forall>r \<in> R. index \<le> te_Seq r"
  shows "sm_inv W P R (if lm_replaying m \<and> index > lm_replayCeiling m then m\<lparr>lm_replaying := False\<rparr> else m) ms fs"
  using sm_inv_stop_replay [OF assms(1)] assms by (auto intro: less_le_trans)

lemma sm_Apply_ok:
  assumes inv: "sm_inv W P (V \<union> R) m ms fs" "m_applied ms < e_Index ent" "V = apply_version unmarshal ent ms" "\<forall>r \<in> R. e_Index ent < te_Seq r"
  shows "\<exists>m' fs' x. sm_Apply SimFS_ops marshal unmarshal (Some ent) m fs = Some (m', fs', x) \<and> (case x of
      Inr r \<Rightarrow> \<exists>ms'. Apply unmarshal (Some ent) ms = (ms', Inr r) \<and> sm_inv (V \<union> W) (V \<union> P) R m' ms' fs'
    | Inl err \<Rightarrow> (\<exists>y. err = EngineFailed y) \<or> (\<exists>ms' er. Apply unmarshal (Some ent) ms = (ms', Inl er) \<and> err = same_error er))"
proof -
  define m0 where "m0 = (if lm_replaying m \<and> e_Index ent > lm_replayCeiling m then m\<lparr>lm_replaying := False\<rparr> else m)"
  have inv0: "sm_inv W P (V \<union> R) m0 ms fs"
    unfolding m0_def by (rule sm_inv_begin [OF inv(1)]) (use inv(3,4) apply_version_seq in \<open>force simp: less_imp_le\<close>)
  obtain m1 err1 where a: "advanceAppliedLocked (e_Index ent) m0 = (m1, err1)" by fastforce
  note adv = sm_inv_advance [OF inv0 a]
  have fin: "sm_inv W P R (finishReplayLocked (e_Index ent) m1) ms' fs" if "sm_inv W P (V \<union> R) m1 ms' fs" "V = {}" for ms'
    using sm_inv_finish [OF that(1)] that(2) inv(4) by simp
  note simps = sm_Apply_def Let_def m0_def [symmetric] Apply_def
  consider "e_Type ent = NOOP" | "e_Type ent = NORMAL" | "e_Type ent \<noteq> NOOP" "e_Type ent \<noteq> NORMAL" by blast
  then show ?thesis
  proof cases
    case 1
    then have "V = {}" using inv(3) by (simp add: apply_version_def types_differ [symmetric])
    with 1 a adv fin show ?thesis by (auto simp: simps)
  next
    case 2
    show ?thesis
    proof (cases "unmarshal (e_Data ent)")
      case None
      then show ?thesis using 2 by (simp add: simps)
    next
      case (Some c)
      have dup: "(case lm_dedup m0 (c_ClientId c) of None \<Rightarrow> None | Some record \<Rightarrow> if c_Seq c \<le> sd_lastSeq record then Some record else None)
        = map_option map_record (duplicate c ms)" by (rule sm_same_duplicate) (use inv0 in \<open>simp add: sm_inv_def\<close>)
      show ?thesis
      proof (cases "duplicate c ms")
        case dup': (Some rec)
        then have "V = {}" using inv(3) 2 Some by (simp add: apply_version_def)
        with 2 Some dup dup' a adv fin show ?thesis by (auto simp: simps cloneStateResult_def map_record_def)
      next
        case none: None
        from execute_ok [OF inv0 inv(2) 2 Some none inv(3) refl, of marshal] show ?thesis
        proof (elim disjE exE conjE)
          fix m2 fs2 r
          assume e: "executeLocked SimFS_ops marshal c (e_Index ent) m0 fs = Some (m2, fs2, Inr r)" "supported c" "r = exec_result c (m_values ms)"
            "sm_inv (V \<union> W) (V \<union> P) R (dedup_put c (e_Index ent) r m2) (map_put c (e_Index ent) r ms) fs2"
          have clone: "cloneStateResult r = r" by (simp add: cloneStateResult_def)
          have "sm_Apply SimFS_ops marshal unmarshal (Some ent) m fs = Some (finishReplayLocked (e_Index ent) (dedup_put c (e_Index ent) r m2), fs2, Inr r)"
            using 2 Some dup none e(1) by (simp add: sm_Apply_def Let_def m0_def [symmetric] dedup_put_def clone)
          moreover have "Apply unmarshal (Some ent) ms = (map_put c (e_Index ent) r ms, Inr r)"
            using 2 Some none e(2,3) by (simp add: Apply_normal map_put_def)
          ultimately show ?thesis using sm_inv_finish [OF e(4) inv(4)] by auto
        qed (use 2 Some dup none in \<open>auto simp: simps execute_unsupported\<close>)
      qed
    qed
  next
    case 3
    then show ?thesis by (auto simp: simps)
  qed
qed

section \<open>A log\<close>

text \<open>The entries one after the other, up to the first error; the results so far.\<close>

fun sm_apply_log :: "('s, 'h) FS \<Rightarrow> (VersionEdit \<Rightarrow> bytes option) \<Rightarrow> (bytes \<Rightarrow> Command option) \<Rightarrow> Entry list \<Rightarrow> 'h StateMachine \<Rightarrow> 's
    \<Rightarrow> ('h StateMachine \<times> 's \<times> Result list \<times> lsm_sm_error option) option" where
  "sm_apply_log F marshal unmarshal [] m s = Some (m, s, [], None)"
| "sm_apply_log F marshal unmarshal (ent # es) m s =
     (case sm_Apply F marshal unmarshal (Some ent) m s of
        None \<Rightarrow> None
      | Some (m, s, Inl err) \<Rightarrow> Some (m, s, [], Some err)
      | Some (m, s, Inr r) \<Rightarrow>
          (case sm_apply_log F marshal unmarshal es m s of None \<Rightarrow> None | Some (m, s, rs, err) \<Rightarrow> Some (m, s, r # rs, err)))"

lemma Apply_applied: "Apply unmarshal (Some ent) ms = (ms', Inr r) \<Longrightarrow> m_applied ms' = max (m_applied ms) (e_Index ent)"
  by (auto simp: Apply_def execute_def Let_def split: if_splits option.splits prod.splits)

lemma sm_apply_log_ok:
  assumes "sm_inv W P (log_versions unmarshal es ms) m ms fs" "increasing es" "\<forall>ent \<in> set es. m_applied ms < e_Index ent"
  shows "\<exists>m' fs' rs err ms'. sm_apply_log SimFS_ops marshal unmarshal es m fs = Some (m', fs', rs, err)
    \<and> apply_log unmarshal (take (length rs) es) ms = Inr (ms', rs)
    \<and> (case err of
         None \<Rightarrow> length rs = length es \<and> sm_inv (W \<union> log_versions unmarshal es ms) (P \<union> log_versions unmarshal es ms) {} m' ms' fs'
       | Some x \<Rightarrow> (\<exists>y. x = EngineFailed y) \<or> (\<exists>ms'' er. length rs < length es \<and> Apply unmarshal (Some (es ! length rs)) ms' = (ms'', Inl er) \<and> x = same_error er))"
  using assms
proof (induction es arbitrary: W P m ms fs)
  case (Cons ent es)
  let ?V = "apply_version unmarshal ent ms" and ?R = "log_versions unmarshal es (fst (Apply unmarshal (Some ent) ms))"
  have later: "\<forall>r \<in> ?R. e_Index ent < te_Seq r" using Cons.prems(2) log_versions_seq by fastforce
  from sm_Apply_ok [OF Cons.prems(1) [unfolded log_versions.simps] _ refl later, of marshal] Cons.prems(3) obtain m1 fs1 x where
    s: "sm_Apply SimFS_ops marshal unmarshal (Some ent) m fs = Some (m1, fs1, x)" and x: "case x of
      Inr r \<Rightarrow> \<exists>ms'. Apply unmarshal (Some ent) ms = (ms', Inr r) \<and> sm_inv (?V \<union> W) (?V \<union> P) ?R m1 ms' fs1
    | Inl err \<Rightarrow> (\<exists>y. err = EngineFailed y) \<or> (\<exists>ms' er. Apply unmarshal (Some ent) ms = (ms', Inl er) \<and> err = same_error er)" by auto
  show ?case
  proof (cases x)
    case (Inl err)
    then show ?thesis using s x by (auto simp del: log_versions.simps)
  next
    case (Inr r)
    then obtain ms1 where a: "Apply unmarshal (Some ent) ms = (ms1, Inr r)" and i: "sm_inv (?V \<union> W) (?V \<union> P) (log_versions unmarshal es ms1) m1 ms1 fs1"
      using x by auto
    note app = Apply_applied [OF a]
    have "\<forall>e \<in> set es. m_applied ms1 < e_Index e" using Cons.prems(2,3) app by auto
    from Cons.IH [OF i _ this] Cons.prems(2) show ?thesis using s a Inr
      by (auto simp: Un_ac split: option.splits)
  qed
qed simp

section \<open>Runs without engine errors\<close>

text \<open>
  The engine has not failed, its tables can be read, and \<open>n\<close> more bytes do not fill the memtable: no
  automatic flush is due. The engine is not ahead of the machine.
\<close>

definition undisturbed :: "int \<Rightarrow> nat StateMachine \<Rightarrow> SimFS \<Rightarrow> bool" where
  "undisturbed n m fs \<longleftrightarrow> en_poisoned (lm_engine m) = None \<and> en_appliedIndex (lm_engine m) \<le> lm_applied m
     \<and> (\<forall>t \<in> set (en_tables (lm_engine m)). readable (th_file t) fs) \<and> en_activeSize (lm_engine m) + n < en_flushThreshold (lm_engine m)"

definition command_bytes :: "Command \<Rightarrow> int" where
  "command_bytes c = int (length (c_Key c) + 9 + length (c_Value c))"

definition entry_bytes :: "(bytes \<Rightarrow> Command option) \<Rightarrow> Entry \<Rightarrow> int" where
  "entry_bytes unmarshal ent = (case unmarshal (e_Data ent) of None \<Rightarrow> 0 | Some c \<Rightarrow> command_bytes c)"

lemma entry_bytes_nonneg: "0 \<le> entry_bytes unmarshal ent"
  by (simp add: entry_bytes_def command_bytes_def split: option.split)

lemma undisturbed_fields [simp]:
  "undisturbed n (m\<lparr>lm_replaying := b\<rparr>) fs = undisturbed n m fs" "undisturbed n (finishReplayLocked index m) fs = undisturbed n m fs"
  by (simp_all add: undisturbed_def finishReplayLocked_def)

lemma undisturbed_mono: "undisturbed (k + n) m fs \<Longrightarrow> 0 \<le> k \<Longrightarrow> undisturbed n m fs"
  by (simp add: undisturbed_def)

lemma memtableEntrySize_bounds: "0 \<le> memtableEntrySize key v tb" "memtableEntrySize key v tb \<le> int (length key + 9 + length v)"
proof -
  let ?k = "length key + 9 + (if tb then 0 else length v)"
  let ?u = "unat (of_nat ?k :: u64)"
  have eq: "memtableEntrySize key v tb = int (if ?u > max_int then max_int else ?u)"
    by (simp add: memtableEntrySize_def Let_def add.commute add.left_commute)
  then show "0 \<le> memtableEntrySize key v tb" by simp
  have "?u \<le> ?k" by (simp only: unat_of_nat mod_less_eq_dividend)
  then have "(if ?u > max_int then max_int else ?u) \<le> length key + 9 + length v" by auto
  then show "memtableEntrySize key v tb \<le> int (length key + 9 + length v)" unfolding eq by (rule of_nat_mono)
qed

lemma putActiveLocked_fields:
  assumes "putActiveLocked key v tb seq e = Some (e', accepted)"
  shows "en_activeSize e' \<le> en_activeSize e + memtableEntrySize key v tb" "en_poisoned e' = en_poisoned e" "en_tables e' = en_tables e"
    "en_appliedIndex e' = en_appliedIndex e" "en_flushThreshold e' = en_flushThreshold e" "en_closed e' = en_closed e"
  using assms memtableEntrySize_bounds(1)
  by (auto simp: putActiveLocked_def Let_def split: option.splits if_splits bool.splits prod.splits)

lemma write_undisturbed:
  assumes "undisturbed (k + n) m fs" "\<not> en_closed (lm_engine m)" "int (length key + 9 + length v) \<le> k" "0 \<le> n" "lm_applied m < index"
    and "write_locked SimFS_ops marshal key v tb index (lm_engine m) fs = Some (e', fs', err)"
  shows "err = None \<and> fs' = fs \<and> (lm_engine m' = e' \<longrightarrow> index \<le> lm_applied m' \<longrightarrow> undisturbed n m' fs)"
proof -
  let ?e = "advanceAppliedForWriteLocked index (lm_engine m)"
  have e: "en_activeSize ?e = en_activeSize (lm_engine m)" "en_poisoned ?e = en_poisoned (lm_engine m)" "en_tables ?e = en_tables (lm_engine m)"
    "en_flushThreshold ?e = en_flushThreshold (lm_engine m)" "en_appliedIndex ?e \<le> index"
    using assms(1,5) by (auto simp: advanceAppliedForWriteLocked_def undisturbed_def)
  have "checkOpenLocked (lm_engine m) = None" using assms(1,2) by (simp add: checkOpenLocked_def undisturbed_def)
  then obtain e1 acc where p: "putActiveLocked key v tb index ?e = Some (e1, acc)"
    and w: "write_locked SimFS_ops marshal key v tb index (lm_engine m) fs
      = (if acc \<and> shouldFlushLocked e1 then flushThroughLocked SimFS_ops marshal (automaticFlushTargetLocked e1) e1 fs else Some (e1, fs, None))"
    using assms(6) by (auto simp: write_locked_def Let_def split: option.splits)
  note f = putActiveLocked_fields [OF p]
  have s: "en_activeSize e1 + n < en_flushThreshold e1"
    using f(1,5) e(1,4) memtableEntrySize_bounds(2) [of key v tb] assms(1,3) by (simp add: undisturbed_def)
  then have "\<not> shouldFlushLocked e1" using assms(4) by (simp add: shouldFlushLocked_def)
  then have "e' = e1" "fs' = fs" "err = None" using w assms(6) by simp_all
  with s f(2-4) e assms(1) show ?thesis by (auto simp: undisturbed_def)
qed

lemma advance_undisturbed:
  assumes "undisturbed n m fs" "\<not> en_closed (lm_engine m)" "lm_applied m < index" "advanceAppliedLocked index m = (m', err)"
  shows "err = None \<and> undisturbed n m' fs \<and> lm_applied m' = index"
  using assms by (auto simp: advanceAppliedLocked_def advanceAppliedIndexLocked_def checkOpenLocked_def undisturbed_def split: if_splits)

lemma read_undisturbed:
  assumes "sm_inv W P R m ms fs" "undisturbed n m fs"
  shows "readLocked SimFS_ops key (lm_engine m) fs \<noteq> Some (Inl err)"
proof -
  have e: "eng_ok sim_abs W (lm_engine m) fs" "\<not> en_closed (lm_engine m)" "coherent W" using assms(1) unfolding sm_inv_def coherent_def by blast+
  have "lookupLocked SimFS_ops key (lm_engine m) fs \<noteq> Some (Inl (SstFailed x))" for x
    using lookup_readable [OF e(1)] assms(2) by (simp add: undisturbed_def)
  with sim_fs.lookupLocked_ok [OF e(1,3), of key] e(2) show ?thesis
    by (auto simp: readLocked_def version_of_def split: option.splits)
qed

lemma execute_undisturbed:
  assumes "sm_inv W P R m ms fs" "undisturbed (command_bytes c + n) m fs" "0 \<le> n" "lm_applied m < index"
    and "executeLocked SimFS_ops marshal c index m fs = Some (m', fs', x)"
  shows "case x of Inl err \<Rightarrow> (\<forall>y. err \<noteq> EngineFailed y) | Inr r \<Rightarrow> undisturbed n (dedup_put c index q m') fs'"
proof -
  have cl: "\<not> en_closed (lm_engine m)" using assms(1) by (simp add: sm_inv_def)
  have calm: "undisturbed n m fs" by (rule undisturbed_mono [OF assms(2)]) (simp add: command_bytes_def)
  have wr: "err = None \<and> fs1 = fs \<and> (lm_engine m1 = e1 \<longrightarrow> index \<le> lm_applied m1 \<longrightarrow> undisturbed n m1 fs)"
    if "write_locked SimFS_ops marshal (c_Key c) v tb index (lm_engine m) fs = Some (e1, fs1, err)" "length v \<le> length (c_Value c)" for v tb e1 fs1 err m1
    using write_undisturbed [OF assms(2) cl _ assms(3,4) that(1)] that(2) by (simp add: command_bytes_def)
  consider "c_Op c = PUT" | "c_Op c = DELETE" | "c_Op c = GET" | "\<not> supported c" by (auto simp: supported_def)
  then show ?thesis
  proof cases
    case 1
    then obtain e1 fs1 err where w: "write_locked SimFS_ops marshal (c_Key c) (c_Value c) False index (lm_engine m) fs = Some (e1, fs1, err)"
      using assms(5) by (auto simp: executeLocked_def putLocked_def Let_def split: option.splits)
    from wr [OF w] show ?thesis using assms(5) 1 w by (auto simp: executeLocked_def putLocked_def Let_def)
  next
    case 2
    then obtain e1 fs1 err where w: "write_locked SimFS_ops marshal (c_Key c) [] True index (lm_engine m) fs = Some (e1, fs1, err)"
      using assms(5) by (auto simp: executeLocked_def deleteLocked_def Let_def op_codes split: option.splits)
    from wr [OF w] show ?thesis using assms(5) 2 w by (auto simp: executeLocked_def deleteLocked_def Let_def op_codes)
  next
    case 3
    obtain m1 err where a: "advanceAppliedLocked index m = (m1, err)" by fastforce
    from advance_undisturbed [OF calm cl assms(4) a] have a': "err = None" "undisturbed n (dedup_put c index q m1) fs"
      by (auto simp: undisturbed_def)
    with assms(5) 3 a read_undisturbed [OF assms(1) calm] show ?thesis
      by (auto simp: executeLocked_def op_codes Let_def split: if_splits option.splits sum.splits)
  next
    case 4
    then show ?thesis using assms(5) by (auto simp: executeLocked_def supported_def Let_def)
  qed
qed

lemma sm_Apply_undisturbed:
  assumes inv: "sm_inv W P R m ms fs" "m_applied ms < e_Index ent" "\<forall>r \<in> R. e_Index ent \<le> te_Seq r"
    and calm: "undisturbed (entry_bytes unmarshal ent + n) m fs" "0 \<le> n"
    and ap: "sm_Apply SimFS_ops marshal unmarshal (Some ent) m fs = Some (m', fs', x)"
  shows "case x of Inl err \<Rightarrow> (\<forall>y. err \<noteq> EngineFailed y) | Inr r \<Rightarrow> undisturbed n m' fs'"
proof -
  define m0 where "m0 = (if lm_replaying m \<and> e_Index ent > lm_replayCeiling m then m\<lparr>lm_replaying := False\<rparr> else m)"
  have inv0: "sm_inv W P R m0 ms fs" unfolding m0_def by (rule sm_inv_begin [OF inv(1,3)])
  have c0: "undisturbed (entry_bytes unmarshal ent + n) m0 fs" using calm(1) by (simp add: m0_def)
  have c1: "undisturbed n m0 fs" by (rule undisturbed_mono [OF c0 entry_bytes_nonneg])
  have l: "lm_applied m0 < e_Index ent" "\<not> en_closed (lm_engine m0)" using inv0 inv(2) by (simp_all add: sm_inv_def sm_same_def)
  obtain m1 err where a: "advanceAppliedLocked (e_Index ent) m0 = (m1, err)" by fastforce
  note adv = advance_undisturbed [OF c1 l(2,1) a]
  consider "e_Type ent = NOOP" | "e_Type ent = NORMAL" | "e_Type ent \<noteq> NOOP" "e_Type ent \<noteq> NORMAL" by blast
  then show ?thesis
  proof cases
    case 2
    show ?thesis
    proof (cases "unmarshal (e_Data ent)")
      case (Some c)
      show ?thesis
      proof (cases "case lm_dedup m0 (c_ClientId c) of None \<Rightarrow> None | Some record \<Rightarrow> if c_Seq c \<le> sd_lastSeq record then Some record else None")
        case None
        then obtain m2 fs2 y where ex: "executeLocked SimFS_ops marshal c (e_Index ent) m0 fs = Some (m2, fs2, y)"
          using ap 2 Some by (auto simp: sm_Apply_def Let_def m0_def [symmetric] split: option.splits)
        have "undisturbed (command_bytes c + n) m0 fs" using c0 Some by (simp add: entry_bytes_def)
        note ex' = execute_undisturbed [OF inv0 this calm(2) l(1) ex]
        show ?thesis
        proof (cases y)
          case (Inr r)
          have "m' = finishReplayLocked (e_Index ent) (dedup_put c (e_Index ent) (cloneStateResult r) m2)" "fs' = fs2" "\<exists>r. x = Inr r"
            using ap 2 Some None ex Inr by (auto simp: sm_Apply_def Let_def m0_def [symmetric] dedup_put_def)
          then show ?thesis using ex' Inr by auto
        qed (use ap 2 Some None ex ex' in \<open>auto simp: sm_Apply_def Let_def m0_def [symmetric]\<close>)
      qed (use ap 2 Some a adv in \<open>auto simp: sm_Apply_def Let_def m0_def [symmetric]\<close>)
    qed (use ap 2 in \<open>auto simp: sm_Apply_def Let_def\<close>)
  qed (use ap a adv in \<open>auto simp: sm_Apply_def Let_def m0_def [symmetric]\<close>)
qed

lemma sm_apply_log_undisturbed:
  assumes "sm_inv W P (log_versions unmarshal es ms) m ms fs" "increasing es" "\<forall>ent \<in> set es. m_applied ms < e_Index ent"
    and "undisturbed (sum_list (map (entry_bytes unmarshal) es)) m fs"
    and "sm_apply_log SimFS_ops marshal unmarshal es m fs = Some (m', fs', rs, err)"
  shows "err \<noteq> Some (EngineFailed y)"
  using assms
proof (induction es arbitrary: W P m ms fs rs)
  case (Cons ent es)
  let ?V = "apply_version unmarshal ent ms" and ?R = "log_versions unmarshal es (fst (Apply unmarshal (Some ent) ms))"
  have later: "\<forall>r \<in> ?R. e_Index ent < te_Seq r" using Cons.prems(2) log_versions_seq by fastforce
  from sm_Apply_ok [OF Cons.prems(1) [unfolded log_versions.simps] _ refl later, of marshal] Cons.prems(3) obtain m1 fs1 x where
    s: "sm_Apply SimFS_ops marshal unmarshal (Some ent) m fs = Some (m1, fs1, x)" and x: "case x of
      Inr r \<Rightarrow> \<exists>ms'. Apply unmarshal (Some ent) ms = (ms', Inr r) \<and> sm_inv (?V \<union> W) (?V \<union> P) ?R m1 ms' fs1
    | Inl err \<Rightarrow> (\<exists>y. err = EngineFailed y) \<or> (\<exists>ms' er. Apply unmarshal (Some ent) ms = (ms', Inl er) \<and> err = same_error er)" by auto
  have sum: "0 \<le> sum_list (map (entry_bytes unmarshal) es)" by (rule sum_list_nonneg) (auto simp: entry_bytes_nonneg)
  have seq: "\<forall>r \<in> log_versions unmarshal (ent # es) ms. e_Index ent \<le> te_Seq r"
    using later apply_version_seq [of _ unmarshal ent ms] by (fastforce simp: less_imp_le)
  have calm: "case x of Inl err \<Rightarrow> (\<forall>y. err \<noteq> EngineFailed y) | Inr r \<Rightarrow> undisturbed (sum_list (map (entry_bytes unmarshal) es)) m1 fs1"
    by (rule sm_Apply_undisturbed [OF Cons.prems(1) _ seq _ sum s]) (use Cons.prems(3,4) in auto)
  show ?case
  proof (cases x)
    case (Inr r)
    then obtain ms1 where a: "Apply unmarshal (Some ent) ms = (ms1, Inr r)" and i: "sm_inv (?V \<union> W) (?V \<union> P) (log_versions unmarshal es ms1) m1 ms1 fs1"
      using x by auto
    note app = Apply_applied [OF a]
    have b: "\<forall>e \<in> set es. m_applied ms1 < e_Index e" using Cons.prems(2,3) app by auto
    obtain rs1 where "sm_apply_log SimFS_ops marshal unmarshal es m1 fs1 = Some (m', fs', rs1, err)"
      using Cons.prems(5) s Inr by (auto split: option.splits)
    from Cons.IH [OF i _ b _ this] Cons.prems(2) calm Inr show ?thesis by simp
  qed (use Cons.prems(5) s calm in auto)
qed simp

section \<open>The refinement\<close>

lemma sm_Hash_same:
  assumes "sm_same m ms"
  shows "sm_Hash ks cs m = Hash ks cs ms"
proof -
  have u: "hashStateUint64 = hashUint64" "hashStateBytes = hashBytes"
    by (simp_all add: fun_eq_iff hashStateUint64_def hashUint64_def hashStateBytes_def hashBytes_def)
  have v: "(\<lambda>key h. hashBytes (case lm_values m key of Some v \<Rightarrow> v | None \<Rightarrow> []) (hashBytes key h)) = hash_value (m_values ms)"
    using assms by (simp add: fun_eq_iff sm_same_def hash_value_def)
  have r: "(\<lambda>clientID h.
           let record = (case lm_dedup m clientID of Some r \<Rightarrow> r | None \<Rightarrow> \<lparr>sd_lastSeq = 0, sd_lastResult = empty_result\<rparr>);
               h = hashUint64 clientID h; h = hashUint64 (sd_lastSeq record) h; h = hashBytes (r_Value (sd_lastResult record)) h
           in if r_Found (sd_lastResult record) then hashUint64 1 h else hashUint64 0 h) = hash_record (m_dedup ms)"
    using assms by (auto simp: fun_eq_iff sm_same_def hash_record_def map_record_def Let_def split: option.split)
  show ?thesis using assms unfolding sm_Hash_def Hash_def u v r by (simp add: sm_same_def)
qed

lemma sm_Read_same:
  assumes "sm_inv W P {} m ms fs"
  shows "((\<exists>t \<in> set (en_tables (lm_engine m)). \<not> readable (th_file t) fs) \<and> (\<exists>err. sm_Read SimFS_ops key m fs = Some (Inl (EngineFailed (SstFailed err)))))
    \<or> sm_Read SimFS_ops key m fs = Some (Inr (lookup_value (m_values ms) key))"
proof -
  have e: "eng_ok sim_abs W (lm_engine m) fs" "\<not> en_closed (lm_engine m)" using assms by (simp_all add: sm_inv_def)
  have "W = P" "coherent W" using assms by (auto simp: sm_inv_def split: if_splits)
  then have "current (m_values ms) W" using assms by (simp add: sm_inv_def)
  from read_current [OF e(1) \<open>coherent W\<close> e(2) this, of key] show ?thesis
  proof (elim disjE exE)
    fix err
    assume r: "readLocked SimFS_ops key (lm_engine m) fs = Some (Inl (SstFailed err))"
    then have "lookupLocked SimFS_ops key (lm_engine m) fs = Some (Inl (SstFailed err))"
      by (auto simp: readLocked_def split: option.splits sum.splits)
    with lookup_readable [OF e(1), of key err] r show ?thesis by (auto simp: sm_Read_def)
  qed (simp add: sm_Read_def lookup_value_def split: option.split)
qed

lemma sm_inv_start:
  assumes "eng_ok sim_abs W e fs" "\<not> en_closed e" "W \<subseteq> {r \<in> R. te_Seq r \<le> ceiling}" "coherent R" "\<forall>r \<in> R. 0 < te_Seq r"
    and "BeginReplay 1 ceiling \<lparr>lm_engine = e, lm_values = Map.empty, lm_dedup = Map.empty, lm_applied = 0, lm_replaying = False, lm_replayCeiling = 0\<rparr> = (m, err)"
  shows "sm_inv W {} R m New fs"
proof -
  have "coherent (W \<union> R)" using assms(3,4) unfolding coherent_def by blast
  moreover have "W = {}" if "ceiling < 1"
  proof -
    have "ceiling = 0" using that by (metis word_coorder.extremum_uniqueI inc_le le_less_linear add_0 linorder_not_less)
    then show ?thesis using assms(3,5) by fastforce
  qed
  ultimately show ?thesis using assms current_empty
    by (auto simp: sm_inv_def BeginReplay_def New_def sm_same_def split: if_splits)
qed


text \<open>
  An engine that holds the version of the second entry of the log, as after a restart, with its applied index at zero. The replay has
  no error.
\<close>

lemma replay_demo_log_versions:
  "\<lparr>te_Key = [97], te_Seq = 2, te_Value = [1, 2], te_Tombstone = False\<rparr> \<in> log_versions sample_unmarshal sample_log New"
proof -
  let ?e = "\<lparr>e_Index = 2, e_Term = 1, e_Type = NORMAL, e_Data = [0]\<rparr>"
  have "m_dedup (fst (Apply sample_unmarshal (Some \<lparr>e_Index = 1, e_Term = 1, e_Type = NOOP, e_Data = []\<rparr>) New)) = Map.empty"
    by (simp add: Apply_def New_def advanceAppliedIndex_def)
  then have "\<lparr>te_Key = [97], te_Seq = 2, te_Value = [1, 2], te_Tombstone = False\<rparr>
      \<in> apply_version sample_unmarshal ?e (fst (Apply sample_unmarshal (Some \<lparr>e_Index = 1, e_Term = 1, e_Type = NOOP, e_Data = []\<rparr>) New))"
    by (simp add: apply_version_def sample_unmarshal_def put_key_a_def duplicate_def)
  then show ?thesis unfolding sample_log_def log_versions.simps by blast
qed

lemma replay_demo_engine:
  "\<exists>e fs. eng_ok sim_abs {\<lparr>te_Key = [97], te_Seq = 2, te_Value = [1, 2], te_Tombstone = False\<rparr>} e fs \<and> \<not> en_closed e
    \<and> undisturbed 24 \<lparr>lm_engine = e, lm_values = Map.empty, lm_dedup = Map.empty, lm_applied = 0, lm_replaying = True, lm_replayCeiling = 3\<rparr> fs"
proof -
  let ?W = "{\<lparr>te_Key = [97], te_Seq = 2, te_Value = [1, 2], te_Tombstone = False\<rparr>}"
  let ?m = "\<lambda>e applied. \<lparr>lm_engine = e, lm_values = Map.empty, lm_dedup = Map.empty, lm_applied = applied, lm_replaying = True, lm_replayCeiling = 3\<rparr>"
  obtain fs e where o: "lsm_Open SimFS_ops (\<lambda>_. None) ''db'' engine_demo_options NewSimFS = Some (fs, Inr e)"
    "en_tables e = []" "en_activeSize e = 0" "en_flushThreshold e = DefaultFlushThreshold" "en_appliedIndex e = 0" using engine_demo_open by blast
  have e: "eng_ok sim_abs {} e fs" "\<not> en_closed e" "en_poisoned e = None" using sim_fs.lsm_Open_empty [OF o(1)] by (simp_all add: NewSimFS_def)
  have "coherent ?W" by (simp add: coherent_def normal_entry_def)
  from write_step [OF e(1,2) this, of "\<lambda>_. Some []"] obtain e' fs' err where w: "write_locked SimFS_ops (\<lambda>_. Some []) [97] [1, 2] False 2 e fs = Some (e', fs', err)"
    "\<not> en_closed e'" "err = None \<longrightarrow> eng_ok sim_abs ?W e' fs'" by blast
  have "undisturbed (12 + 24) (?m e 0) fs" using o e by (simp add: undisturbed_def DefaultFlushThreshold_def)
  from write_undisturbed [OF this, of "[97]" "[1, 2]" 2 "\<lambda>_. Some []" False e' fs' err "?m e' 2"] w(1) e(2)
  have r: "err = None" "fs' = fs" "undisturbed 24 (?m e' 2) fs" by auto
  let ?e = "e'\<lparr>en_appliedIndex := 0\<rparr>"
  have "eng_ok sim_abs ?W ?e fs" by (rule eng_ok_quiet [of _ _ e' fs, OF _ quiet_refl]) (use w(3) r in \<open>simp_all add: same_data_def\<close>)
  moreover have "undisturbed 24 (?m ?e 0) fs" using r(3) by (simp add: undisturbed_def)
  ultimately show ?thesis using w(2) by (intro exI [of _ ?e] exI [of _ fs]) simp
qed

lemma well_formed_no_error: "well_formed_entry unmarshal ent \<Longrightarrow> Apply unmarshal (Some ent) ms \<noteq> (ms', Inl er)"
  by (auto simp: well_formed_entry_def Apply_def execute_supported Let_def split: option.splits)


end
