(* ===== verification/Spec2Isabelle.thy ===== *)
theory Spec2Isabelle
  imports Raft_Cluster Disklog_Recovery Server_KV Lsm_Skiplist Lsm_Manifest Lsm_Merge Lsm_Fs_Crash Lsm_Statemachine_Props
begin

text \<open>
  Verification development of MiniQuorum.
\<close>

end
